(* ===== verification/Verif_Prelude.thy ===== *)
theory Verif_Prelude
  imports "HOL-Library.Word" "HOL-Library.Monad_Syntax"
begin

text \<open>
  Shared vocabulary of the development: the machine integer types of the C sources, the
  little-endian and big-endian readings of byte strings with their round-trip laws, the
  splitting of a byte string into fixed-size blocks, and small lemmas on lists and
  options that the component theories use.
\<close>

unbundle bit_operations_syntax

section \<open>Machine types\<close>

type_synonym byte = "8 word"
type_synonym u16 = "16 word"
type_synonym u32 = "32 word"
type_synonym u64 = "64 word"

text \<open>Rewriting collections: endianness conversions, and block splitting.\<close>

named_theorems endian_simps
named_theorems absorb_simps

section \<open>Reading and writing words as byte strings\<close>

primrec word_of_le :: "byte list \<Rightarrow> 'a::len word" where
  "word_of_le [] = 0"
| "word_of_le (b # bs) = ucast b OR push_bit 8 (word_of_le bs)"

definition word_of_be :: "byte list \<Rightarrow> 'a::len word" where
  "word_of_be bs = word_of_le (rev bs)"

definition le_bytes :: "nat \<Rightarrow> 'a::len word \<Rightarrow> byte list" where
  "le_bytes n w = map (\<lambda>i. ucast (drop_bit (8 * i) w)) [0..<n]"

definition be_bytes :: "nat \<Rightarrow> 'a::len word \<Rightarrow> byte list" where
  "be_bytes n w = rev (le_bytes n w)"

lemma length_le_bytes [simp]: "length (le_bytes n w) = n"
  by (simp add: le_bytes_def)

lemma length_be_bytes [simp]: "length (be_bytes n w) = n"
  by (simp add: be_bytes_def)

lemma nth_le_bytes [simp]: "i < n \<Longrightarrow> le_bytes n w ! i = ucast (drop_bit (8 * i) w)"
  by (simp add: le_bytes_def)

lemma bit_word_of_le:
  "bit (word_of_le bs :: 'a::len word) i \<longleftrightarrow>
     i < LENGTH('a) \<and> i div 8 < length bs \<and> bit (bs ! (i div 8)) (i mod 8)"
proof (induction bs arbitrary: i)
  case Nil
  then show ?case by simp
next
  case (Cons b bs)
  show ?case
  proof (cases "i < 8")
    case True
    then show ?thesis
      by (auto simp: bit_simps)
  next
    case False
    then obtain j where i: "i = j + 8"
      by (metis add.commute le_Suc_ex not_less)
    have "bit (word_of_le (b # bs) :: 'a word) i \<longleftrightarrow>
        i < LENGTH('a) \<and> bit (word_of_le bs :: 'a word) j"
      by (auto simp: bit_simps i dest: bit_imp_le_length)
    moreover have "i div 8 = Suc (j div 8)" "i mod 8 = j mod 8"
      by (simp_all add: i)
    ultimately show ?thesis
      using Cons.IH [of j] by auto
  qed
qed

lemma word_of_le_le_bytes [endian_simps]:
  fixes w :: "'a::len word"
  assumes "LENGTH('a) \<le> 8 * n"
  shows "word_of_le (le_bytes n w) = w"
proof (rule bit_word_eqI)
  fix i assume i: "i < LENGTH('a)"
  then have "i div 8 < n"
    using assms by linarith
  moreover have "8 * (i div 8) + i mod 8 = i"
    by simp
  ultimately show "bit (word_of_le (le_bytes n w) :: 'a word) i \<longleftrightarrow> bit w i"
    using i by (simp add: bit_word_of_le bit_simps)
qed

lemma le_bytes_word_of_le [endian_simps]:
  assumes "length bs = n" and "8 * n \<le> LENGTH('a)"
  shows "le_bytes n (word_of_le bs :: 'a::len word) = bs"
proof (rule nth_equalityI)
  show "length (le_bytes n (word_of_le bs :: 'a word)) = length bs"
    using assms by simp
next
  fix i assume "i < length (le_bytes n (word_of_le bs :: 'a word))"
  then have i: "i < n" by simp
  have "bit (ucast (drop_bit (8 * i) (word_of_le bs :: 'a word)) :: byte) k \<longleftrightarrow> bit (bs ! i) k"
    if k: "k < 8" for k
  proof -
    have "(8 * i + k) div 8 = i" "(8 * i + k) mod 8 = k"
      using k by simp_all
    moreover have "8 * i + k < LENGTH('a)"
      using i k assms(2) by linarith
    ultimately show ?thesis
      using i k assms(1) by (auto simp: bit_simps bit_word_of_le)
  qed
  then have "(ucast (drop_bit (8 * i) (word_of_le bs :: 'a word)) :: byte) = bs ! i"
    by (intro bit_word_eqI) simp
  then show "le_bytes n (word_of_le bs :: 'a word) ! i = bs ! i"
    using i by simp
qed

lemma word_of_be_be_bytes [endian_simps]:
  "LENGTH('a) \<le> 8 * n \<Longrightarrow> word_of_be (be_bytes n (w :: 'a::len word)) = w"
  by (simp add: word_of_be_def be_bytes_def endian_simps)

lemma be_bytes_word_of_be [endian_simps]:
  "length bs = n \<Longrightarrow> 8 * n \<le> LENGTH('a) \<Longrightarrow> be_bytes n (word_of_be bs :: 'a::len word) = bs"
  by (simp add: word_of_be_def be_bytes_def endian_simps)

section \<open>Words and natural numbers\<close>

lemma ucast_of_nat:
  "LENGTH('b) \<le> LENGTH('a) \<Longrightarrow> ucast (of_nat n :: 'a::len word) = (of_nat n :: 'b::len word)"
  by (rule bit_word_eqI) (simp add: bit_simps)

lemma unat_ucast_up:
  fixes w :: "'a::len word"
  assumes "LENGTH('a) \<le> LENGTH('b)"
  shows "unat (ucast w :: 'b::len word) = unat w"
proof -
  have "unat w < 2 ^ LENGTH('a)" by (rule unsigned_less)
  also have "\<dots> \<le> 2 ^ LENGTH('b)" using assms by simp
  finally show ?thesis
    by (simp add: unsigned_ucast_eq take_bit_nat_eq_self)
qed

lemma unat_of_nat_small: "n < 2 ^ LENGTH('a) \<Longrightarrow> unat (of_nat n :: 'a::len word) = n"
  by (simp add: unat_of_nat)

section \<open>Lists\<close>

lemma length_4_conv: "length xs = 4 \<longleftrightarrow> (\<exists>a b c d. xs = [a, b, c, d])"
  by (auto simp: numeral_eq_Suc length_Suc_conv)

lemma length_8_conv:
  "length xs = 8 \<longleftrightarrow> (\<exists>a b c d e f g h. xs = [a, b, c, d, e, f, g, h])"
  by (auto simp: numeral_eq_Suc length_Suc_conv)

lemma take_append_eq [simp]: "length xs = n \<Longrightarrow> take n (xs @ ys) = xs"
  by simp

lemma drop_append_eq [simp]: "length xs = n \<Longrightarrow> drop n (xs @ ys) = ys"
  by simp

text \<open>\<open>memcpy(buf + off, bs, length bs)\<close> on a buffer held as a list.\<close>

definition overwrite :: "'b list \<Rightarrow> nat \<Rightarrow> 'b list \<Rightarrow> 'b list" where
  "overwrite buf off bs = take off buf @ bs @ drop (off + length bs) buf"

lemma length_overwrite [simp]:
  "off + length bs \<le> length buf \<Longrightarrow> length (overwrite buf off bs) = length buf"
  by (simp add: overwrite_def)

lemma take_overwrite [simp]:
  "off \<le> length buf \<Longrightarrow> n = off + length bs \<Longrightarrow> take n (overwrite buf off bs) = take off buf @ bs"
  by (simp add: overwrite_def)

section \<open>Splitting a byte string into blocks\<close>

text \<open>
  \<open>absorb n f v p\<close> folds \<open>f\<close> over the complete \<open>n\<close>-byte blocks at the front of
  \<open>p\<close> and returns what is left over. The hash functions consume their input this way.
\<close>

function absorb :: "nat \<Rightarrow> ('v \<Rightarrow> 'b list \<Rightarrow> 'v) \<Rightarrow> 'v \<Rightarrow> 'b list \<Rightarrow> 'v \<times> 'b list" where
  "absorb n f v p =
     (if 0 < n \<and> n \<le> length p then absorb n f (f v (take n p)) (drop n p) else (v, p))"
  by pat_completeness auto
termination
  by (relation "measure (\<lambda>(n, f, v, p). length p)") auto

declare absorb.simps [simp del]

lemma absorb_short [absorb_simps]: "length p < n \<Longrightarrow> absorb n f v p = (v, p)"
  by (simp add: absorb.simps)

lemma absorb_block [absorb_simps]:
  "0 < n \<Longrightarrow> length b = n \<Longrightarrow> absorb n f v (b @ p) = absorb n f (f v b) p"
  by (subst absorb.simps) simp

lemma absorb_rest_short: "0 < n \<Longrightarrow> length (snd (absorb n f v p)) < n"
proof (induction n f v p rule: absorb.induct)
  case (1 n f v p)
  then show ?case
    by (cases "n \<le> length p") (simp_all add: absorb.simps [of n f v p])
qed

lemma absorb_rest_length:
  "0 < n \<Longrightarrow> length (snd (absorb n f v p)) = length p mod n"
proof (induction n f v p rule: absorb.induct)
  case (1 n f v p)
  then show ?case
    by (cases "n \<le> length p") (simp_all add: absorb.simps [of n f v p] le_mod_geq)
qed

lemma absorb_append:
  "0 < n \<Longrightarrow> absorb n f v (p @ q) =
     absorb n f (fst (absorb n f v p)) (snd (absorb n f v p) @ q)"
proof (induction n f v p rule: absorb.induct)
  case (1 n f v p)
  show ?case
  proof (cases "n \<le> length p")
    case True
    with 1 show ?thesis
      by (simp add: absorb.simps [of n f v p] absorb.simps [of n f v "p @ q"])
  next
    case False
    then show ?thesis
      by (simp add: absorb.simps [of n f v p])
  qed
qed

end
