(* ===== verification/Stream_Hash.thy ===== *)
theory Stream_Hash
  imports Verif_Prelude
begin

text \<open>
  The contract of an incremental hash: a state is created, fed with chunks of the message
  and asked for a digest. \<open>rep k msg s\<close> says that state \<open>s\<close> was created with key or
  seed \<open>k\<close> and has absorbed \<open>msg\<close>; \<open>limit\<close> bounds the total message length for
  which the implementation's counters are exact. The client lemma is proved once: however
  the message is cut into chunks, the digest is that of the one-shot function.
\<close>

locale streaming_hash =
  fixes init :: "'k \<Rightarrow> 's"
    and update :: "'s \<Rightarrow> byte list \<Rightarrow> 's"
    and digest :: "'s \<Rightarrow> 'd"
    and oneshot :: "'k \<Rightarrow> byte list \<Rightarrow> 'd"
    and rep :: "'k \<Rightarrow> byte list \<Rightarrow> 's \<Rightarrow> bool"
    and limit :: nat
  assumes rep_init: "rep k [] (init k)"
    and rep_update:
      "rep k msg s \<Longrightarrow> length msg + length chunk < limit \<Longrightarrow> rep k (msg @ chunk) (update s chunk)"
    and rep_digest: "rep k msg s \<Longrightarrow> length msg < limit \<Longrightarrow> digest s = oneshot k msg"
begin

lemma rep_foldl:
  "rep k msg s \<Longrightarrow> length msg + length (concat chunks) < limit \<Longrightarrow>
     rep k (msg @ concat chunks) (foldl update s chunks)"
proof (induction chunks arbitrary: msg s)
  case Nil
  then show ?case by simp
next
  case (Cons c cs)
  have "rep k (msg @ c) (update s c)"
    using Cons.prems by (intro rep_update) auto
  then have "rep k ((msg @ c) @ concat cs) (foldl update (update s c) cs)"
    using Cons.prems by (intro Cons.IH) auto
  then show ?case by simp
qed

lemma digest_chunks:
  assumes "length (concat chunks) < limit"
  shows "digest (foldl update (init k) chunks) = oneshot k (concat chunks)"
proof -
  have "rep k ([] @ concat chunks) (foldl update (init k) chunks)"
    using assms by (intro rep_foldl rep_init) simp
  then show ?thesis
    using assms by (simp add: rep_digest)
qed

lemma digest_chunking_irrelevant:
  assumes "concat cs = concat ds" and "length (concat cs) < limit"
  shows "digest (foldl update (init k) cs) = digest (foldl update (init k) ds)"
  using assms digest_chunks by metis

end

end
