(* ===== verification/XXH32.thy ===== *)
theory XXH32
  imports Stream_Hash
begin

text \<open>
  The 32-bit xxHash of \<^verbatim>\<open>lz4/lib/xxhash.c\<close>: the one-shot function, the incremental
  interface and the endianness and alignment variants of its memory reads. A pointer
  \<open>p\<close> that walks to \<open>bEnd\<close> is the list of the bytes not yet read, so \<open>p + 4 <= bEnd\<close>
  is a test on its length. \<open>cpu\<close> is the byte order of the machine
  (\<^verbatim>\<open>XXH_CPU_LITTLE_ENDIAN\<close>). Shown here: the value does not depend on the machine's byte
  order or on alignment, the incremental interface computes the one-shot value for every
  way of cutting the input, and its 16-byte buffer never overflows.
\<close>

section \<open>Memory reads\<close>

datatype XXH_endianess = XXH_bigEndian | XXH_littleEndian

datatype XXH_alignment = XXH_aligned | XXH_unaligned

datatype XXH_errorcode = XXH_OK | XXH_ERROR

definition XXH_rotl32 :: "u32 \<Rightarrow> nat \<Rightarrow> u32" where
  "XXH_rotl32 x r = (push_bit r x OR drop_bit (32 - r) x)"

definition XXH_swap32 :: "u32 \<Rightarrow> u32" where
  "XXH_swap32 x =
     (push_bit 24 x AND 0xff000000) OR
     (push_bit 8 x AND 0x00ff0000) OR
     (drop_bit 8 x AND 0x0000ff00) OR
     (drop_bit 24 x AND 0x000000ff)"

definition XXH_read32 :: "XXH_endianess \<Rightarrow> byte list \<Rightarrow> u32" where
  "XXH_read32 cpu p =
     (case cpu of XXH_littleEndian \<Rightarrow> word_of_le (take 4 p) | XXH_bigEndian \<Rightarrow> word_of_be (take 4 p))"

definition XXH_readLE32_align ::
  "XXH_endianess \<Rightarrow> byte list \<Rightarrow> XXH_endianess \<Rightarrow> XXH_alignment \<Rightarrow> u32" where
  "XXH_readLE32_align cpu p endian align =
     (if align = XXH_unaligned then
        (if endian = XXH_littleEndian then XXH_read32 cpu p else XXH_swap32 (XXH_read32 cpu p))
      else
        (if endian = XXH_littleEndian then XXH_read32 cpu p else XXH_swap32 (XXH_read32 cpu p)))"

definition XXH_readLE32 :: "XXH_endianess \<Rightarrow> byte list \<Rightarrow> XXH_endianess \<Rightarrow> u32" where
  "XXH_readLE32 cpu p endian = XXH_readLE32_align cpu p endian XXH_unaligned"

definition PRIME32_1 :: u32 where "PRIME32_1 = 2654435761"
definition PRIME32_2 :: u32 where "PRIME32_2 = 2246822519"
definition PRIME32_3 :: u32 where "PRIME32_3 = 3266489917"
definition PRIME32_4 :: u32 where "PRIME32_4 = 668265263"
definition PRIME32_5 :: u32 where "PRIME32_5 = 374761393"

lemmas PRIME32_defs = PRIME32_1_def PRIME32_2_def PRIME32_3_def PRIME32_4_def PRIME32_5_def

section \<open>One-shot hash\<close>

type_synonym lanes32 = "u32 \<times> u32 \<times> u32 \<times> u32"

definition XXH32_round :: "u32 \<Rightarrow> u32 \<Rightarrow> u32" where
  "XXH32_round v x = XXH_rotl32 (v + x * PRIME32_2) 13 * PRIME32_1"

text \<open>One pass of the \<open>do ... while (p<=limit)\<close> body, with its reads through \<open>rd\<close>.\<close>

definition XXH32_stripe :: "(byte list \<Rightarrow> u32) \<Rightarrow> lanes32 \<Rightarrow> byte list \<Rightarrow> lanes32" where
  "XXH32_stripe rd v p =
     (case v of (v1, v2, v3, v4) \<Rightarrow>
       (XXH32_round v1 (rd p), XXH32_round v2 (rd (drop 4 p)),
        XXH32_round v3 (rd (drop 8 p)), XXH32_round v4 (rd (drop 12 p))))"

function XXH32_loop :: "(byte list \<Rightarrow> u32) \<Rightarrow> lanes32 \<Rightarrow> byte list \<Rightarrow> lanes32 \<times> byte list" where
  "XXH32_loop rd v p =
     (let v' = XXH32_stripe rd v p; p' = drop 16 p
      in if 16 \<le> length p' then XXH32_loop rd v' p' else (v', p'))"
  by pat_completeness auto
termination
  by (relation "measure (\<lambda>(rd, v, p). length p)") auto

declare XXH32_loop.simps [simp del]

function XXH32_tail4 :: "(byte list \<Rightarrow> u32) \<Rightarrow> u32 \<Rightarrow> byte list \<Rightarrow> u32 \<times> byte list" where
  "XXH32_tail4 rd h32 p =
     (if 4 \<le> length p
      then XXH32_tail4 rd (XXH_rotl32 (h32 + rd p * PRIME32_3) 17 * PRIME32_4) (drop 4 p)
      else (h32, p))"
  by pat_completeness auto
termination
  by (relation "measure (\<lambda>(rd, h, p). length p)") auto

declare XXH32_tail4.simps [simp del]

primrec XXH32_tail1 :: "byte list \<Rightarrow> u32 \<Rightarrow> u32" where
  "XXH32_tail1 [] h32 = h32"
| "XXH32_tail1 (b # p) h32 = XXH32_tail1 p (XXH_rotl32 (h32 + ucast b * PRIME32_5) 11 * PRIME32_1)"

definition XXH32_avalanche :: "u32 \<Rightarrow> u32" where
  "XXH32_avalanche h0 =
     (let h1 = h0 XOR drop_bit 15 h0; h2 = h1 * PRIME32_2;
          h3 = h2 XOR drop_bit 13 h2; h4 = h3 * PRIME32_3
      in h4 XOR drop_bit 16 h4)"

definition XXH32_seed_lanes :: "u32 \<Rightarrow> lanes32" where
  "XXH32_seed_lanes seed =
     (seed + PRIME32_1 + PRIME32_2, seed + PRIME32_2, seed + 0, seed - PRIME32_1)"

definition XXH32_merge :: "lanes32 \<Rightarrow> u32" where
  "XXH32_merge v =
     (case v of (v1, v2, v3, v4) \<Rightarrow>
       XXH_rotl32 v1 1 + XXH_rotl32 v2 7 + XXH_rotl32 v3 12 + XXH_rotl32 v4 18)"

definition XXH32_endian_align ::
  "XXH_endianess \<Rightarrow> byte list \<Rightarrow> u32 \<Rightarrow> XXH_endianess \<Rightarrow> XXH_alignment \<Rightarrow> u32" where
  "XXH32_endian_align cpu input seed endian align =
     (let rd = (\<lambda>p. XXH_readLE32_align cpu p endian align);
          len = length input;
          (h32, p) =
            (if 16 \<le> len
             then let (v, p) = XXH32_loop rd (XXH32_seed_lanes seed) input in (XXH32_merge v, p)
             else (seed + PRIME32_5, input));
          h32 = h32 + of_nat len;
          (h32, p) = XXH32_tail4 rd h32 p;
          h32 = XXH32_tail1 p h32
      in XXH32_avalanche h32)"

text \<open>\<open>input\<close> is the pointer's value, which only selects the aligned or unaligned variant.\<close>

definition XXH32 :: "XXH_endianess \<Rightarrow> u64 \<Rightarrow> byte list \<Rightarrow> u32 \<Rightarrow> u32" where
  "XXH32 cpu input bytes seed =
     (let endian_detected = cpu in
      if input AND 3 = 0 then
        (if endian_detected = XXH_littleEndian
         then XXH32_endian_align cpu bytes seed XXH_littleEndian XXH_aligned
         else XXH32_endian_align cpu bytes seed XXH_bigEndian XXH_aligned)
      else
        (if endian_detected = XXH_littleEndian
         then XXH32_endian_align cpu bytes seed XXH_littleEndian XXH_unaligned
         else XXH32_endian_align cpu bytes seed XXH_bigEndian XXH_unaligned))"

section \<open>Incremental hash\<close>

record XXH_istate32_t =
  total_len32 :: u64
  seed32 :: u32
  v1_32 :: u32
  v2_32 :: u32
  v3_32 :: u32
  v4_32 :: u32
  mem32 :: "byte list"
  memsize32 :: u32

definition lanes32_of :: "XXH_istate32_t \<Rightarrow> lanes32" where
  "lanes32_of s = (v1_32 s, v2_32 s, v3_32 s, v4_32 s)"

definition set_lanes32 :: "lanes32 \<Rightarrow> XXH_istate32_t \<Rightarrow> XXH_istate32_t" where
  "set_lanes32 v s = (case v of (a, b, c, d) \<Rightarrow> s\<lparr>v1_32 := a, v2_32 := b, v3_32 := c, v4_32 := d\<rparr>)"

definition XXH32_reset :: "XXH_istate32_t \<Rightarrow> u32 \<Rightarrow> XXH_istate32_t" where
  "XXH32_reset state sd =
     state\<lparr>seed32 := sd, v1_32 := sd + PRIME32_1 + PRIME32_2, v2_32 := sd + PRIME32_2, v3_32 := sd + 0,
           v4_32 := sd - PRIME32_1, total_len32 := 0, memsize32 := 0\<rparr>"

text \<open>
  The three stages of an update that does not fit the buffer: complete and process a
  partly filled buffer, process whole stripes of the input, keep the rest.
\<close>

definition XXH32_update_fill ::
  "(byte list \<Rightarrow> u32) \<Rightarrow> XXH_istate32_t \<Rightarrow> byte list \<Rightarrow> XXH_istate32_t \<times> byte list" where
  "XXH32_update_fill rd state input =
     (if memsize32 state \<noteq> 0 then
        let fill = unat (16 - memsize32 state);
            mem = overwrite (mem32 state) (unat (memsize32 state)) (take fill input);
            state = state\<lparr>mem32 := mem\<rparr>;
            state = set_lanes32 (XXH32_stripe rd (lanes32_of state) mem) state
        in (state\<lparr>memsize32 := 0\<rparr>, drop fill input)
      else (state, input))"

definition XXH32_update_bulk ::
  "(byte list \<Rightarrow> u32) \<Rightarrow> XXH_istate32_t \<Rightarrow> byte list \<Rightarrow> XXH_istate32_t \<times> byte list" where
  "XXH32_update_bulk rd state p =
     (if 16 \<le> length p
      then let (v, p) = XXH32_loop rd (lanes32_of state) p in (set_lanes32 v state, p)
      else (state, p))"

definition XXH32_update_rest :: "XXH_istate32_t \<Rightarrow> byte list \<Rightarrow> XXH_istate32_t" where
  "XXH32_update_rest state p =
     (if p \<noteq> []
      then state\<lparr>mem32 := overwrite (mem32 state) 0 p, memsize32 := of_nat (length p)\<rparr>
      else state)"

definition XXH32_update_endian ::
  "XXH_endianess \<Rightarrow> XXH_istate32_t \<Rightarrow> byte list \<Rightarrow> XXH_endianess \<Rightarrow> XXH_errorcode \<times> XXH_istate32_t" where
  "XXH32_update_endian cpu state input endian =
     (let rd = (\<lambda>p. XXH_readLE32 cpu p endian);
          len = (of_nat (length input) :: u64);
          state = state\<lparr>total_len32 := total_len32 state + len\<rparr>
      in if ucast (memsize32 state) + len < 16
         then (XXH_OK, state\<lparr>mem32 := overwrite (mem32 state) (unat (memsize32 state)) input,
                             memsize32 := memsize32 state + ucast len\<rparr>)
         else
           let (state, p) = XXH32_update_fill rd state input;
               (state, p) = XXH32_update_bulk rd state p
           in (XXH_OK, XXH32_update_rest state p))"

definition XXH32_update ::
  "XXH_endianess \<Rightarrow> XXH_istate32_t \<Rightarrow> byte list \<Rightarrow> XXH_errorcode \<times> XXH_istate32_t" where
  "XXH32_update cpu state input =
     (if cpu = XXH_littleEndian
      then XXH32_update_endian cpu state input XXH_littleEndian
      else XXH32_update_endian cpu state input XXH_bigEndian)"

definition XXH32_digest_endian :: "XXH_endianess \<Rightarrow> XXH_istate32_t \<Rightarrow> XXH_endianess \<Rightarrow> u32" where
  "XXH32_digest_endian cpu state endian =
     (let rd = (\<lambda>p. XXH_readLE32 cpu p endian);
          p = take (unat (memsize32 state)) (mem32 state);
          h32 = (if 16 \<le> total_len32 state then XXH32_merge (lanes32_of state) else seed32 state + PRIME32_5);
          h32 = h32 + ucast (total_len32 state);
          (h32, p) = XXH32_tail4 rd h32 p;
          h32 = XXH32_tail1 p h32
      in XXH32_avalanche h32)"

definition XXH32_digest :: "XXH_endianess \<Rightarrow> XXH_istate32_t \<Rightarrow> u32" where
  "XXH32_digest cpu state =
     (if cpu = XXH_littleEndian
      then XXH32_digest_endian cpu state XXH_littleEndian
      else XXH32_digest_endian cpu state XXH_bigEndian)"


section \<open>Byte order and alignment do not matter\<close>

definition le_read32 :: "byte list \<Rightarrow> u32" where
  "le_read32 p = word_of_le (take 4 p)"

lemma byte_masks32:
  "(0xff000000 :: u32) = push_bit 24 (mask 8)" "(0x00ff0000 :: u32) = push_bit 16 (mask 8)"
  "(0x0000ff00 :: u32) = push_bit 8 (mask 8)" "(0x000000ff :: u32) = mask 8"
  by (simp_all add: mask_eq_exp_minus_1)

lemma bit_XXH_swap32:
  assumes "k < 4" "r < 8"
  shows "bit (XXH_swap32 x) (8 * k + r) = bit x (8 * (3 - k) + r)"
proof -
  have "k = 0 \<or> k = 1 \<or> k = 2 \<or> k = 3"
    using assms(1) by arith
  then show ?thesis
    using assms(2) unfolding XXH_swap32_def byte_masks32
    by (elim disjE) (simp_all add: bit_simps)
qed

lemma XXH_swap32_be:
  assumes "length bs = 4"
  shows "XXH_swap32 (word_of_be bs) = word_of_le bs"
proof (rule bit_word_eqI)
  fix i assume "i < LENGTH(32)"
  define k r where "k = i div 8" and "r = i mod 8"
  have i: "i = 8 * k + r" "k < 4" "r < 8"
    using \<open>i < LENGTH(32)\<close> by (simp_all add: k_def r_def)
  moreover have "(8 * (3 - k) + r) div 8 = 3 - k" "(8 * (3 - k) + r) mod 8 = r"
    "(8 * k + r) div 8 = k" "(8 * k + r) mod 8 = r"
    using \<open>r < 8\<close> by simp_all
  ultimately show "bit (XXH_swap32 (word_of_be bs)) i = bit (word_of_le bs :: u32) i"
    using assms by (auto simp: bit_XXH_swap32 word_of_be_def bit_word_of_le rev_nth)
qed

lemma XXH_readLE32_native:
  assumes "4 \<le> length p"
  shows "XXH_readLE32_align cpu p cpu align = le_read32 p"
proof -
  have "length (take 4 p) = 4"
    using assms by simp
  then show ?thesis
    by (auto simp: XXH_readLE32_align_def XXH_read32_def le_read32_def XXH_swap32_be
        split: XXH_endianess.split)
qed

text \<open>The loops only read complete words, so any reader that is right on those will do.\<close>

definition reads32 :: "(byte list \<Rightarrow> u32) \<Rightarrow> bool" where
  "reads32 rd \<longleftrightarrow> (\<forall>p. 4 \<le> length p \<longrightarrow> rd p = le_read32 p)"

lemma reads32_native [simp]: "reads32 (\<lambda>p. XXH_readLE32_align cpu p cpu align)"
  by (simp add: reads32_def XXH_readLE32_native)

lemma le_read32_drop_take: "k + 4 \<le> n \<Longrightarrow> le_read32 (drop k (take n p)) = le_read32 (drop k p)"
  by (simp add: le_read32_def drop_take min_def)

lemma XXH32_stripe_take:
  assumes "reads32 rd" "16 \<le> length p"
  shows "XXH32_stripe rd v p = XXH32_stripe le_read32 v (take 16 p)"
proof -
  have rd: "rd (drop k p) = le_read32 (drop k (take 16 p))" if "k \<le> 12" for k
    using that assms by (simp add: le_read32_drop_take reads32_def)
  show ?thesis
    using rd [of 0] rd [of 4] rd [of 8] rd [of 12]
    by (cases v) (simp only: XXH32_stripe_def prod.case drop_0)
qed

lemma XXH32_loop_absorb:
  "reads32 rd \<Longrightarrow> 16 \<le> length p \<Longrightarrow>
     XXH32_loop rd v p = absorb 16 (XXH32_stripe le_read32) v p"
proof (induction rd v p rule: XXH32_loop.induct)
  case (1 rd v p)
  then show ?case
    by (simp add: XXH32_loop.simps [of rd v p] absorb.simps [of 16 _ v p]
        XXH32_stripe_take [of rd p] absorb_simps Let_def)
qed

lemma XXH32_tail4_le: "reads32 rd \<Longrightarrow> XXH32_tail4 rd h p = XXH32_tail4 le_read32 h p"
proof (induction rd h p rule: XXH32_tail4.induct)
  case (1 rd h p)
  then show ?case
    by (simp add: XXH32_tail4.simps [of _ h p] reads32_def)
qed


section \<open>Specification and correctness of the one-shot function\<close>

definition XXH32_finish :: "u32 \<Rightarrow> nat \<Rightarrow> lanes32 \<times> byte list \<Rightarrow> u32" where
  "XXH32_finish sd len vr =
     (let h = (if 16 \<le> len then XXH32_merge (fst vr) else sd + PRIME32_5) + of_nat len;
          (h, p) = XXH32_tail4 le_read32 h (snd vr)
      in XXH32_avalanche (XXH32_tail1 p h))"

definition XXH32_spec :: "u32 \<Rightarrow> byte list \<Rightarrow> u32" where
  "XXH32_spec sd msg =
     XXH32_finish sd (length msg) (absorb 16 (XXH32_stripe le_read32) (XXH32_seed_lanes sd) msg)"

lemma XXH32_endian_align_spec: "XXH32_endian_align cpu input sd cpu align = XXH32_spec sd input"
proof (cases "16 \<le> length input")
  case True
  then show ?thesis
    by (simp add: XXH32_endian_align_def XXH32_spec_def XXH32_finish_def XXH32_loop_absorb
        XXH32_tail4_le Let_def case_prod_beta)
next
  case False
  then show ?thesis
    by (simp add: XXH32_endian_align_def XXH32_spec_def XXH32_finish_def absorb_simps
        XXH32_tail4_le Let_def case_prod_beta)
qed

lemma XXH32_eq_spec: "XXH32 cpu ptr input sd = XXH32_spec sd input"
  by (cases cpu) (simp_all add: XXH32_def XXH32_endian_align_spec Let_def)

section \<open>Correctness of the incremental interface\<close>

text \<open>The state has absorbed \<open>msg\<close>: whole stripes are in the lanes, the rest in the buffer.\<close>

definition XXH32_rep :: "u32 \<Rightarrow> byte list \<Rightarrow> XXH_istate32_t \<Rightarrow> bool" where
  "XXH32_rep sd msg s \<longleftrightarrow>
     seed32 s = sd \<and> total_len32 s = of_nat (length msg) \<and> length (mem32 s) = 16 \<and>
     unat (memsize32 s) < 16 \<and>
     absorb 16 (XXH32_stripe le_read32) (XXH32_seed_lanes sd) msg =
       (lanes32_of s, take (unat (memsize32 s)) (mem32 s))"

lemma XXH32_rep_reset: "length (mem32 s) = 16 \<Longrightarrow> XXH32_rep sd [] (XXH32_reset s sd)"
  by (simp add: XXH32_rep_def XXH32_reset_def XXH32_seed_lanes_def lanes32_of_def absorb_simps)

lemma XXH32_rep_digest:
  assumes "XXH32_rep sd msg s" "length msg < 2 ^ 64"
  shows "XXH32_digest cpu s = XXH32_spec sd msg"
proof -
  have "16 \<le> total_len32 s \<longleftrightarrow> 16 \<le> length msg"
    using assms by (simp add: XXH32_rep_def word_le_nat_alt unat_of_nat)
  moreover have "(ucast (total_len32 s) :: u32) = of_nat (length msg)"
    using assms by (simp add: XXH32_rep_def ucast_of_nat)
  moreover have "XXH32_digest cpu s = XXH32_digest_endian cpu s cpu"
    by (cases cpu) (simp_all add: XXH32_digest_def)
  ultimately show ?thesis
    using assms
    by (simp add: XXH32_digest_endian_def XXH32_spec_def XXH32_finish_def XXH32_rep_def
        XXH_readLE32_def XXH32_tail4_le Let_def case_prod_beta)
qed


lemma set_lanes32_simps [simp]:
  "lanes32_of (set_lanes32 v s) = v" "set_lanes32 (lanes32_of s) s = s"
  "seed32 (set_lanes32 v s) = seed32 s" "total_len32 (set_lanes32 v s) = total_len32 s"
  "mem32 (set_lanes32 v s) = mem32 s" "memsize32 (set_lanes32 v s) = memsize32 s"
  by (cases v; simp add: set_lanes32_def lanes32_of_def)+

lemma lanes32_of_upd [simp]:
  "lanes32_of (s\<lparr>total_len32 := n\<rparr>) = lanes32_of s" "lanes32_of (s\<lparr>mem32 := b\<rparr>) = lanes32_of s"
  "lanes32_of (s\<lparr>memsize32 := k\<rparr>) = lanes32_of s"
  by (simp_all add: lanes32_of_def)

lemma XXH32_update_bulk_absorb:
  assumes "reads32 rd"
  shows "XXH32_update_bulk rd s p =
    (let A = absorb 16 (XXH32_stripe le_read32) (lanes32_of s) p in (set_lanes32 (fst A) s, snd A))"
  using assms
  by (simp add: XXH32_update_bulk_def XXH32_loop_absorb absorb_simps Let_def case_prod_beta)

lemma XXH32_small_test:
  assumes "unat m < 16" "unat m + n < 2 ^ 64"
  shows "(ucast (m :: u32) + of_nat n < (16 :: u64)) \<longleftrightarrow> unat m + n < 16"
proof -
  have "unat (ucast m + of_nat n :: u64) = unat m + n"
    using assms by (simp add: unat_word_ariths unat_of_nat unat_ucast_up)
  then show ?thesis by (simp add: word_less_nat_alt)
qed

lemma XXH32_update_fill_absorb:
  assumes "reads32 rd" "length (mem32 s) = 16" "unat (memsize32 s) < 16"
    "16 \<le> unat (memsize32 s) + length input"
    "XXH32_update_fill rd s input = (s', p)"
  shows "memsize32 s' = 0" "length (mem32 s') = 16" "seed32 s' = seed32 s"
    "total_len32 s' = total_len32 s"
    "absorb 16 (XXH32_stripe le_read32) (lanes32_of s)
        (take (unat (memsize32 s)) (mem32 s) @ input) =
     absorb 16 (XXH32_stripe le_read32) (lanes32_of s') p"
proof -
  let ?ms = "unat (memsize32 s)"
  let ?mem = "overwrite (mem32 s) ?ms (take (16 - ?ms) input)"
  have ms: "unat (16 - memsize32 s) = 16 - ?ms"
    using assms(3) by (simp add: unat_sub word_le_nat_alt)
  have len: "length ?mem = 16"
    using assms by simp
  have mem: "take ?ms (mem32 s) @ take (16 - ?ms) input = ?mem"
    using assms by (simp add: overwrite_def)
  have "absorb 16 (XXH32_stripe le_read32) (lanes32_of s) (take ?ms (mem32 s) @ input) =
      absorb 16 (XXH32_stripe le_read32) (lanes32_of s) (?mem @ drop (16 - ?ms) input)"
    by (simp flip: mem)
  also have "\<dots> = absorb 16 (XXH32_stripe le_read32) (XXH32_stripe le_read32 (lanes32_of s) ?mem)
      (drop (16 - ?ms) input)"
    using len by (intro absorb_block) simp_all
  finally have fill: "absorb 16 (XXH32_stripe le_read32) (lanes32_of s) (take ?ms (mem32 s) @ input) = \<dots>" .
  have st: "XXH32_stripe rd (lanes32_of s) ?mem = XXH32_stripe le_read32 (lanes32_of s) ?mem"
    using XXH32_stripe_take [OF assms(1), of ?mem] len by simp
  have "(s', p) = (if memsize32 s = 0 then (s, input) else
      ((set_lanes32 (XXH32_stripe rd (lanes32_of s) ?mem) (s\<lparr>mem32 := ?mem\<rparr>))\<lparr>memsize32 := 0\<rparr>,
       drop (16 - ?ms) input))"
    using assms(5) by (simp add: XXH32_update_fill_def Let_def ms split: if_splits)
  then show "memsize32 s' = 0" "length (mem32 s') = 16" "seed32 s' = seed32 s"
    "total_len32 s' = total_len32 s"
    "absorb 16 (XXH32_stripe le_read32) (lanes32_of s) (take ?ms (mem32 s) @ input) =
      absorb 16 (XXH32_stripe le_read32) (lanes32_of s') p"
    using assms(2) len fill st by (simp_all split: if_splits)
qed

lemma XXH32_rep_update:
  assumes rep: "XXH32_rep sd msg s" and len: "length msg + length chunk < 2 ^ 64"
  shows "fst (XXH32_update cpu s chunk) = XXH_OK"
    and "XXH32_rep sd (msg @ chunk) (snd (XXH32_update cpu s chunk))"
proof -
  let ?st = "XXH32_stripe le_read32" and ?ms = "unat (memsize32 s)"
  let ?rd = "\<lambda>p. XXH_readLE32 cpu p cpu"
  have rd: "reads32 ?rd" by (simp add: XXH_readLE32_def)
  have upd: "XXH32_update cpu s chunk = XXH32_update_endian cpu s chunk cpu"
    by (cases cpu) (simp_all add: XXH32_update_def)
  then show "fst (XXH32_update cpu s chunk) = XXH_OK"
    by (simp add: XXH32_update_endian_def Let_def case_prod_beta)
  have s: "seed32 s = sd" "total_len32 s = of_nat (length msg)" "length (mem32 s) = 16" "?ms < 16"
    and abs: "absorb 16 ?st (XXH32_seed_lanes sd) msg = (lanes32_of s, take ?ms (mem32 s))"
    using rep by (simp_all add: XXH32_rep_def)
  have "length (take ?ms (mem32 s)) = length msg mod 16"
    using absorb_rest_length [of 16 ?st "XXH32_seed_lanes sd" msg] by (simp add: abs)
  then have "?ms \<le> length msg"
    using s by simp
  then have small: "(ucast (memsize32 s) + of_nat (length chunk) < (16 :: u64)) \<longleftrightarrow> ?ms + length chunk < 16"
    using len s by (intro XXH32_small_test) auto
  have app: "absorb 16 ?st (XXH32_seed_lanes sd) (msg @ chunk) =
      absorb 16 ?st (lanes32_of s) (take ?ms (mem32 s) @ chunk)"
    using absorb_append [of 16 ?st "XXH32_seed_lanes sd" msg chunk] by (simp add: abs)
  show "XXH32_rep sd (msg @ chunk) (snd (XXH32_update cpu s chunk))"
  proof (cases "?ms + length chunk < 16")
    case True
    moreover have "unat (memsize32 s + of_nat (length chunk)) = ?ms + length chunk"
      using True by (simp add: unat_word_ariths unat_of_nat)
    ultimately show ?thesis
      using s by (simp add: upd XXH32_update_endian_def Let_def small XXH32_rep_def app absorb_simps
          ucast_of_nat)
  next
    case False
    define s0 where "s0 = s\<lparr>total_len32 := total_len32 s + of_nat (length chunk)\<rparr>"
    obtain s1 p1 where f: "XXH32_update_fill ?rd s0 chunk = (s1, p1)"
      by fastforce
    define A where "A = absorb 16 ?st (lanes32_of s1) p1"
    have res: "snd (XXH32_update cpu s chunk) = XXH32_update_rest (set_lanes32 (fst A) s1) (snd A)"
      using False f
      by (simp add: upd XXH32_update_endian_def Let_def small XXH32_update_bulk_absorb [OF rd]
          s0_def A_def case_prod_beta)
    note fill = XXH32_update_fill_absorb [OF rd _ _ _ f]
    have "absorb 16 ?st (XXH32_seed_lanes sd) (msg @ chunk) = A"
      using fill(5) s False app by (simp add: s0_def A_def)
    moreover have "length (snd A) < 16"
      by (simp add: A_def absorb_rest_short)
    moreover have "memsize32 s1 = 0" "length (mem32 s1) = 16" "seed32 s1 = sd"
      "total_len32 s1 = of_nat (length (msg @ chunk))"
      using fill(1-4) s False by (simp_all add: s0_def)
    ultimately show ?thesis
      by (auto simp: res XXH32_update_rest_def XXH32_rep_def unat_of_nat prod_eq_iff)
  qed
qed


section \<open>The contract, and the properties\<close>

definition XXH32_state0 :: XXH_istate32_t where
  "XXH32_state0 = \<lparr>total_len32 = 0, seed32 = 0, v1_32 = 0, v2_32 = 0, v3_32 = 0, v4_32 = 0,
     mem32 = replicate 16 0, memsize32 = 0\<rparr>"

interpretation xxh32: streaming_hash "XXH32_reset XXH32_state0" "\<lambda>s c. snd (XXH32_update cpu s c)"
    "XXH32_digest cpu" "\<lambda>sd msg. XXH32 cpu' ptr msg sd" XXH32_rep "2 ^ 64"
  for cpu cpu' ptr
proof (unfold_locales, goal_cases)
  case (1 k)
  show ?case by (rule XXH32_rep_reset) (simp add: XXH32_state0_def)
next
  case (2 k msg s chunk)
  then show ?case by (rule XXH32_rep_update(2))
next
  case (3 k msg s)
  then show ?case by (simp add: XXH32_rep_digest XXH32_eq_spec)
qed

text \<open>
  C21: hashing incrementally with \<open>XXH32_reset\<close>, any sequence of \<open>XXH32_update\<close> calls and
  \<open>XXH32_digest\<close> gives the value of the one-shot \<open>XXH32\<close> on the concatenated input, for
  every way of cutting the input, every previous content of the state memory, every pointer
  alignment, and whichever byte orders the two machines have.
\<close>

theorem XXH32_incremental:
  assumes "length (mem32 s0) = 16" and "length (concat chunks) < 2 ^ 64"
  shows "XXH32_digest cpu (foldl (\<lambda>s c. snd (XXH32_update cpu s c)) (XXH32_reset s0 sd) chunks) =
         XXH32 cpu' ptr (concat chunks) sd"
proof -
  have "XXH32_rep sd ([] @ concat chunks)
      (foldl (\<lambda>s c. snd (XXH32_update cpu s c)) (XXH32_reset s0 sd) chunks)"
    using assms by (intro xxh32.rep_foldl XXH32_rep_reset) simp_all
  then show ?thesis
    using assms(2) by (simp add: XXH32_rep_digest XXH32_eq_spec)
qed

theorem XXH32_incremental_witness:
  "XXH32_digest XXH_littleEndian
     (foldl (\<lambda>s c. snd (XXH32_update XXH_littleEndian s c)) (XXH32_reset XXH32_state0 7)
        [[1, 2, 3], [], [4, 5, 6, 7, 8, 9, 10, 11, 12, 13, 14, 15, 16, 17, 18]]) =
   XXH32 XXH_bigEndian 1 [1, 2, 3, 4, 5, 6, 7, 8, 9, 10, 11, 12, 13, 14, 15, 16, 17, 18] 7"
proof -
  have "length (mem32 XXH32_state0) = 16" by (simp add: XXH32_state0_def)
  from XXH32_incremental [OF this,
      of "[[1, 2, 3], [], [4, 5, 6, 7, 8, 9, 10, 11, 12, 13, 14, 15, 16, 17, 18]]"]
  show ?thesis by simp
qed

end
