(* ===== verification/XXH64.thy ===== *)
theory XXH64
  imports XXH32
begin

text \<open>
  The 64-bit xxHash of \<^verbatim>\<open>lz4/lib/xxhash.c\<close>, modelled and verified like the 32-bit one:
  the same independence of byte order and alignment, and the same equivalence of the
  incremental interface with the one-shot function.
\<close>

section \<open>Memory reads\<close>

definition XXH_rotl64 :: "u64 \<Rightarrow> nat \<Rightarrow> u64" where
  "XXH_rotl64 x r = (push_bit r x OR drop_bit (64 - r) x)"

definition XXH_swap64 :: "u64 \<Rightarrow> u64" where
  "XXH_swap64 x =
     (push_bit 56 x AND 0xff00000000000000) OR
     (push_bit 40 x AND 0x00ff000000000000) OR
     (push_bit 24 x AND 0x0000ff0000000000) OR
     (push_bit 8 x AND 0x000000ff00000000) OR
     (drop_bit 8 x AND 0x00000000ff000000) OR
     (drop_bit 24 x AND 0x0000000000ff0000) OR
     (drop_bit 40 x AND 0x000000000000ff00) OR
     (drop_bit 56 x AND 0x00000000000000ff)"

definition XXH_read64 :: "XXH_endianess \<Rightarrow> byte list \<Rightarrow> u64" where
  "XXH_read64 cpu p =
     (case cpu of XXH_littleEndian \<Rightarrow> word_of_le (take 8 p) | XXH_bigEndian \<Rightarrow> word_of_be (take 8 p))"

definition XXH_readLE64_align ::
  "XXH_endianess \<Rightarrow> byte list \<Rightarrow> XXH_endianess \<Rightarrow> XXH_alignment \<Rightarrow> u64" where
  "XXH_readLE64_align cpu p endian align =
     (if align = XXH_unaligned then
        (if endian = XXH_littleEndian then XXH_read64 cpu p else XXH_swap64 (XXH_read64 cpu p))
      else
        (if endian = XXH_littleEndian then XXH_read64 cpu p else XXH_swap64 (XXH_read64 cpu p)))"

definition XXH_readLE64 :: "XXH_endianess \<Rightarrow> byte list \<Rightarrow> XXH_endianess \<Rightarrow> u64" where
  "XXH_readLE64 cpu p endian = XXH_readLE64_align cpu p endian XXH_unaligned"

definition PRIME64_1 :: u64 where "PRIME64_1 = 11400714785074694791"
definition PRIME64_2 :: u64 where "PRIME64_2 = 14029467366897019727"
definition PRIME64_3 :: u64 where "PRIME64_3 = 1609587929392839161"
definition PRIME64_4 :: u64 where "PRIME64_4 = 9650029242287828579"
definition PRIME64_5 :: u64 where "PRIME64_5 = 2870177450012600261"

section \<open>One-shot hash\<close>

type_synonym lanes64 = "u64 \<times> u64 \<times> u64 \<times> u64"

definition XXH64_round :: "u64 \<Rightarrow> u64 \<Rightarrow> u64" where
  "XXH64_round v x = XXH_rotl64 (v + x * PRIME64_2) 31 * PRIME64_1"

definition XXH64_stripe :: "(byte list \<Rightarrow> u64) \<Rightarrow> lanes64 \<Rightarrow> byte list \<Rightarrow> lanes64" where
  "XXH64_stripe rd v p =
     (case v of (v1, v2, v3, v4) \<Rightarrow>
       (XXH64_round v1 (rd p), XXH64_round v2 (rd (drop 8 p)),
        XXH64_round v3 (rd (drop 16 p)), XXH64_round v4 (rd (drop 24 p))))"

function XXH64_loop :: "(byte list \<Rightarrow> u64) \<Rightarrow> lanes64 \<Rightarrow> byte list \<Rightarrow> lanes64 \<times> byte list" where
  "XXH64_loop rd v p =
     (let v' = XXH64_stripe rd v p; p' = drop 32 p
      in if 32 \<le> length p' then XXH64_loop rd v' p' else (v', p'))"
  by pat_completeness auto
termination
  by (relation "measure (\<lambda>(rd, v, p). length p)") auto

declare XXH64_loop.simps [simp del]

text \<open>One lane folded into the hash: the block repeated for \<open>v1\<close> to \<open>v4\<close>.\<close>

definition XXH64_mergeRound :: "u64 \<Rightarrow> u64 \<Rightarrow> u64" where
  "XXH64_mergeRound h64 v =
     (h64 XOR XXH_rotl64 (v * PRIME64_2) 31 * PRIME64_1) * PRIME64_1 + PRIME64_4"

definition XXH64_merge :: "lanes64 \<Rightarrow> u64" where
  "XXH64_merge v =
     (case v of (v1, v2, v3, v4) \<Rightarrow>
       let h64 = XXH_rotl64 v1 1 + XXH_rotl64 v2 7 + XXH_rotl64 v3 12 + XXH_rotl64 v4 18
       in XXH64_mergeRound (XXH64_mergeRound (XXH64_mergeRound (XXH64_mergeRound h64 v1) v2) v3) v4)"

function XXH64_tail8 :: "(byte list \<Rightarrow> u64) \<Rightarrow> u64 \<Rightarrow> byte list \<Rightarrow> u64 \<times> byte list" where
  "XXH64_tail8 rd h64 p =
     (if 8 \<le> length p
      then let k1 = XXH_rotl64 (rd p * PRIME64_2) 31 * PRIME64_1
           in XXH64_tail8 rd (XXH_rotl64 (h64 XOR k1) 27 * PRIME64_1 + PRIME64_4) (drop 8 p)
      else (h64, p))"
  by pat_completeness auto
termination
  by (relation "measure (\<lambda>(rd, h, p). length p)") auto

declare XXH64_tail8.simps [simp del]

definition XXH64_tail4 :: "(byte list \<Rightarrow> u32) \<Rightarrow> u64 \<Rightarrow> byte list \<Rightarrow> u64 \<times> byte list" where
  "XXH64_tail4 rd h64 p =
     (if 4 \<le> length p
      then (XXH_rotl64 (h64 XOR ucast (rd p) * PRIME64_1) 23 * PRIME64_2 + PRIME64_3, drop 4 p)
      else (h64, p))"

primrec XXH64_tail1 :: "byte list \<Rightarrow> u64 \<Rightarrow> u64" where
  "XXH64_tail1 [] h64 = h64"
| "XXH64_tail1 (b # p) h64 = XXH64_tail1 p (XXH_rotl64 (h64 XOR ucast b * PRIME64_5) 11 * PRIME64_1)"

definition XXH64_avalanche :: "u64 \<Rightarrow> u64" where
  "XXH64_avalanche h0 =
     (let h1 = h0 XOR drop_bit 33 h0; h2 = h1 * PRIME64_2;
          h3 = h2 XOR drop_bit 29 h2; h4 = h3 * PRIME64_3
      in h4 XOR drop_bit 32 h4)"

definition XXH64_seed_lanes :: "u64 \<Rightarrow> lanes64" where
  "XXH64_seed_lanes seed =
     (seed + PRIME64_1 + PRIME64_2, seed + PRIME64_2, seed + 0, seed - PRIME64_1)"

definition XXH64_endian_align ::
  "XXH_endianess \<Rightarrow> byte list \<Rightarrow> u64 \<Rightarrow> XXH_endianess \<Rightarrow> XXH_alignment \<Rightarrow> u64" where
  "XXH64_endian_align cpu input seed endian align =
     (let rd = (\<lambda>p. XXH_readLE64_align cpu p endian align);
          len = length input;
          (h64, p) =
            (if 32 \<le> len
             then let (v, p) = XXH64_loop rd (XXH64_seed_lanes seed) input in (XXH64_merge v, p)
             else (seed + PRIME64_5, input));
          h64 = h64 + of_nat len;
          (h64, p) = XXH64_tail8 rd h64 p;
          (h64, p) = XXH64_tail4 (\<lambda>p. XXH_readLE32_align cpu p endian align) h64 p;
          h64 = XXH64_tail1 p h64
      in XXH64_avalanche h64)"

definition XXH64 :: "XXH_endianess \<Rightarrow> u64 \<Rightarrow> byte list \<Rightarrow> u64 \<Rightarrow> u64" where
  "XXH64 cpu input bytes seed =
     (let endian_detected = cpu in
      if input AND 7 = 0 then
        (if endian_detected = XXH_littleEndian
         then XXH64_endian_align cpu bytes seed XXH_littleEndian XXH_aligned
         else XXH64_endian_align cpu bytes seed XXH_bigEndian XXH_aligned)
      else
        (if endian_detected = XXH_littleEndian
         then XXH64_endian_align cpu bytes seed XXH_littleEndian XXH_unaligned
         else XXH64_endian_align cpu bytes seed XXH_bigEndian XXH_unaligned))"

section \<open>Incremental hash\<close>

record XXH_istate64_t =
  total_len64 :: u64
  seed64 :: u64
  v1_64 :: u64
  v2_64 :: u64
  v3_64 :: u64
  v4_64 :: u64
  mem64 :: "byte list"
  memsize64 :: u32

definition lanes64_of :: "XXH_istate64_t \<Rightarrow> lanes64" where
  "lanes64_of s = (v1_64 s, v2_64 s, v3_64 s, v4_64 s)"

definition set_lanes64 :: "lanes64 \<Rightarrow> XXH_istate64_t \<Rightarrow> XXH_istate64_t" where
  "set_lanes64 v s = (case v of (a, b, c, d) \<Rightarrow> s\<lparr>v1_64 := a, v2_64 := b, v3_64 := c, v4_64 := d\<rparr>)"

definition XXH64_reset :: "XXH_istate64_t \<Rightarrow> u64 \<Rightarrow> XXH_istate64_t" where
  "XXH64_reset state sd =
     state\<lparr>seed64 := sd, v1_64 := sd + PRIME64_1 + PRIME64_2, v2_64 := sd + PRIME64_2, v3_64 := sd + 0,
           v4_64 := sd - PRIME64_1, total_len64 := 0, memsize64 := 0\<rparr>"

text \<open>
  The three stages of an update that does not fit the buffer: complete and process a
  partly filled buffer, process whole stripes of the input, keep the rest.
\<close>

definition XXH64_update_fill ::
  "(byte list \<Rightarrow> u64) \<Rightarrow> XXH_istate64_t \<Rightarrow> byte list \<Rightarrow> XXH_istate64_t \<times> byte list" where
  "XXH64_update_fill rd state input =
     (if memsize64 state \<noteq> 0 then
        let fill = unat (32 - memsize64 state);
            mem = overwrite (mem64 state) (unat (memsize64 state)) (take fill input);
            state = state\<lparr>mem64 := mem\<rparr>;
            state = set_lanes64 (XXH64_stripe rd (lanes64_of state) mem) state
        in (state\<lparr>memsize64 := 0\<rparr>, drop fill input)
      else (state, input))"

definition XXH64_update_bulk ::
  "(byte list \<Rightarrow> u64) \<Rightarrow> XXH_istate64_t \<Rightarrow> byte list \<Rightarrow> XXH_istate64_t \<times> byte list" where
  "XXH64_update_bulk rd state p =
     (if 32 \<le> length p
      then let (v, p) = XXH64_loop rd (lanes64_of state) p in (set_lanes64 v state, p)
      else (state, p))"

definition XXH64_update_rest :: "XXH_istate64_t \<Rightarrow> byte list \<Rightarrow> XXH_istate64_t" where
  "XXH64_update_rest state p =
     (if p \<noteq> []
      then state\<lparr>mem64 := overwrite (mem64 state) 0 p, memsize64 := of_nat (length p)\<rparr>
      else state)"

definition XXH64_update_endian ::
  "XXH_endianess \<Rightarrow> XXH_istate64_t \<Rightarrow> byte list \<Rightarrow> XXH_endianess \<Rightarrow> XXH_errorcode \<times> XXH_istate64_t" where
  "XXH64_update_endian cpu state input endian =
     (let rd = (\<lambda>p. XXH_readLE64 cpu p endian);
          len = (of_nat (length input) :: u64);
          state = state\<lparr>total_len64 := total_len64 state + len\<rparr>
      in if ucast (memsize64 state) + len < 32
         then (XXH_OK, state\<lparr>mem64 := overwrite (mem64 state) (unat (memsize64 state)) input,
                             memsize64 := memsize64 state + ucast len\<rparr>)
         else
           let (state, p) = XXH64_update_fill rd state input;
               (state, p) = XXH64_update_bulk rd state p
           in (XXH_OK, XXH64_update_rest state p))"

definition XXH64_update ::
  "XXH_endianess \<Rightarrow> XXH_istate64_t \<Rightarrow> byte list \<Rightarrow> XXH_errorcode \<times> XXH_istate64_t" where
  "XXH64_update cpu state input =
     (if cpu = XXH_littleEndian
      then XXH64_update_endian cpu state input XXH_littleEndian
      else XXH64_update_endian cpu state input XXH_bigEndian)"

definition XXH64_digest_endian :: "XXH_endianess \<Rightarrow> XXH_istate64_t \<Rightarrow> XXH_endianess \<Rightarrow> u64" where
  "XXH64_digest_endian cpu state endian =
     (let rd = (\<lambda>p. XXH_readLE64 cpu p endian);
          p = take (unat (memsize64 state)) (mem64 state);
          h64 = (if 32 \<le> total_len64 state then XXH64_merge (lanes64_of state) else seed64 state + PRIME64_5);
          h64 = h64 + total_len64 state;
          (h64, p) = XXH64_tail8 rd h64 p;
          (h64, p) = XXH64_tail4 (\<lambda>p. XXH_readLE32 cpu p endian) h64 p;
          h64 = XXH64_tail1 p h64
      in XXH64_avalanche h64)"

definition XXH64_digest :: "XXH_endianess \<Rightarrow> XXH_istate64_t \<Rightarrow> u64" where
  "XXH64_digest cpu state =
     (if cpu = XXH_littleEndian
      then XXH64_digest_endian cpu state XXH_littleEndian
      else XXH64_digest_endian cpu state XXH_bigEndian)"


section \<open>Byte order and alignment do not matter\<close>

definition le_read64 :: "byte list \<Rightarrow> u64" where
  "le_read64 p = word_of_le (take 8 p)"

lemma byte_masks64:
  "(0xff00000000000000 :: u64) = push_bit 56 (mask 8)" "(0x00ff000000000000 :: u64) = push_bit 48 (mask 8)"
  "(0x0000ff0000000000 :: u64) = push_bit 40 (mask 8)" "(0x000000ff00000000 :: u64) = push_bit 32 (mask 8)"
  "(0x00000000ff000000 :: u64) = push_bit 24 (mask 8)" "(0x0000000000ff0000 :: u64) = push_bit 16 (mask 8)"
  "(0x000000000000ff00 :: u64) = push_bit 8 (mask 8)" "(0x00000000000000ff :: u64) = mask 8"
  by (simp_all add: mask_eq_exp_minus_1)

lemma bit_XXH_swap64:
  assumes "k < 8" "r < 8"
  shows "bit (XXH_swap64 x) (8 * k + r) = bit x (8 * (7 - k) + r)"
proof -
  have "k = 0 \<or> k = 1 \<or> k = 2 \<or> k = 3 \<or> k = 4 \<or> k = 5 \<or> k = 6 \<or> k = 7"
    using assms(1) by arith
  then show ?thesis
    using assms(2) unfolding XXH_swap64_def byte_masks64
    by (elim disjE) (simp_all add: bit_simps)
qed

lemma XXH_swap64_be:
  assumes "length bs = 8"
  shows "XXH_swap64 (word_of_be bs) = word_of_le bs"
proof (rule bit_word_eqI)
  fix i assume "i < LENGTH(64)"
  define k r where "k = i div 8" and "r = i mod 8"
  have i: "i = 8 * k + r" "k < 8" "r < 8"
    using \<open>i < LENGTH(64)\<close> by (simp_all add: k_def r_def)
  moreover have "(8 * (7 - k) + r) div 8 = 7 - k" "(8 * (7 - k) + r) mod 8 = r"
    "(8 * k + r) div 8 = k" "(8 * k + r) mod 8 = r"
    using \<open>r < 8\<close> by simp_all
  ultimately show "bit (XXH_swap64 (word_of_be bs)) i = bit (word_of_le bs :: u64) i"
    using assms by (auto simp: bit_XXH_swap64 word_of_be_def bit_word_of_le rev_nth)
qed

lemma XXH_readLE64_native:
  assumes "8 \<le> length p"
  shows "XXH_readLE64_align cpu p cpu align = le_read64 p"
proof -
  have "length (take 8 p) = 8"
    using assms by simp
  then show ?thesis
    by (auto simp: XXH_readLE64_align_def XXH_read64_def le_read64_def XXH_swap64_be
        split: XXH_endianess.split)
qed

definition reads64 :: "(byte list \<Rightarrow> u64) \<Rightarrow> bool" where
  "reads64 rd \<longleftrightarrow> (\<forall>p. 8 \<le> length p \<longrightarrow> rd p = le_read64 p)"

lemma reads64_native [simp]: "reads64 (\<lambda>p. XXH_readLE64_align cpu p cpu align)"
  by (simp add: reads64_def XXH_readLE64_native)

lemma le_read64_drop_take: "k + 8 \<le> n \<Longrightarrow> le_read64 (drop k (take n p)) = le_read64 (drop k p)"
  by (simp add: le_read64_def drop_take min_def)

lemma XXH64_stripe_take:
  assumes "reads64 rd" "32 \<le> length p"
  shows "XXH64_stripe rd v p = XXH64_stripe le_read64 v (take 32 p)"
proof -
  have rd: "rd (drop k p) = le_read64 (drop k (take 32 p))" if "k \<le> 24" for k
    using that assms by (simp add: le_read64_drop_take reads64_def)
  show ?thesis
    using rd [of 0] rd [of 8] rd [of 16] rd [of 24]
    by (cases v) (simp only: XXH64_stripe_def prod.case drop_0)
qed

lemma XXH64_loop_absorb:
  "reads64 rd \<Longrightarrow> 32 \<le> length p \<Longrightarrow>
     XXH64_loop rd v p = absorb 32 (XXH64_stripe le_read64) v p"
proof (induction rd v p rule: XXH64_loop.induct)
  case (1 rd v p)
  then show ?case
    by (simp add: XXH64_loop.simps [of rd v p] absorb.simps [of 32 _ v p]
        XXH64_stripe_take [of rd p] absorb_simps Let_def)
qed

lemma XXH64_tail8_le: "reads64 rd \<Longrightarrow> XXH64_tail8 rd h p = XXH64_tail8 le_read64 h p"
proof (induction rd h p rule: XXH64_tail8.induct)
  case (1 rd h p)
  then show ?case
    by (simp add: XXH64_tail8.simps [of _ h p] reads64_def)
qed

lemma XXH64_tail4_le: "reads32 rd \<Longrightarrow> XXH64_tail4 rd h p = XXH64_tail4 le_read32 h p"
  by (simp add: XXH64_tail4_def reads32_def)

section \<open>Specification and correctness of the one-shot function\<close>

definition XXH64_finish :: "u64 \<Rightarrow> nat \<Rightarrow> lanes64 \<times> byte list \<Rightarrow> u64" where
  "XXH64_finish sd len vr =
     (let h = (if 32 \<le> len then XXH64_merge (fst vr) else sd + PRIME64_5) + of_nat len;
          (h, p) = XXH64_tail8 le_read64 h (snd vr);
          (h, p) = XXH64_tail4 le_read32 h p
      in XXH64_avalanche (XXH64_tail1 p h))"

definition XXH64_spec :: "u64 \<Rightarrow> byte list \<Rightarrow> u64" where
  "XXH64_spec sd msg =
     XXH64_finish sd (length msg) (absorb 32 (XXH64_stripe le_read64) (XXH64_seed_lanes sd) msg)"

lemma XXH64_endian_align_spec: "XXH64_endian_align cpu input sd cpu align = XXH64_spec sd input"
proof (cases "32 \<le> length input")
  case True
  then show ?thesis
    by (simp add: XXH64_endian_align_def XXH64_spec_def XXH64_finish_def XXH64_loop_absorb
        XXH64_tail8_le XXH64_tail4_le XXH_readLE32_def Let_def case_prod_beta)
next
  case False
  then show ?thesis
    by (simp add: XXH64_endian_align_def XXH64_spec_def XXH64_finish_def absorb_simps
        XXH64_tail8_le XXH64_tail4_le XXH_readLE32_def Let_def case_prod_beta)
qed

lemma XXH64_eq_spec: "XXH64 cpu ptr input sd = XXH64_spec sd input"
  by (cases cpu) (simp_all add: XXH64_def XXH64_endian_align_spec Let_def)

section \<open>Correctness of the incremental interface\<close>

text \<open>The state has absorbed \<open>msg\<close>: whole stripes are in the lanes, the rest in the buffer.\<close>

definition XXH64_rep :: "u64 \<Rightarrow> byte list \<Rightarrow> XXH_istate64_t \<Rightarrow> bool" where
  "XXH64_rep sd msg s \<longleftrightarrow>
     seed64 s = sd \<and> total_len64 s = of_nat (length msg) \<and> length (mem64 s) = 32 \<and>
     unat (memsize64 s) < 32 \<and>
     absorb 32 (XXH64_stripe le_read64) (XXH64_seed_lanes sd) msg =
       (lanes64_of s, take (unat (memsize64 s)) (mem64 s))"

lemma XXH64_rep_reset: "length (mem64 s) = 32 \<Longrightarrow> XXH64_rep sd [] (XXH64_reset s sd)"
  by (simp add: XXH64_rep_def XXH64_reset_def XXH64_seed_lanes_def lanes64_of_def absorb_simps)

lemma XXH64_rep_digest:
  assumes "XXH64_rep sd msg s" "length msg < 2 ^ 64"
  shows "XXH64_digest cpu s = XXH64_spec sd msg"
proof -
  have "32 \<le> total_len64 s \<longleftrightarrow> 32 \<le> length msg"
    using assms by (simp add: XXH64_rep_def word_le_nat_alt unat_of_nat)
  moreover have "total_len64 s = of_nat (length msg)"
    using assms by (simp add: XXH64_rep_def)
  moreover have "XXH64_digest cpu s = XXH64_digest_endian cpu s cpu"
    by (cases cpu) (simp_all add: XXH64_digest_def)
  ultimately show ?thesis
    using assms
    by (simp add: XXH64_digest_endian_def XXH64_spec_def XXH64_finish_def XXH64_rep_def
        XXH_readLE64_def XXH64_tail8_le XXH64_tail4_le XXH_readLE32_def Let_def case_prod_beta)
qed


lemma set_lanes64_simps [simp]:
  "lanes64_of (set_lanes64 v s) = v" "set_lanes64 (lanes64_of s) s = s"
  "seed64 (set_lanes64 v s) = seed64 s" "total_len64 (set_lanes64 v s) = total_len64 s"
  "mem64 (set_lanes64 v s) = mem64 s" "memsize64 (set_lanes64 v s) = memsize64 s"
  by (cases v; simp add: set_lanes64_def lanes64_of_def)+

lemma lanes64_of_upd [simp]:
  "lanes64_of (s\<lparr>total_len64 := n\<rparr>) = lanes64_of s" "lanes64_of (s\<lparr>mem64 := b\<rparr>) = lanes64_of s"
  "lanes64_of (s\<lparr>memsize64 := k\<rparr>) = lanes64_of s"
  by (simp_all add: lanes64_of_def)

lemma XXH64_update_bulk_absorb:
  assumes "reads64 rd"
  shows "XXH64_update_bulk rd s p =
    (let A = absorb 32 (XXH64_stripe le_read64) (lanes64_of s) p in (set_lanes64 (fst A) s, snd A))"
  using assms
  by (simp add: XXH64_update_bulk_def XXH64_loop_absorb absorb_simps Let_def case_prod_beta)

lemma XXH64_small_test:
  assumes "unat m < 32" "unat m + n < 2 ^ 64"
  shows "(ucast (m :: u32) + of_nat n < (32 :: u64)) \<longleftrightarrow> unat m + n < 32"
proof -
  have "unat (ucast m + of_nat n :: u64) = unat m + n"
    using assms by (simp add: unat_word_ariths unat_of_nat unat_ucast_up)
  then show ?thesis by (simp add: word_less_nat_alt)
qed

lemma XXH64_update_fill_absorb:
  assumes "reads64 rd" "length (mem64 s) = 32" "unat (memsize64 s) < 32"
    "32 \<le> unat (memsize64 s) + length input"
    "XXH64_update_fill rd s input = (s', p)"
  shows "memsize64 s' = 0" "length (mem64 s') = 32" "seed64 s' = seed64 s"
    "total_len64 s' = total_len64 s"
    "absorb 32 (XXH64_stripe le_read64) (lanes64_of s)
        (take (unat (memsize64 s)) (mem64 s) @ input) =
     absorb 32 (XXH64_stripe le_read64) (lanes64_of s') p"
proof -
  let ?ms = "unat (memsize64 s)"
  let ?mem = "overwrite (mem64 s) ?ms (take (32 - ?ms) input)"
  have ms: "unat (32 - memsize64 s) = 32 - ?ms"
    using assms(3) by (simp add: unat_sub word_le_nat_alt)
  have len: "length ?mem = 32"
    using assms by simp
  have mem: "take ?ms (mem64 s) @ take (32 - ?ms) input = ?mem"
    using assms by (simp add: overwrite_def)
  have "absorb 32 (XXH64_stripe le_read64) (lanes64_of s) (take ?ms (mem64 s) @ input) =
      absorb 32 (XXH64_stripe le_read64) (lanes64_of s) (?mem @ drop (32 - ?ms) input)"
    by (simp flip: mem)
  also have "\<dots> = absorb 32 (XXH64_stripe le_read64) (XXH64_stripe le_read64 (lanes64_of s) ?mem)
      (drop (32 - ?ms) input)"
    using len by (intro absorb_block) simp_all
  finally have fill: "absorb 32 (XXH64_stripe le_read64) (lanes64_of s) (take ?ms (mem64 s) @ input) = \<dots>" .
  have st: "XXH64_stripe rd (lanes64_of s) ?mem = XXH64_stripe le_read64 (lanes64_of s) ?mem"
    using XXH64_stripe_take [OF assms(1), of ?mem] len by simp
  have "(s', p) = (if memsize64 s = 0 then (s, input) else
      ((set_lanes64 (XXH64_stripe rd (lanes64_of s) ?mem) (s\<lparr>mem64 := ?mem\<rparr>))\<lparr>memsize64 := 0\<rparr>,
       drop (32 - ?ms) input))"
    using assms(5) by (simp add: XXH64_update_fill_def Let_def ms split: if_splits)
  then show "memsize64 s' = 0" "length (mem64 s') = 32" "seed64 s' = seed64 s"
    "total_len64 s' = total_len64 s"
    "absorb 32 (XXH64_stripe le_read64) (lanes64_of s) (take ?ms (mem64 s) @ input) =
      absorb 32 (XXH64_stripe le_read64) (lanes64_of s') p"
    using assms(2) len fill st by (simp_all split: if_splits)
qed

lemma XXH64_rep_update:
  assumes rep: "XXH64_rep sd msg s" and len: "length msg + length chunk < 2 ^ 64"
  shows "fst (XXH64_update cpu s chunk) = XXH_OK"
    and "XXH64_rep sd (msg @ chunk) (snd (XXH64_update cpu s chunk))"
proof -
  let ?st = "XXH64_stripe le_read64" and ?ms = "unat (memsize64 s)"
  let ?rd = "\<lambda>p. XXH_readLE64 cpu p cpu"
  have rd: "reads64 ?rd" by (simp add: XXH_readLE64_def)
  have upd: "XXH64_update cpu s chunk = XXH64_update_endian cpu s chunk cpu"
    by (cases cpu) (simp_all add: XXH64_update_def)
  then show "fst (XXH64_update cpu s chunk) = XXH_OK"
    by (simp add: XXH64_update_endian_def Let_def case_prod_beta)
  have s: "seed64 s = sd" "total_len64 s = of_nat (length msg)" "length (mem64 s) = 32" "?ms < 32"
    and abs: "absorb 32 ?st (XXH64_seed_lanes sd) msg = (lanes64_of s, take ?ms (mem64 s))"
    using rep by (simp_all add: XXH64_rep_def)
  have "length (take ?ms (mem64 s)) = length msg mod 32"
    using absorb_rest_length [of 32 ?st "XXH64_seed_lanes sd" msg] by (simp add: abs)
  then have "?ms \<le> length msg"
    using s by simp
  then have small: "(ucast (memsize64 s) + of_nat (length chunk) < (32 :: u64)) \<longleftrightarrow> ?ms + length chunk < 32"
    using len s by (intro XXH64_small_test) auto
  have app: "absorb 32 ?st (XXH64_seed_lanes sd) (msg @ chunk) =
      absorb 32 ?st (lanes64_of s) (take ?ms (mem64 s) @ chunk)"
    using absorb_append [of 32 ?st "XXH64_seed_lanes sd" msg chunk] by (simp add: abs)
  show "XXH64_rep sd (msg @ chunk) (snd (XXH64_update cpu s chunk))"
  proof (cases "?ms + length chunk < 32")
    case True
    moreover have "unat (memsize64 s + of_nat (length chunk)) = ?ms + length chunk"
      using True by (simp add: unat_word_ariths unat_of_nat)
    ultimately show ?thesis
      using s by (simp add: upd XXH64_update_endian_def Let_def small XXH64_rep_def app absorb_simps
          ucast_of_nat)
  next
    case False
    define s0 where "s0 = s\<lparr>total_len64 := total_len64 s + of_nat (length chunk)\<rparr>"
    obtain s1 p1 where f: "XXH64_update_fill ?rd s0 chunk = (s1, p1)"
      by fastforce
    define A where "A = absorb 32 ?st (lanes64_of s1) p1"
    have res: "snd (XXH64_update cpu s chunk) = XXH64_update_rest (set_lanes64 (fst A) s1) (snd A)"
      using False f
      by (simp add: upd XXH64_update_endian_def Let_def small XXH64_update_bulk_absorb [OF rd]
          s0_def A_def case_prod_beta)
    note fill = XXH64_update_fill_absorb [OF rd _ _ _ f]
    have "absorb 32 ?st (XXH64_seed_lanes sd) (msg @ chunk) = A"
      using fill(5) s False app by (simp add: s0_def A_def)
    moreover have "length (snd A) < 32"
      by (simp add: A_def absorb_rest_short)
    moreover have "memsize64 s1 = 0" "length (mem64 s1) = 32" "seed64 s1 = sd"
      "total_len64 s1 = of_nat (length (msg @ chunk))"
      using fill(1-4) s False by (simp_all add: s0_def)
    ultimately show ?thesis
      by (auto simp: res XXH64_update_rest_def XXH64_rep_def unat_of_nat prod_eq_iff)
  qed
qed


section \<open>The contract, and the properties\<close>

definition XXH64_state0 :: XXH_istate64_t where
  "XXH64_state0 = \<lparr>total_len64 = 0, seed64 = 0, v1_64 = 0, v2_64 = 0, v3_64 = 0, v4_64 = 0,
     mem64 = replicate 32 0, memsize64 = 0\<rparr>"

interpretation xxh64: streaming_hash "XXH64_reset XXH64_state0" "\<lambda>s c. snd (XXH64_update cpu s c)"
    "XXH64_digest cpu" "\<lambda>sd msg. XXH64 cpu' ptr msg sd" XXH64_rep "2 ^ 64"
  for cpu cpu' ptr
proof (unfold_locales, goal_cases)
  case (1 k)
  show ?case by (rule XXH64_rep_reset) (simp add: XXH64_state0_def)
next
  case (2 k msg s chunk)
  then show ?case by (rule XXH64_rep_update(2))
next
  case (3 k msg s)
  then show ?case by (simp add: XXH64_rep_digest XXH64_eq_spec)
qed

text \<open>
  C22: the 64-bit incremental hash gives the value of the one-shot \<open>XXH64\<close> on the
  concatenated input, for every way of cutting the input, every previous content of the
  state memory, every alignment and every byte order.
\<close>

theorem XXH64_incremental:
  assumes "length (mem64 s0) = 32" and "length (concat chunks) < 2 ^ 64"
  shows "XXH64_digest cpu (foldl (\<lambda>s c. snd (XXH64_update cpu s c)) (XXH64_reset s0 sd) chunks) =
         XXH64 cpu' ptr (concat chunks) sd"
proof -
  have "XXH64_rep sd ([] @ concat chunks)
      (foldl (\<lambda>s c. snd (XXH64_update cpu s c)) (XXH64_reset s0 sd) chunks)"
    using assms by (intro xxh64.rep_foldl XXH64_rep_reset) simp_all
  then show ?thesis
    using assms(2) by (simp add: XXH64_rep_digest XXH64_eq_spec)
qed

theorem XXH64_incremental_witness:
  "XXH64_digest XXH_bigEndian
     (foldl (\<lambda>s c. snd (XXH64_update XXH_bigEndian s c)) (XXH64_reset XXH64_state0 7)
        [[1, 2, 3], [], [4, 5, 6, 7, 8, 9, 10, 11, 12, 13, 14, 15, 16, 17, 18]]) =
   XXH64 XXH_littleEndian 1 [1, 2, 3, 4, 5, 6, 7, 8, 9, 10, 11, 12, 13, 14, 15, 16, 17, 18] 7"
proof -
  have "length (mem64 XXH64_state0) = 32" by (simp add: XXH64_state0_def)
  from XXH64_incremental [OF this,
      of "[[1, 2, 3], [], [4, 5, 6, 7, 8, 9, 10, 11, 12, 13, 14, 15, 16, 17, 18]]"]
  show ?thesis by simp
qed

end
