(* ===== verification/C_Memory.thy ===== *)
theory C_Memory
  imports Verif_Prelude
begin

text \<open>
  The memory the C code works on: a partial map from addresses to bytes. An address with
  no byte is not accessible; reading or writing it is a fault, the result \<open>None\<close>. Loops
  are defined with \<^theory_text>\<open>partial_function (option)\<close>, so \<open>None\<close> also stands for a loop
  that does not end: a proof that an operation yields \<open>Some\<close> shows at once that it
  terminates and that every access it makes is to accessible memory.
\<close>

type_synonym addr = int
type_synonym mem = "addr \<Rightarrow> byte option"

named_theorems mem_simps

section \<open>Access\<close>

definition store :: "mem \<Rightarrow> addr \<Rightarrow> byte \<Rightarrow> mem option" where
  "store m a b = (if m a = None then None else Some (m(a \<mapsto> b)))"

fun load_bytes :: "mem \<Rightarrow> addr \<Rightarrow> nat \<Rightarrow> byte list option" where
  "load_bytes m a 0 = Some []"
| "load_bytes m a (Suc n) = do { b \<leftarrow> m a; bs \<leftarrow> load_bytes m (a + 1) n; Some (b # bs) }"

fun store_bytes :: "mem \<Rightarrow> addr \<Rightarrow> byte list \<Rightarrow> mem option" where
  "store_bytes m a [] = Some m"
| "store_bytes m a (b # bs) = do { m' \<leftarrow> store m a b; store_bytes m' (a + 1) bs }"

text \<open>
  \<open>memcpy\<close> and \<open>memmove\<close>: all bytes are read before the first is written, which for
  \<open>memcpy\<close> is what the fixed-size copies of the sources compile to.
\<close>

definition memmove :: "mem \<Rightarrow> addr \<Rightarrow> addr \<Rightarrow> int \<Rightarrow> mem option" where
  "memmove m d s n = do { bs \<leftarrow> load_bytes m s (nat n); store_bytes m d bs }"

abbreviation memcpy :: "mem \<Rightarrow> addr \<Rightarrow> addr \<Rightarrow> int \<Rightarrow> mem option" where
  "memcpy \<equiv> memmove"

section \<open>Accessible ranges and their contents\<close>

definition mapped :: "mem \<Rightarrow> addr \<Rightarrow> addr \<Rightarrow> bool" where
  "mapped m lo hi \<longleftrightarrow> (\<forall>i. lo \<le> i \<and> i < hi \<longrightarrow> m i \<noteq> None)"

fun bytes_at :: "mem \<Rightarrow> addr \<Rightarrow> byte list \<Rightarrow> bool" where
  "bytes_at m a [] = True"
| "bytes_at m a (b # bs) = (m a = Some b \<and> bytes_at m (a + 1) bs)"

definition same_outside :: "mem \<Rightarrow> mem \<Rightarrow> addr \<Rightarrow> addr \<Rightarrow> bool" where
  "same_outside m m' lo hi \<longleftrightarrow> (\<forall>i. i < lo \<or> hi \<le> i \<longrightarrow> m' i = m i)"

definition same_dom :: "mem \<Rightarrow> mem \<Rightarrow> bool" where
  "same_dom m m' \<longleftrightarrow> (\<forall>i. m' i = None \<longleftrightarrow> m i = None)"

definition copied :: "mem \<Rightarrow> addr \<Rightarrow> addr \<Rightarrow> int \<Rightarrow> mem" where
  "copied m d s n = (\<lambda>i. if d \<le> i \<and> i < d + n then m (i - (d - s)) else m i)"

definition written :: "mem \<Rightarrow> addr \<Rightarrow> byte list \<Rightarrow> mem" where
  "written m a bs = (\<lambda>i. if a \<le> i \<and> i < a + int (length bs) then Some (bs ! nat (i - a)) else m i)"

lemma mappedD [dest]: "mapped m lo hi \<Longrightarrow> lo \<le> i \<Longrightarrow> i < hi \<Longrightarrow> \<exists>b. m i = Some b"
  by (auto simp: mapped_def)

lemma mapped_subset: "mapped m lo hi \<Longrightarrow> lo \<le> lo' \<Longrightarrow> hi' \<le> hi \<Longrightarrow> mapped m lo' hi'"
  by (auto simp: mapped_def)

lemma mapped_union: "mapped m lo mid \<Longrightarrow> mapped m mid hi \<Longrightarrow> mapped m lo hi"
  unfolding mapped_def by (meson not_le)

lemma mapped_same_dom: "same_dom m m' \<Longrightarrow> mapped m' lo hi = mapped m lo hi"
  by (simp add: mapped_def same_dom_def)

lemma mapped_dom: "mapped m lo hi \<Longrightarrow> same_dom m m' \<Longrightarrow> mapped m' lo hi"
  by (simp add: mapped_same_dom)

lemma same_dom_refl [simp]: "same_dom m m"
  by (simp add: same_dom_def)

lemma same_dom_trans: "same_dom a b \<Longrightarrow> same_dom b c \<Longrightarrow> same_dom a c"
  by (simp add: same_dom_def)

lemma same_outside_refl [simp]: "same_outside m m lo hi"
  by (simp add: same_outside_def)

lemma same_outside_trans:
  "same_outside a b lo hi \<Longrightarrow> same_outside b c lo hi \<Longrightarrow> same_outside a c lo hi"
  by (simp add: same_outside_def)

lemma same_outside_sym: "same_outside m m' lo hi \<Longrightarrow> same_outside m' m lo hi"
  by (simp add: same_outside_def)

lemma same_outside_mono:
  "same_outside a b lo hi \<Longrightarrow> lo' \<le> lo \<Longrightarrow> hi \<le> hi' \<Longrightarrow> same_outside a b lo' hi'"
  by (auto simp: same_outside_def)

lemma same_outside_union:
  "same_outside a b lo hi \<Longrightarrow> same_outside b c lo' hi' \<Longrightarrow> l \<le> lo \<Longrightarrow> l \<le> lo' \<Longrightarrow> hi \<le> h \<Longrightarrow> hi' \<le> h \<Longrightarrow>
     same_outside a c l h"
  by (auto simp: same_outside_def)

lemma same_outsideD: "same_outside m m' lo hi \<Longrightarrow> i < lo \<or> hi \<le> i \<Longrightarrow> m' i = m i"
  by (auto simp: same_outside_def)

lemma bytes_at_iff:
  "bytes_at m a bs \<longleftrightarrow> (\<forall>i. a \<le> i \<and> i < a + int (length bs) \<longrightarrow> m i = Some (bs ! nat (i - a)))"
proof (induction bs arbitrary: a)
  case Nil
  then show ?case by auto
next
  case (Cons b bs)
  have "(\<forall>i. a \<le> i \<and> i < a + int (length (b # bs)) \<longrightarrow> m i = Some ((b # bs) ! nat (i - a))) \<longleftrightarrow>
      m a = Some b \<and>
      (\<forall>i. a + 1 \<le> i \<and> i < a + 1 + int (length bs) \<longrightarrow> m i = Some ((b # bs) ! nat (i - a)))"
    (is "?L \<longleftrightarrow> ?R")
  proof
    assume ?L
    from spec [OF this, of a] \<open>?L\<close> show ?R by auto
  next
    assume R: ?R
    show ?L
    proof (intro allI impI)
      fix i assume "a \<le> i \<and> i < a + int (length (b # bs))"
      then show "m i = Some ((b # bs) ! nat (i - a))"
        using R by (cases "i = a") auto
    qed
  qed
  moreover have "(b # bs) ! nat (i - a) = bs ! nat (i - (a + 1))" if "a + 1 \<le> i" for i
  proof -
    have "nat (i - a) = Suc (nat (i - (a + 1)))" using that by simp
    then show ?thesis by simp
  qed
  ultimately show ?case
    using Cons.IH [of "a + 1"] by auto
qed

lemma bytes_at_natI:
  assumes "\<And>k. k < length bs \<Longrightarrow> m (a + int k) = Some (bs ! k)"
  shows "bytes_at m a bs"
  unfolding bytes_at_iff
proof (intro allI impI)
  fix i assume "a \<le> i \<and> i < a + int (length bs)"
  then show "m i = Some (bs ! nat (i - a))" using assms [of "nat (i - a)"] by auto
qed

lemma bytes_at_natD: "bytes_at m a bs \<Longrightarrow> k < length bs \<Longrightarrow> m (a + int k) = Some (bs ! k)"
  by (simp add: bytes_at_iff)

lemma bytes_at_append:
  "bytes_at m a (xs @ ys) \<longleftrightarrow> bytes_at m a xs \<and> bytes_at m (a + int (length xs)) ys"
  by (induction xs arbitrary: a) (auto simp: algebra_simps)

lemma bytes_at_unique: "bytes_at m a xs \<Longrightarrow> bytes_at m a ys \<Longrightarrow> length xs = length ys \<Longrightarrow> xs = ys"
  by (intro nth_equalityI) (simp, metis bytes_at_natD option.inject)

lemma bytes_at_mapped: "bytes_at m a bs \<Longrightarrow> mapped m a (a + int (length bs))"
  by (auto simp: bytes_at_iff mapped_def)

lemma bytes_at_same:
  "bytes_at m a bs \<Longrightarrow> same_outside m m' lo hi \<Longrightarrow> a + int (length bs) \<le> lo \<or> hi \<le> a \<Longrightarrow>
     bytes_at m' a bs"
  by (auto simp: bytes_at_iff same_outside_def)

section \<open>What the accesses do on accessible ranges\<close>

lemma load_bytes_bytes_at: "load_bytes m a n = Some bs \<longleftrightarrow> length bs = n \<and> bytes_at m a bs"
proof (induction n arbitrary: a bs)
  case 0
  then show ?case by auto
next
  case (Suc n)
  then show ?case
    by (cases bs) (auto simp: bind_eq_Some_conv)
qed

lemma load_bytes_mapped:
  "mapped m a (a + int n) \<Longrightarrow> \<exists>bs. load_bytes m a n = Some bs"
proof (induction n arbitrary: a)
  case 0
  then show ?case by simp
next
  case (Suc n)
  then have "\<exists>b. m a = Some b" and "mapped m (a + 1) (a + 1 + int n)"
    by (auto simp: mapped_def)
  then show ?case
    using Suc.IH [of "a + 1"] by auto
qed

lemma store_bytes_mapped:
  "mapped m a (a + int (length bs)) \<Longrightarrow> store_bytes m a bs = Some (written m a bs)"
proof (induction bs arbitrary: m a)
  case Nil
  then show ?case by (auto simp: written_def fun_eq_iff)
next
  case (Cons b bs)
  have ok: "m a \<noteq> None" and "mapped (m(a \<mapsto> b)) (a + 1) (a + 1 + int (length bs))"
    using Cons.prems by (auto simp: mapped_def)
  then have "store_bytes (m(a \<mapsto> b)) (a + 1) bs = Some (written (m(a \<mapsto> b)) (a + 1) bs)"
    by (intro Cons.IH)
  moreover have "written (m(a \<mapsto> b)) (a + 1) bs = written m a (b # bs)"
  proof
    fix i
    have "nat (i - a) = Suc (nat (i - (a + 1)))" if "a + 1 \<le> i"
      using that by simp
    then show "written (m(a \<mapsto> b)) (a + 1) bs i = written m a (b # bs) i"
      by (cases "i = a") (auto simp: written_def)
  qed
  ultimately show ?case
    using ok by (auto simp: store_def)
qed

lemma memmove_mapped [mem_simps]:
  assumes "0 \<le> n" "mapped m s (s + n)" "mapped m d (d + n)"
  shows "memmove m d s n = Some (copied m d s n)"
proof -
  obtain bs where bs: "load_bytes m s (nat n) = Some bs"
    using load_bytes_mapped [of m s "nat n"] assms by auto
  then have len: "int (length bs) = n" and at: "bytes_at m s bs"
    using assms(1) by (auto simp: load_bytes_bytes_at)
  have "written m d bs = copied m d s n"
  proof
    fix i
    have "m (i - (d - s)) = Some (bs ! nat (i - d))" if "d \<le> i" "i < d + n"
    proof -
      have "i - (d - s) - s = i - d" by simp
      then show ?thesis
        using at that len by (simp add: bytes_at_iff)
    qed
    then show "written m d bs i = copied m d s n i"
      by (simp add: written_def copied_def len)
  qed
  then show ?thesis
    using bs len assms(3) by (simp add: memmove_def store_bytes_mapped)
qed

lemma bytes_at_written [simp]: "bytes_at (written m a bs) a bs"
  by (simp add: bytes_at_iff written_def)

lemma mapped_written [simp]: "n \<le> int (length bs) \<Longrightarrow> mapped (written m a bs) a (a + n)"
  by (auto simp: mapped_def written_def)

lemma same_outside_written: "same_outside m (written m a bs) a (a + int (length bs))"
  by (auto simp: same_outside_def written_def)

lemma same_dom_written: "mapped m a (a + int (length bs)) \<Longrightarrow> same_dom m (written m a bs)"
  by (auto simp: same_dom_def written_def mapped_def)

lemma same_outside_copied: "same_outside m (copied m d s n) d (d + n)"
  by (auto simp: same_outside_def copied_def)

lemma same_dom_copied:
  assumes "mapped m s (s + n)" "mapped m d (d + n)"
  shows "same_dom m (copied m d s n)"
proof -
  have "m (i - (d - s)) \<noteq> None" "m i \<noteq> None" if "d \<le> i" "i < d + n" for i
    using assms that by (simp_all add: mapped_def)
  then show ?thesis
    by (simp add: same_dom_def copied_def del: not_None_eq)
qed

lemma bytes_at_copied:
  assumes "bytes_at m s bs" "n = int (length bs)"
  shows "bytes_at (copied m d s n) d bs"
proof -
  have "m (i - (d - s)) = Some (bs ! nat (i - d))" if "d \<le> i" "i < d + n" for i
  proof -
    have "i - (d - s) - s = i - d" by simp
    then show ?thesis
      using assms that by (simp add: bytes_at_iff)
  qed
  then show ?thesis
    using assms(2) by (simp add: bytes_at_iff copied_def)
qed

lemma store_mapped: "m a \<noteq> None \<Longrightarrow> store m a b = Some (m(a \<mapsto> b))"
  by (simp add: store_def)

end
