(* ===== verification/LZ4_Common.thy ===== *)
theory LZ4_Common
  imports C_Memory
begin

text \<open>
  The part of \<^verbatim>\<open>lz4/lib/lz4.c\<close> shared by the compressors and the decompressor (the code
  above \<^verbatim>\<open>LZ4_COMMONDEFS_ONLY\<close>): constants, unaligned reads and writes, the over-writing
  copy \<open>LZ4_wildCopy\<close>, and the match length counter \<open>LZ4_count\<close>. The model is of a
  64-bit little-endian target. Shown here: what the copies do to memory, with overlap
  included; that \<open>LZ4_count\<close> returns exactly the length of the common prefix.
\<close>

section \<open>Constants\<close>

definition LZ4_64bits :: bool where "LZ4_64bits = True"
definition LZ4_isLittleEndian :: bool where "LZ4_isLittleEndian = True"

abbreviation (input) STEPSIZE :: int where "STEPSIZE \<equiv> 8"
abbreviation (input) MINMATCH :: int where "MINMATCH \<equiv> 4"
abbreviation (input) COPYLENGTH :: int where "COPYLENGTH \<equiv> 8"
abbreviation (input) LASTLITERALS :: int where "LASTLITERALS \<equiv> 5"
abbreviation (input) MFLIMIT :: int where "MFLIMIT \<equiv> 12"
abbreviation (input) LZ4_minLength :: int where "LZ4_minLength \<equiv> 13"
abbreviation (input) KB64 :: int where "KB64 \<equiv> 65536"
abbreviation (input) MAX_DISTANCE :: int where "MAX_DISTANCE \<equiv> 65535"
abbreviation (input) ML_BITS :: nat where "ML_BITS \<equiv> 4"
abbreviation (input) ML_MASK :: int where "ML_MASK \<equiv> 15"
abbreviation (input) RUN_BITS :: nat where "RUN_BITS \<equiv> 4"
abbreviation (input) RUN_MASK :: int where "RUN_MASK \<equiv> 15"

text \<open>Conversions to integer types of the given width; \<open>int\<close> is 32 bits and signed.\<close>

abbreviation (input) cast_u16 :: "int \<Rightarrow> int" where "cast_u16 x \<equiv> x mod 2 ^ 16"
abbreviation (input) cast_u32 :: "int \<Rightarrow> int" where "cast_u32 x \<equiv> x mod 2 ^ 32"
abbreviation (input) cast_u64 :: "int \<Rightarrow> int" where "cast_u64 x \<equiv> x mod 2 ^ 64"
abbreviation (input) cast_int :: "int \<Rightarrow> int" where "cast_int x \<equiv> (x + 2 ^ 31) mod 2 ^ 32 - 2 ^ 31"
abbreviation (input) cast_byte :: "int \<Rightarrow> byte" where "cast_byte x \<equiv> word_of_int x"

section \<open>Reading and writing\<close>

definition LZ4_read16 :: "mem \<Rightarrow> addr \<Rightarrow> u16 option" where
  "LZ4_read16 m p = map_option word_of_le (load_bytes m p 2)"

definition LZ4_readLE16 :: "mem \<Rightarrow> addr \<Rightarrow> u16 option" where
  "LZ4_readLE16 m p =
     (if LZ4_isLittleEndian then LZ4_read16 m p
      else do { p0 \<leftarrow> m p; p1 \<leftarrow> m (p + 1); Some (ucast p0 + push_bit 8 (ucast p1)) })"

definition LZ4_writeLE16 :: "mem \<Rightarrow> addr \<Rightarrow> u16 \<Rightarrow> mem option" where
  "LZ4_writeLE16 m p val =
     (if LZ4_isLittleEndian then store_bytes m p (le_bytes 2 val)
      else do { m \<leftarrow> store m p (ucast val); store m (p + 1) (ucast (drop_bit 8 val)) })"

definition LZ4_read32 :: "mem \<Rightarrow> addr \<Rightarrow> u32 option" where
  "LZ4_read32 m p = map_option word_of_le (load_bytes m p 4)"

definition LZ4_read64 :: "mem \<Rightarrow> addr \<Rightarrow> u64 option" where
  "LZ4_read64 m p = map_option word_of_le (load_bytes m p 8)"

definition LZ4_read_ARCH :: "mem \<Rightarrow> addr \<Rightarrow> u64 option" where
  "LZ4_read_ARCH m p =
     (if LZ4_64bits then LZ4_read64 m p else map_option ucast (LZ4_read32 m p))"

definition LZ4_copy4 :: "mem \<Rightarrow> addr \<Rightarrow> addr \<Rightarrow> mem option" where
  "LZ4_copy4 m d s = memcpy m d s 4"

definition LZ4_copy8 :: "mem \<Rightarrow> addr \<Rightarrow> addr \<Rightarrow> mem option" where
  "LZ4_copy8 m d s = memcpy m d s 8"

partial_function (option) LZ4_wildCopy :: "mem \<Rightarrow> addr \<Rightarrow> addr \<Rightarrow> addr \<Rightarrow> mem option" where
  "LZ4_wildCopy m d s e =
     do { m' \<leftarrow> LZ4_copy8 m d s;
          if d + 8 < e then LZ4_wildCopy m' (d + 8) (s + 8) e else Some m' }"

text \<open>The byte loop \<open>while (d < e) *d++ = *s++\<close>.\<close>

partial_function (option) LZ4_byteCopy :: "mem \<Rightarrow> addr \<Rightarrow> addr \<Rightarrow> addr \<Rightarrow> mem option" where
  "LZ4_byteCopy m d s e =
     (if d < e
      then do { b \<leftarrow> m s; m' \<leftarrow> store m d b; LZ4_byteCopy m' (d + 1) (s + 1) e }
      else Some m)"

section \<open>Common bytes\<close>

text \<open>\<open>__builtin_ctzll\<close>: the number of trailing zero bits of a non-zero argument.\<close>

primrec ctz_upto :: "nat \<Rightarrow> u64 \<Rightarrow> nat" where
  "ctz_upto 0 w = 0"
| "ctz_upto (Suc n) w = (if bit w 0 then 0 else Suc (ctz_upto n (drop_bit 1 w)))"

definition builtin_ctzll :: "u64 \<Rightarrow> nat" where
  "builtin_ctzll w = ctz_upto 64 w"

definition LZ4_NbCommonBytes :: "u64 \<Rightarrow> nat" where
  "LZ4_NbCommonBytes val = drop_bit 3 (builtin_ctzll val)"

definition DeBruijnBytePos :: "nat list" where
  "DeBruijnBytePos =
     [0, 0, 0, 0, 0, 1, 1, 2, 0, 3, 1, 3, 1, 4, 2, 7, 0, 2, 3, 6, 1, 5, 3, 5, 1, 3, 4, 4, 2, 5, 6, 7,
      7, 0, 1, 2, 3, 3, 4, 6, 2, 6, 5, 5, 3, 4, 5, 6, 7, 1, 2, 4, 6, 4, 4, 5, 7, 2, 6, 5, 7, 6, 7, 7]"

definition LZ4_NbCommonBytes_sw :: "u64 \<Rightarrow> nat" where
  "LZ4_NbCommonBytes_sw val =
     DeBruijnBytePos ! unat (drop_bit 58 ((val AND - val) * 0x0218A392CDABBD3F))"

partial_function (option) LZ4_count_loop ::
  "mem \<Rightarrow> addr \<Rightarrow> addr \<Rightarrow> addr \<Rightarrow> (addr + addr \<times> addr) option" where
  "LZ4_count_loop m pIn pMatch pInLimit =
     (if pIn < pInLimit - (STEPSIZE - 1)
      then do { a \<leftarrow> LZ4_read_ARCH m pMatch;
                b \<leftarrow> LZ4_read_ARCH m pIn;
                if a XOR b = 0
                then LZ4_count_loop m (pIn + STEPSIZE) (pMatch + STEPSIZE) pInLimit
                else Some (Inl (pIn + int (LZ4_NbCommonBytes (a XOR b)))) }
      else Some (Inr (pIn, pMatch)))"

text \<open>
  One of the three steps after the loop: advance by \<open>k\<close> bytes if \<open>k\<close> bytes are left and
  the two words that \<open>rd\<close> reads are equal.
\<close>

definition LZ4_count_step ::
  "(addr \<Rightarrow> 'w option) \<Rightarrow> int \<Rightarrow> addr \<times> addr \<Rightarrow> addr \<Rightarrow> (addr \<times> addr) option" where
  "LZ4_count_step rd k p pInLimit =
     (case p of (pIn, pMatch) \<Rightarrow>
        if pIn < pInLimit - (k - 1)
        then do { a \<leftarrow> rd pMatch;
                  b \<leftarrow> rd pIn;
                  Some (if a = b then (pIn + k, pMatch + k) else (pIn, pMatch)) }
        else Some (pIn, pMatch))"

definition LZ4_count :: "mem \<Rightarrow> addr \<Rightarrow> addr \<Rightarrow> addr \<Rightarrow> int option" where
  "LZ4_count m pIn pMatch pInLimit =
     do { r \<leftarrow> LZ4_count_loop m pIn pMatch pInLimit;
          case r of
            Inl q \<Rightarrow> Some (cast_u32 (q - pIn))
          | Inr p \<Rightarrow>
              do { p \<leftarrow> (if LZ4_64bits then LZ4_count_step (LZ4_read32 m) 4 p pInLimit else Some p);
                   p \<leftarrow> LZ4_count_step (LZ4_read16 m) 2 p pInLimit;
                   p \<leftarrow> LZ4_count_step m 1 p pInLimit;
                   Some (cast_u32 (fst p - pIn)) } }"

declare LZ4_wildCopy.simps [code] LZ4_byteCopy.simps [code] LZ4_count_loop.simps [code]

section \<open>Reads\<close>

lemma word_of_le_inj:
  assumes "(word_of_le xs :: 'a::len word) = word_of_le ys" "length xs = n" "length ys = n"
    "8 * n \<le> LENGTH('a)"
  shows "xs = ys"
  using assms by (metis le_bytes_word_of_le)

lemma read_defined:
  "mapped m p (p + int n) \<Longrightarrow> \<exists>w. map_option word_of_le (load_bytes m p n) = Some w"
  using load_bytes_mapped [of m p n] by auto

lemma LZ4_read32_mapped: "mapped m p (p + 4) \<Longrightarrow> \<exists>w. LZ4_read32 m p = Some w"
  using read_defined [of m p 4] by (simp add: LZ4_read32_def)

lemma LZ4_read_ARCH_mapped: "mapped m p (p + 8) \<Longrightarrow> \<exists>w. LZ4_read_ARCH m p = Some w"
  using read_defined [of m p 8] by (simp add: LZ4_read_ARCH_def LZ4_read64_def LZ4_64bits_def)

lemma LZ4_readLE16_mapped: "mapped m p (p + 2) \<Longrightarrow> \<exists>w. LZ4_readLE16 m p = Some w"
  using read_defined [of m p 2] by (simp add: LZ4_readLE16_def LZ4_read16_def LZ4_isLittleEndian_def)

lemma bytes_at_eq_memory:
  assumes "bytes_at m p bs" "bytes_at m q bs" "0 \<le> i" "i < int (length bs)"
  shows "m (p + i) = m (q + i)"
  using assms by (simp add: bytes_at_iff)

lemma equal_words_equal_bytes:
  assumes "map_option (word_of_le :: byte list \<Rightarrow> 'a::len word) (load_bytes m p n) = Some w"
    "map_option word_of_le (load_bytes m q n) = Some w" "8 * n \<le> LENGTH('a)"
    "0 \<le> i" "i < int n"
  shows "m (p + i) = m (q + i)"
proof -
  obtain xs ys where xs: "load_bytes m p n = Some xs" "word_of_le xs = w"
    and ys: "load_bytes m q n = Some ys" "word_of_le ys = w"
    using assms(1,2) by auto
  moreover from this have "xs = ys"
    using assms(3) by (intro word_of_le_inj [of xs ys n]) (auto simp: load_bytes_bytes_at)
  ultimately show ?thesis
    using assms(4,5) by (auto simp: load_bytes_bytes_at intro: bytes_at_eq_memory)
qed

lemma LZ4_read32_eqD:
  "LZ4_read32 m p = Some w \<Longrightarrow> LZ4_read32 m q = Some w \<Longrightarrow> 0 \<le> i \<Longrightarrow> i < 4 \<Longrightarrow> m (p + i) = m (q + i)"
  unfolding LZ4_read32_def by (rule equal_words_equal_bytes [where n = 4 and 'a = 32]) simp_all

section \<open>Copies\<close>

text \<open>
  The copies in terms of the distance \<open>D\<close> between destination and source: afterwards every
  byte written equals the byte \<open>D\<close> below it, provided a step never reads what it writes.
\<close>

lemma LZ4_wildCopy_spec:
  assumes "mapped m d (max (d + 8) (e + 7))" "mapped m (d - D) (max (d + 8) (e + 7) - D)"
  shows "\<exists>m' K. LZ4_wildCopy m d (d - D) e = Some m' \<and> 8 \<le> K \<and> e \<le> d + K \<and>
    d + K \<le> max (d + 8) (e + 7) \<and> same_dom m m' \<and> same_outside m m' d (d + K) \<and>
    (8 \<le> D \<or> K \<le> - D \<longrightarrow> (\<forall>i. d \<le> i \<and> i < d + K \<longrightarrow> m' i = m' (i - D)))"
  using assms
proof (induction "nat (e - d)" arbitrary: m d rule: less_induct)
  case less
  let ?m = "copied m d (d - D) 8"
  have map8: "mapped m d (d + 8)" "mapped m (d - D) (d - D + 8)"
    by (rule mapped_subset [OF less.prems(1)], simp_all)
      (rule mapped_subset [OF less.prems(2)], simp_all)
  then have c: "LZ4_copy8 m d (d - D) = Some ?m"
    by (simp add: LZ4_copy8_def mem_simps)
  have dom: "same_dom m ?m"
    using map8 by (intro same_dom_copied)
  have m_eq: "?m i = m (i - D)" if "d \<le> i" "i < d + 8" for i
    using that by (simp add: copied_def)
  have m_out: "?m i = m i" if "i < d \<or> d + 8 \<le> i" for i
    using that by (auto simp: copied_def)
  show ?case
  proof (cases "d + 8 < e")
    case False
    then have "LZ4_wildCopy m d (d - D) e = Some ?m"
      by (simp add: LZ4_wildCopy.simps [of m d _ e] c)
    moreover have "?m i = ?m (i - D)" if "8 \<le> D \<or> 8 \<le> - D" "d \<le> i" "i < d + 8" for i
      using that by (subst m_eq; (subst m_out)?) auto
    ultimately show ?thesis
      using False dom same_outside_copied [of m d "d - D" 8]
      by (intro exI [of _ ?m] exI [of _ 8]) auto
  next
    case True
    have "mapped ?m (d + 8) (max (d + 8 + 8) (e + 7))"
      "mapped ?m (d + 8 - D) (max (d + 8 + 8) (e + 7) - D)"
      unfolding mapped_same_dom [OF dom] using True
      by (auto intro: mapped_subset [OF less.prems(1)] mapped_subset [OF less.prems(2)])
    moreover have "nat (e - (d + 8)) < nat (e - d)" using True by simp
    ultimately obtain m' K where IH: "LZ4_wildCopy ?m (d + 8) (d + 8 - D) e = Some m'" "8 \<le> K"
      "e \<le> d + 8 + K" "d + 8 + K \<le> max (d + 8 + 8) (e + 7)" "same_dom ?m m'"
      "same_outside ?m m' (d + 8) (d + 8 + K)"
      "8 \<le> D \<or> K \<le> - D \<Longrightarrow> \<forall>i. d + 8 \<le> i \<and> i < d + 8 + K \<longrightarrow> m' i = m' (i - D)"
      using less.hyps [of "d + 8" ?m] by blast
    have "m' i = m' (i - D)"
      if side: "8 \<le> D \<or> 8 + K \<le> - D" and i: "d \<le> i" "i < d + (8 + K)" for i
    proof (cases "i < d + 8")
      case True
      have "i - D < d + 8 \<or> d + 8 + K \<le> i - D" "i - D < d \<or> d + 8 \<le> i - D"
        using side i True IH(2) by auto
      then have "m' i = ?m i" "m' (i - D) = ?m (i - D)" "?m (i - D) = m (i - D)"
        using IH(6) True by (auto intro!: same_outsideD m_out)
      then show ?thesis
        using m_eq [of i] i True by simp
    next
      case False
      then show ?thesis using IH(7) side i IH(2) by auto
    qed
    moreover have "LZ4_wildCopy m d (d - D) e = Some m'"
    proof -
      have "LZ4_wildCopy ?m (d + 8) (d - D + 8) e = Some m'"
        using IH(1) by (simp only: diff_add_eq)
      then show ?thesis
        using True by (simp add: LZ4_wildCopy.simps [of m d _ e] c)
    qed
    moreover have "same_dom m m'"
      using dom IH(5) by (rule same_dom_trans)
    moreover have "same_outside m m' d (d + (8 + K))"
      using same_outside_copied [of m d "d - D" 8] IH(2,6)
      by (auto simp: same_outside_def)
    ultimately show ?thesis
      using IH(2-4) True
      by (intro exI [of _ m'] exI [of _ "8 + K"]) auto
  qed
qed

lemma LZ4_byteCopy_spec:
  assumes "mapped m d e" "mapped m (d - D) (e - D)"
  shows "\<exists>m'. LZ4_byteCopy m d (d - D) e = Some m' \<and> same_dom m m' \<and> same_outside m m' d e \<and>
    (1 \<le> D \<longrightarrow> (\<forall>i. d \<le> i \<and> i < e \<longrightarrow> m' i = m' (i - D)))"
  using assms
proof (induction "nat (e - d)" arbitrary: m d rule: less_induct)
  case less
  show ?case
  proof (cases "d < e")
    case False
    then show ?thesis
      by (auto simp: LZ4_byteCopy.simps [of m d _ e])
  next
    case True
    then obtain b c where b: "m (d - D) = Some b" and c: "m d = Some c"
      using less.prems by (fastforce simp: mapped_def)
    let ?m = "m(d \<mapsto> b)"
    have dom: "same_dom m ?m"
      using c by (simp add: same_dom_def)
    have "mapped ?m (d + 1) e" "mapped ?m (d + 1 - D) (e - D)"
      unfolding mapped_same_dom [OF dom]
      by (auto intro: mapped_subset [OF less.prems(1)] mapped_subset [OF less.prems(2)])
    moreover have "nat (e - (d + 1)) < nat (e - d)" using True by simp
    ultimately obtain m' where IH: "LZ4_byteCopy ?m (d + 1) (d + 1 - D) e = Some m'" "same_dom ?m m'"
      "same_outside ?m m' (d + 1) e"
      "1 \<le> D \<Longrightarrow> \<forall>i. d + 1 \<le> i \<and> i < e \<longrightarrow> m' i = m' (i - D)"
      using less.hyps [of "d + 1" ?m] by blast
    have "m' i = m' (i - D)" if side: "1 \<le> D" and i: "d \<le> i" "i < e" for i
    proof (cases "i = d")
      case True
      have "m' d = ?m d" "m' (d - D) = ?m (d - D)"
        using side by (auto simp: same_outsideD [OF IH(3)])
      then show ?thesis using True b side by simp
    next
      case False
      then show ?thesis using IH(4) side i by auto
    qed
    moreover have "same_outside m m' d e"
      using IH(3) True by (auto simp: same_outside_def)
    moreover have "LZ4_byteCopy m d (d - D) e = Some m'"
    proof -
      have "LZ4_byteCopy ?m (d + 1) (d - D + 1) e = Some m'"
        using IH(1) by (simp only: diff_add_eq)
      then show ?thesis
        using True b c by (simp add: LZ4_byteCopy.simps [of m d _ e] store_def)
    qed
    ultimately show ?thesis
      using same_dom_trans [OF dom IH(2)] by blast
  qed
qed


section \<open>Counting common bytes\<close>

lemma ctz_upto_spec:
  "\<exists>i < n. bit w i \<Longrightarrow>
     ctz_upto n w < n \<and> bit w (ctz_upto n w) \<and> (\<forall>i < ctz_upto n w. \<not> bit w i)"
proof (induction n arbitrary: w)
  case 0
  then show ?case by simp
next
  case (Suc n)
  show ?case
  proof (cases "bit w 0")
    case True
    then show ?thesis by simp
  next
    case False
    obtain i where i: "i < Suc n" "bit w i" using Suc.prems by blast
    with False obtain j where "i = Suc j" by (cases i) auto
    with i have "\<exists>i < n. bit (drop_bit 1 w) i"
      by (auto simp: bit_simps)
    from Suc.IH [OF this] False show ?thesis
      by (auto simp: bit_simps less_Suc_eq_0_disj)
  qed
qed

lemma nonzero_has_bit:
  assumes "(w :: 'a::len word) \<noteq> 0"
  shows "\<exists>i < LENGTH('a). bit w i"
proof (rule ccontr)
  assume "\<not> ?thesis"
  then have "w = 0" by (intro bit_word_eqI) auto
  with assms show False by simp
qed

lemma builtin_ctzll_spec:
  "w \<noteq> 0 \<Longrightarrow> builtin_ctzll w < 64 \<and> bit w (builtin_ctzll w) \<and> (\<forall>i < builtin_ctzll w. \<not> bit w i)"
  using nonzero_has_bit [of w] ctz_upto_spec [of 64 w] by (simp add: builtin_ctzll_def)

lemma NbCommonBytes_first_difference:
  assumes len: "length xs = 8" "length ys = 8"
    and diff: "(word_of_le xs :: u64) XOR word_of_le ys \<noteq> 0"
  defines "k \<equiv> LZ4_NbCommonBytes (word_of_le xs XOR word_of_le ys)"
  shows "k < 8" "xs ! k \<noteq> ys ! k" "i < k \<Longrightarrow> xs ! i = ys ! i"
proof -
  define t where "t = builtin_ctzll (word_of_le xs XOR word_of_le ys)"
  have t: "t < 64" "bit ((word_of_le xs :: u64) XOR word_of_le ys) t"
    "\<And>i. i < t \<Longrightarrow> \<not> bit ((word_of_le xs :: u64) XOR word_of_le ys) i"
    using builtin_ctzll_spec [OF diff] by (auto simp: t_def)
  have k: "k = t div 8"
    by (simp add: k_def LZ4_NbCommonBytes_def t_def drop_bit_eq_div)
  show "k < 8" using t(1) by (simp add: k less_mult_imp_div_less)
  show "xs ! k \<noteq> ys ! k"
    using t(1,2) len by (auto simp: bit_simps bit_word_of_le k)
  show "xs ! i = ys ! i" if "i < k"
  proof (rule bit_word_eqI)
    fix j assume "j < LENGTH(8)"
    then have j: "j < 8" by simp
    have "8 * i + j < t" using that j k by linarith
    moreover have "(8 * i + j) div 8 = i" "(8 * i + j) mod 8 = j" "i < 8"
      using j that \<open>k < 8\<close> by simp_all
    ultimately show "bit (xs ! i) j = bit (ys ! i) j"
      using t(3) [of "8 * i + j"] t(1) len by (simp add: bit_simps bit_word_of_le)
  qed
qed

lemma word_read_eq_iff:
  assumes "load_bytes m p n = Some xs" "load_bytes m q n = Some ys" "8 * n \<le> LENGTH('a)"
  shows "(word_of_le xs :: 'a::len word) = word_of_le ys \<longleftrightarrow>
    (\<forall>i. 0 \<le> i \<and> i < int n \<longrightarrow> m (p + i) = m (q + i))"
proof
  assume "(word_of_le xs :: 'a word) = word_of_le ys"
  then have "xs = ys"
    using assms by (intro word_of_le_inj [of xs ys n]) (auto simp: load_bytes_bytes_at)
  then show "\<forall>i. 0 \<le> i \<and> i < int n \<longrightarrow> m (p + i) = m (q + i)"
    using assms by (auto simp: load_bytes_bytes_at intro: bytes_at_eq_memory)
next
  assume eq: "\<forall>i. 0 \<le> i \<and> i < int n \<longrightarrow> m (p + i) = m (q + i)"
  have "xs = ys"
  proof (rule nth_equalityI)
    show "length xs = length ys"
      using assms by (simp add: load_bytes_bytes_at)
    fix i assume "i < length xs"
    then have "m (p + int i) = Some (xs ! i)" "m (q + int i) = Some (ys ! i)" "i < n"
      using assms by (auto simp: load_bytes_bytes_at bytes_at_iff)
    then show "xs ! i = ys ! i"
      using eq [rule_format, of "int i"] by simp
  qed
  then show "(word_of_le xs :: 'a word) = word_of_le ys" by simp
qed

definition agree :: "mem \<Rightarrow> addr \<Rightarrow> addr \<Rightarrow> int \<Rightarrow> bool" where
  "agree m p q n \<longleftrightarrow> (\<forall>i. 0 \<le> i \<and> i < n \<longrightarrow> m (p + i) = m (q + i))"

lemma agree_extend:
  assumes "agree m p q a" "agree m (p + a) (q + a) b" "0 \<le> a"
  shows "agree m p q (a + b)"
  unfolding agree_def
proof (intro allI impI)
  fix i assume i: "0 \<le> i \<and> i < a + b"
  show "m (p + i) = m (q + i)"
  proof (cases "i < a")
    case True
    then show ?thesis using assms(1) i by (simp add: agree_def)
  next
    case False
    then show ?thesis
      using assms(2) i by (auto simp: agree_def dest!: spec [of _ "i - a"])
  qed
qed

lemma agree_0 [simp]: "agree m p q 0"
  by (auto simp: agree_def)

lemma agreeD: "agree m p q n \<Longrightarrow> 0 \<le> i \<Longrightarrow> i < n \<Longrightarrow> m (p + i) = m (q + i)"
  by (simp add: agree_def)

lemma read_agree_iff:
  assumes "map_option (word_of_le :: byte list \<Rightarrow> 'a::len word) (load_bytes m q n) = Some b"
    "map_option word_of_le (load_bytes m p n) = Some a" "8 * n \<le> LENGTH('a)"
  shows "b = a \<longleftrightarrow> agree m p q (int n)"
proof -
  obtain xs ys where xs: "load_bytes m p n = Some xs" "word_of_le xs = a"
    and ys: "load_bytes m q n = Some ys" "word_of_le ys = b"
    using assms(1,2) by auto
  show ?thesis
    using word_read_eq_iff [OF xs(1) ys(1) assms(3)] xs(2) ys(2) by (auto simp: agree_def)
qed

lemma word_xor_eq_0: "a XOR b = 0 \<longleftrightarrow> a = (b :: 'a::len word)"
proof
  assume eq: "a XOR b = 0"
  have "a = a XOR (b XOR b)" by simp
  also have "\<dots> = (a XOR b) XOR b" by (simp add: xor.assoc)
  also have "\<dots> = b" by (simp add: eq)
  finally show "a = b" .
qed simp

text \<open>The word loop stops at the first difference, or with fewer than eight bytes left.\<close>

lemma LZ4_count_loop_spec:
  "mapped m p lim \<Longrightarrow> mapped m q (q + (lim - p)) \<Longrightarrow> p \<le> lim \<Longrightarrow>
   (\<exists>n. LZ4_count_loop m p q lim = Some (Inl (p + n)) \<and> 0 \<le> n \<and> n < lim - p \<and>
        agree m p q n \<and> m (p + n) \<noteq> m (q + n)) \<or>
   (\<exists>n. LZ4_count_loop m p q lim = Some (Inr (p + n, q + n)) \<and> 0 \<le> n \<and> n \<le> lim - p \<and>
        lim - p - n < 8 \<and> agree m p q n)"
proof (induction "nat (lim - p)" arbitrary: p q rule: less_induct)
  case less
  show ?case
  proof (cases "p < lim - 7")
    case False
    then have "LZ4_count_loop m p q lim = Some (Inr (p + 0, q + 0))"
      by (subst LZ4_count_loop.simps) simp
    then show ?thesis using False less.prems(3) by force
  next
    case True
    have "mapped m p (p + 8)" "mapped m q (q + 8)"
      using True by (auto intro: mapped_subset [OF less.prems(1)] mapped_subset [OF less.prems(2)])
    then obtain xs ys where xs: "load_bytes m p 8 = Some xs" and ys: "load_bytes m q 8 = Some ys"
      using load_bytes_mapped [of m p 8] load_bytes_mapped [of m q 8] by auto
    define a b :: u64 where "a = word_of_le ys" and "b = word_of_le xs"
    have rd: "LZ4_read_ARCH m q = Some a" "LZ4_read_ARCH m p = Some b"
      using xs ys by (simp_all add: LZ4_read_ARCH_def LZ4_read64_def LZ4_64bits_def a_def b_def)
    have eq: "a = b \<longleftrightarrow> agree m p q 8"
      using word_read_eq_iff [OF xs ys, where 'a = 64] by (auto simp: a_def b_def agree_def)
    show ?thesis
    proof (cases "a = b")
      case same: True
      have step: "LZ4_count_loop m p q lim = LZ4_count_loop m (p + 8) (q + 8) lim"
        using True rd same by (subst LZ4_count_loop.simps) simp
      have pre: "mapped m (p + 8) lim" "mapped m (q + 8) (q + 8 + (lim - (p + 8)))" "p + 8 \<le> lim"
        using True by (auto intro: mapped_subset [OF less.prems(1)] mapped_subset [OF less.prems(2)])
      have ext: "agree m p q (8 + n)" if "agree m (p + 8) (q + 8) n" for n
        using agree_extend [of m p q 8 n] that same eq by simp
      have "nat (lim - (p + 8)) < nat (lim - p)" using True by simp
      from less.hyps [OF this pre] show ?thesis
      proof (elim disjE exE conjE)
        fix n assume n: "LZ4_count_loop m (p + 8) (q + 8) lim = Some (Inl (p + 8 + n))" "0 \<le> n"
          "n < lim - (p + 8)" "agree m (p + 8) (q + 8) n" "m (p + 8 + n) \<noteq> m (q + 8 + n)"
        then show ?thesis
          by (intro disjI1 exI [of _ "8 + n"]) (simp add: step ext add.assoc)
      next
        fix n assume n: "LZ4_count_loop m (p + 8) (q + 8) lim = Some (Inr (p + 8 + n, q + 8 + n))"
          "0 \<le> n" "n \<le> lim - (p + 8)" "lim - (p + 8) - n < 8" "agree m (p + 8) (q + 8) n"
        then show ?thesis
          by (intro disjI2 exI [of _ "8 + n"]) (simp add: step ext add.assoc)
      qed
    next
      case diff: False
      then have nz: "a XOR b \<noteq> 0" by (simp add: word_xor_eq_0)
      define k where "k = LZ4_NbCommonBytes (a XOR b)"
      have len: "length ys = 8" "length xs = 8" and at: "bytes_at m q ys" "bytes_at m p xs"
        using xs ys by (simp_all add: load_bytes_bytes_at)
      note first = NbCommonBytes_first_difference [OF len nz [unfolded a_def b_def],
          folded a_def b_def, folded k_def]
      have "LZ4_count_loop m p q lim = Some (Inl (p + int k))"
        using True rd nz by (subst LZ4_count_loop.simps) (simp add: k_def)
      moreover have "agree m p q (int k)"
        unfolding agree_def
      proof (intro allI impI)
        fix i assume i: "0 \<le> i \<and> i < int k"
        then have "ys ! nat i = xs ! nat i" by (intro first(3)) (simp add: nat_less_iff)
        then show "m (p + i) = m (q + i)"
          using at i first(1) len by (simp add: bytes_at_iff)
      qed
      moreover have "m (p + int k) \<noteq> m (q + int k)"
        using at first(1,2) len by (simp add: bytes_at_iff)
      ultimately show ?thesis
        using first(1) True by (intro disjI1 exI [of _ "int k"]) simp
    qed
  qed
qed

text \<open>Each of the three steps halves the window in which the first difference lies.\<close>

lemma LZ4_count_step_spec:
  assumes defined: "\<And>a. mapped m a (a + k) \<Longrightarrow> \<exists>w. rd a = Some w"
    and eq: "\<And>w w'. rd q = Some w \<Longrightarrow> rd p = Some w' \<Longrightarrow> w = w' \<longleftrightarrow> agree m p q k"
    and maps: "mapped m p lim" "mapped m q (q + (lim - p))" and k: "0 < k" "p \<le> lim"
    and window: "lim - p < 2 * k \<or> \<not> agree m p q (2 * k)"
  shows "\<exists>n. LZ4_count_step rd k (p, q) lim = Some (p + n, q + n) \<and> 0 \<le> n \<and> n \<le> lim - p \<and>
    agree m p q n \<and> (lim - (p + n) < k \<or> \<not> agree m (p + n) (q + n) k)"
proof (cases "p < lim - (k - 1)")
  case False
  then have "LZ4_count_step rd k (p, q) lim = Some (p + 0, q + 0)"
    by (simp add: LZ4_count_step_def)
  then show ?thesis
    using False k by (intro exI [of _ 0]) simp
next
  case True
  have "mapped m p (p + k)" "mapped m q (q + k)"
    using True by (auto intro: mapped_subset [OF maps(1)] mapped_subset [OF maps(2)])
  then obtain w w' where rd: "rd q = Some w" "rd p = Some w'"
    using defined by blast
  show ?thesis
  proof (cases "w = w'")
    case True
    have ag: "agree m p q k" using eq [OF rd] True by simp
    have "\<not> agree m (p + k) (q + k) k" if "\<not> agree m p q (2 * k)"
      using agree_extend [OF ag, of k] that k(1) by auto
    then show ?thesis
      using True rd window ag k \<open>p < lim - (k - 1)\<close>
      by (intro exI [of _ k]) (auto simp: LZ4_count_step_def)
  next
    case False
    then have "\<not> agree m p q k" using eq [OF rd] by simp
    then show ?thesis
      using False rd k \<open>p < lim - (k - 1)\<close>
      by (intro exI [of _ 0]) (auto simp: LZ4_count_step_def)
  qed
qed

text \<open>The window in which the first difference after \<open>n\<close> common bytes lies.\<close>

definition narrowed :: "mem \<Rightarrow> addr \<Rightarrow> addr \<Rightarrow> addr \<Rightarrow> int \<Rightarrow> int \<Rightarrow> bool" where
  "narrowed m p q lim k n \<longleftrightarrow> 0 \<le> n \<and> n \<le> lim - p \<and> agree m p q n \<and>
     (lim - (p + n) < k \<or> \<not> agree m (p + n) (q + n) k)"

lemma LZ4_count_step_narrows:
  assumes defined: "\<And>a. mapped m a (a + k) \<Longrightarrow> \<exists>w. rd a = Some w"
    and eq: "\<And>p q w w'. rd q = Some w \<Longrightarrow> rd p = Some w' \<Longrightarrow> w = w' \<longleftrightarrow> agree m p q k"
    and maps: "mapped m p lim" "mapped m q (q + (lim - p))" and k: "0 < k" "l = 2 * k"
    and window: "narrowed m p q lim l n"
  shows "\<exists>n'. LZ4_count_step rd k (p + n, q + n) lim = Some (p + n', q + n') \<and>
    narrowed m p q lim k n'"
proof -
  have "mapped m (p + n) lim" "mapped m (q + n) (q + n + (lim - (p + n)))"
    using window by (auto simp: narrowed_def
        intro: mapped_subset [OF maps(1)] mapped_subset [OF maps(2)])
  then obtain j where "LZ4_count_step rd k (p + n, q + n) lim = Some (p + n + j, q + n + j)"
    "0 \<le> j" "j \<le> lim - (p + n)" "agree m (p + n) (q + n) j"
    "lim - (p + n + j) < k \<or> \<not> agree m (p + n + j) (q + n + j) k"
    using LZ4_count_step_spec [of m k rd "q + n" "p + n" lim] defined eq k window
    by (auto simp: narrowed_def)
  moreover from this have "agree m p q (n + j)"
    using window by (intro agree_extend) (auto simp: narrowed_def)
  ultimately show ?thesis
    using window by (intro exI [of _ "n + j"]) (simp add: narrowed_def add.assoc)
qed

lemma LZ4_read32_agree:
  "LZ4_read32 m q = Some w \<Longrightarrow> LZ4_read32 m p = Some w' \<Longrightarrow> w = w' \<longleftrightarrow> agree m p q 4"
  using read_agree_iff [where n = 4 and 'a = 32, of m q w p w'] by (simp add: LZ4_read32_def)

lemma LZ4_read16_agree:
  "LZ4_read16 m q = Some w \<Longrightarrow> LZ4_read16 m p = Some w' \<Longrightarrow> w = w' \<longleftrightarrow> agree m p q 2"
  using read_agree_iff [where n = 2 and 'a = 16, of m q w p w'] by (simp add: LZ4_read16_def)

lemma agree_1: "agree m p q 1 \<longleftrightarrow> m p = m q"
proof
  assume eq: "m p = m q"
  show "agree m p q 1"
    unfolding agree_def
  proof (intro allI impI)
    fix i :: int assume "0 \<le> i \<and> i < 1"
    then have "i = 0" by simp
    with eq show "m (p + i) = m (q + i)" by simp
  qed
qed (auto simp: agree_def dest: spec [of _ 0])

lemma LZ4_read16_mapped: "mapped m p (p + 2) \<Longrightarrow> \<exists>w. LZ4_read16 m p = Some w"
  using read_defined [of m p 2] by (simp add: LZ4_read16_def)

lemma LZ4_count_spec:
  assumes maps: "mapped m p lim" "mapped m q (q + (lim - p))" and lim: "p \<le> lim" "lim - p < 2 ^ 32"
  shows "\<exists>n. LZ4_count m p q lim = Some n \<and> 0 \<le> n \<and> n \<le> lim - p \<and> agree m p q n \<and>
    (n < lim - p \<longrightarrow> m (p + n) \<noteq> m (q + n))"
  using LZ4_count_loop_spec [OF maps lim(1)]
proof (elim disjE exE conjE)
  fix n assume "LZ4_count_loop m p q lim = Some (Inl (p + n))" "0 \<le> n" "n < lim - p"
    "agree m p q n" "m (p + n) \<noteq> m (q + n)"
  then show ?thesis
    using lim by (intro exI [of _ n]) (simp add: LZ4_count_def)
next
  fix n assume n: "LZ4_count_loop m p q lim = Some (Inr (p + n, q + n))" "0 \<le> n" "n \<le> lim - p"
    "lim - p - n < 8" "agree m p q n"
  then have n8: "narrowed m p q lim 8 n" by (simp add: narrowed_def)
  have "\<exists>n'. LZ4_count_step (LZ4_read32 m) 4 (p + n, q + n) lim = Some (p + n', q + n') \<and>
      narrowed m p q lim 4 n'"
    by (rule LZ4_count_step_narrows [where l = 8, OF _ _ maps])
      (erule LZ4_read32_mapped, erule (1) LZ4_read32_agree, simp, simp, rule n8)
  then obtain n4 where n4: "narrowed m p q lim 4 n4"
    "LZ4_count_step (LZ4_read32 m) 4 (p + n, q + n) lim = Some (p + n4, q + n4)" by blast
  have "\<exists>n'. LZ4_count_step (LZ4_read16 m) 2 (p + n4, q + n4) lim = Some (p + n', q + n') \<and>
      narrowed m p q lim 2 n'"
    by (rule LZ4_count_step_narrows [where l = 4, OF _ _ maps])
      (erule LZ4_read16_mapped, erule (1) LZ4_read16_agree, simp, simp, rule n4(1))
  then obtain n2 where n2: "narrowed m p q lim 2 n2"
    "LZ4_count_step (LZ4_read16 m) 2 (p + n4, q + n4) lim = Some (p + n2, q + n2)" by blast
  have "\<exists>n'. LZ4_count_step m 1 (p + n2, q + n2) lim = Some (p + n', q + n') \<and>
      narrowed m p q lim 1 n'"
    by (rule LZ4_count_step_narrows [where l = 2, OF _ _ maps])
      (auto simp: mapped_def agree_1 n2(1))
  then obtain n1 where n1: "narrowed m p q lim 1 n1"
    "LZ4_count_step m 1 (p + n2, q + n2) lim = Some (p + n1, q + n1)" by blast
  have "LZ4_count m p q lim = Some (cast_u32 n1)"
    using n(1) n4(2) n2(2) n1(2) by (simp add: LZ4_count_def LZ4_64bits_def)
  then show ?thesis
    using n1(1) lim by (intro exI [of _ n1]) (auto simp: narrowed_def agree_1)
qed

section \<open>Main properties\<close>

text \<open>
  C23: \<open>LZ4_count\<close> reads only the two ranges it compares and returns the exact length of their
  common prefix: that many bytes agree, and unless the whole range agrees the next bytes differ.
\<close>

theorem LZ4_count_exact:
  assumes "mapped m pIn pInLimit" "mapped m pMatch (pMatch + (pInLimit - pIn))"
    and "pIn \<le> pInLimit" "pInLimit - pIn < 2 ^ 32"
  shows "\<exists>n. LZ4_count m pIn pMatch pInLimit = Some n \<and> 0 \<le> n \<and> n \<le> pInLimit - pIn \<and>
    (\<forall>i. 0 \<le> i \<and> i < n \<longrightarrow> m (pIn + i) = m (pMatch + i)) \<and>
    (n < pInLimit - pIn \<longrightarrow> m (pIn + n) \<noteq> m (pMatch + n))"
  using LZ4_count_spec [OF assms] by (simp add: agree_def)

theorem LZ4_count_exact_witness:
  "\<exists>n. LZ4_count (\<lambda>i. Some (word_of_int (i * i))) 12 10 40 = Some n \<and> n < 28 \<and>
    word_of_int ((12 + n) * (12 + n)) \<noteq> (word_of_int ((10 + n) * (10 + n)) :: byte)"
proof -
  let ?m = "\<lambda>i. Some (word_of_int (i * i)) :: byte option"
  have "mapped ?m 12 40" "mapped ?m 10 (10 + (40 - 12))" "(12 :: int) \<le> 40" "(40 :: int) - 12 < 2 ^ 32"
    by (simp_all add: mapped_def)
  from LZ4_count_exact [OF this] obtain n where n: "LZ4_count ?m 12 10 40 = Some n" "0 \<le> n"
    "\<forall>i. 0 \<le> i \<and> i < n \<longrightarrow> ?m (12 + i) = ?m (10 + i)"
    "n < 28 \<longrightarrow> ?m (12 + n) \<noteq> ?m (10 + n)"
    by auto
  have "\<not> 0 < n"
  proof
    assume "0 < n"
    with n(3) have "?m (12 + 0) = ?m (10 + 0)" by blast
    then show False by simp
  qed
  then show ?thesis using n by auto
qed

end
