(* ===== verification/LZ4_DeBruijn.thy ===== *)
theory LZ4_DeBruijn
  imports LZ4_Common
begin

text \<open>
  The portable branch of \<open>LZ4_NbCommonBytes\<close> in \<^verbatim>\<open>lz4/lib/lz4.c\<close>: a multiplication by a de
  Bruijn constant and a table lookup. Shown here: it agrees with counting trailing zeros. The source
  negates a signed 64-bit value; the model takes the two's complement value also for \<open>- 2 ^ 63\<close>,
  which C leaves undefined.
\<close>

lemma lowest_set_bit:
  fixes w :: "'a::len word"
  assumes "bit w k" "\<And>i. i < k \<Longrightarrow> \<not> bit w i"
  shows "w AND - w = push_bit k 1"
proof -
  have k: "k < LENGTH('a)" using assms(1) by (rule bit_imp_le_length)
  define h where "h = NOT w AND NOT (mask (Suc k))"
  have "NOT w = h OR mask k"
  proof (rule bit_word_eqI)
    fix n assume "n < LENGTH('a)"
    then show "bit (NOT w) n = bit (h OR mask k) n"
      using assms by (cases n k rule: linorder_cases) (simp_all add: h_def bit_simps)
  qed
  also have "\<dots> = h + mask k"
    by (rule disjunctive_add [symmetric]) (auto simp: h_def bit_simps)
  finally have "- w = h + push_bit k 1"
    by (simp add: minus_eq_not_plus_1 mask_eq_exp_minus_1 push_bit_eq_mult)
  also have "\<dots> = h OR push_bit k 1"
    using k by (intro disjunctive_add) (auto simp: h_def bit_simps)
  finally show ?thesis
    using assms(1) k by (intro bit_word_eqI) (auto simp: h_def bit_simps)
qed

lemma DeBruijn_table:
  "\<forall>k \<in> set [0..<64]. DeBruijnBytePos ! unat (drop_bit 58 (push_bit k 1 * 0x0218A392CDABBD3F :: u64)) = k div 8"
  by code_simp

text \<open>
  C24: the portable branch of \<open>LZ4_NbCommonBytes\<close>, which looks up a de Bruijn product, gives the
  same result as the branch that counts trailing zeros, for every non-zero argument.
\<close>

theorem NbCommonBytes_sw_eq:
  assumes "val \<noteq> 0"
  shows "LZ4_NbCommonBytes_sw val = LZ4_NbCommonBytes val"
proof -
  define k where "k = builtin_ctzll val"
  have k: "k < 64" "bit val k" "\<And>i. i < k \<Longrightarrow> \<not> bit val i"
    using builtin_ctzll_spec [OF assms] by (auto simp: k_def)
  have "val AND - val = push_bit k 1"
    using k by (intro lowest_set_bit)
  then show ?thesis
    using DeBruijn_table k(1)
    by (simp add: LZ4_NbCommonBytes_sw_def LZ4_NbCommonBytes_def k_def drop_bit_eq_div)
qed

theorem NbCommonBytes_sw_eq_witness:
  "LZ4_NbCommonBytes_sw 0x1100000000 = LZ4_NbCommonBytes 0x1100000000 \<and>
   LZ4_NbCommonBytes 0x1100000000 = 4"
proof -
  have "(0x1100000000 :: u64) \<noteq> 0" by simp
  moreover have "LZ4_NbCommonBytes 0x1100000000 = 4" by code_simp
  ultimately show ?thesis using NbCommonBytes_sw_eq by simp
qed

end
