(* ===== verification/LZ4_Block.thy ===== *)
theory LZ4_Block
  imports LZ4_Common
begin

text \<open>
  The LZ4 block format, as the abstract specification of compressor and decompressor: a block
  is a list of sequences (literals, then a match given by offset and length) and the last
  literals. \<open>ser_block\<close> writes a block as bytes, \<open>decode\<close> gives the data it stands for. The
  format is the one of \<^verbatim>\<open>lz4/lz4_Block_format.md\<close>.
\<close>

section \<open>Sequences\<close>

record lz4_seq =
  lits :: "byte list"
  moff :: nat
  mlen :: nat

text \<open>Lengths are half a byte in the token, extended by bytes of which the last is not 255.\<close>

definition ext_len :: "nat \<Rightarrow> byte list" where
  "ext_len n = replicate (n div 255) 255 @ [of_nat (n mod 255)]"

definition len_ext :: "nat \<Rightarrow> byte list" where
  "len_ext n = (if 15 \<le> n then ext_len (n - 15) else [])"

definition mk_token :: "nat \<Rightarrow> nat \<Rightarrow> byte" where
  "mk_token ll ml = of_nat (16 * min ll 15 + min ml 15)"

definition ser_seq :: "lz4_seq \<Rightarrow> byte list" where
  "ser_seq s =
     mk_token (length (lits s)) (mlen s - 4) # len_ext (length (lits s)) @ lits s @
     le_bytes 2 (of_nat (moff s) :: u16) @ len_ext (mlen s - 4)"

text \<open>The low half of the last token means nothing; the compressors leave it zero.\<close>

definition ser_last :: "nat \<Rightarrow> byte list \<Rightarrow> byte list" where
  "ser_last t ls = mk_token (length ls) t # len_ext (length ls) @ ls"

definition ser_block :: "lz4_seq list \<Rightarrow> nat \<Rightarrow> byte list \<Rightarrow> byte list" where
  "ser_block ss t ls = concat (map ser_seq ss) @ ser_last t ls"

section \<open>Meaning\<close>

text \<open>
  A match repeats what starts \<open>off\<close> bytes before the end of the output; it may be longer than
  that, and then repeats itself.
\<close>

definition match_bytes :: "byte list \<Rightarrow> nat \<Rightarrow> nat \<Rightarrow> byte list" where
  "match_bytes out off n = map (\<lambda>k. out ! (length out - off + k mod off)) [0..<n]"

definition apply_seq :: "byte list \<Rightarrow> lz4_seq \<Rightarrow> byte list" where
  "apply_seq out s = out @ lits s @ match_bytes (out @ lits s) (moff s) (mlen s)"

definition decode :: "byte list \<Rightarrow> lz4_seq list \<Rightarrow> byte list \<Rightarrow> byte list" where
  "decode hist ss ls = drop (length hist) (foldl apply_seq hist ss @ ls)"

text \<open>A sequence makes sense after the output \<open>out\<close>.\<close>

definition seq_ok :: "byte list \<Rightarrow> lz4_seq \<Rightarrow> bool" where
  "seq_ok out s \<longleftrightarrow> 1 \<le> moff s \<and> moff s \<le> 65535 \<and> moff s \<le> length out + length (lits s) \<and> 4 \<le> mlen s"

primrec seqs_ok :: "byte list \<Rightarrow> lz4_seq list \<Rightarrow> bool" where
  "seqs_ok out [] = True"
| "seqs_ok out (s # ss) = (seq_ok out s \<and> seqs_ok (apply_seq out s) ss)"

text \<open>
  The parsing restrictions at the end of a block: the last five bytes are literals, and the
  last match starts at least twelve bytes before the end.
\<close>

definition end_ok :: "lz4_seq list \<Rightarrow> byte list \<Rightarrow> bool" where
  "end_ok ss ls \<longleftrightarrow> ss \<noteq> [] \<longrightarrow> 5 \<le> length ls \<and> 12 \<le> mlen (last ss) + length ls"

text \<open>The number of bytes a block decodes to.\<close>

definition seq_size :: "lz4_seq \<Rightarrow> nat" where
  "seq_size s = length (lits s) + mlen s"

definition block_size :: "lz4_seq list \<Rightarrow> byte list \<Rightarrow> nat" where
  "block_size ss ls = sum_list (map seq_size ss) + length ls"

section \<open>Sizes\<close>

lemma length_ext_len [simp]: "length (ext_len n) = n div 255 + 1"
  by (simp add: ext_len_def)

lemma length_len_ext: "length (len_ext n) = (if 15 \<le> n then (n - 15) div 255 + 1 else 0)"
  by (simp add: len_ext_def)

lemma length_ser_seq:
  "length (ser_seq s) = 3 + length (len_ext (length (lits s))) + length (lits s) + length (len_ext (mlen s - 4))"
  by (simp add: ser_seq_def)

lemma length_ser_last: "length (ser_last t ls) = 1 + length (len_ext (length ls)) + length ls"
  by (simp add: ser_last_def)

lemma ser_block_Cons: "ser_block (s # ss) t ls = ser_seq s @ ser_block ss t ls"
  by (simp add: ser_block_def)

lemma ser_block_Nil: "ser_block [] t ls = ser_last t ls"
  by (simp add: ser_block_def)

lemma length_match_bytes [simp]: "length (match_bytes out off n) = n"
  by (simp add: match_bytes_def)

lemma length_apply_seq [simp]: "length (apply_seq out s) = length out + seq_size s"
  by (simp add: apply_seq_def seq_size_def)

lemma length_foldl_apply: "length (foldl apply_seq out ss) = length out + sum_list (map seq_size ss)"
  by (induction ss arbitrary: out) simp_all

lemma length_decode [simp]: "length (decode hist ss ls) = block_size ss ls"
  by (simp add: decode_def block_size_def length_foldl_apply)

lemma block_size_Cons: "block_size (s # ss) ls = seq_size s + block_size ss ls"
  by (simp add: block_size_def)

lemma foldl_apply_hist: "\<exists>xs. foldl apply_seq hist ss = hist @ xs"
proof (induction ss arbitrary: hist)
  case (Cons s ss)
  then obtain xs where "foldl apply_seq (apply_seq hist s) ss = apply_seq hist s @ xs" by blast
  moreover have "\<exists>ys. apply_seq hist s = hist @ ys" by (simp add: apply_seq_def)
  ultimately show ?case by auto
qed simp

lemma hist_decode: "hist @ decode hist ss ls = foldl apply_seq hist ss @ ls"
  using foldl_apply_hist [of hist ss] by (auto simp: decode_def)

lemma end_ok_Cons:
  assumes "end_ok (s # ss) ls" "seqs_ok out (s # ss)"
  shows "end_ok ss ls" "5 \<le> length ls" "12 \<le> mlen s + block_size ss ls"
proof -
  show "end_ok ss ls" "5 \<le> length ls"
    using assms(1) by (auto simp: end_ok_def split: if_splits)
  show "12 \<le> mlen s + block_size ss ls"
  proof (cases ss rule: rev_cases)
    case Nil
    then show ?thesis using assms(1) by (simp add: end_ok_def block_size_def)
  next
    case (snoc ts t)
    then show ?thesis
      using assms(1) by (simp add: end_ok_def block_size_def seq_size_def)
  qed
qed

lemma length_ser_block_ge: "length ls + 1 \<le> length (ser_block ss t ls)"
  by (simp add: ser_block_def length_ser_last)

section \<open>Tokens\<close>

lemma uint_token: "uint (mk_token ll ml) = 16 * int (min ll 15) + int (min ml 15)"
proof -
  have "16 * min ll 15 + min ml 15 < 2 ^ 8" by simp
  then have "unat (mk_token ll ml) = 16 * min ll 15 + min ml 15"
    unfolding mk_token_def by (intro unat_of_nat_small) simp
  then show ?thesis
    by (metis uint_nat of_nat_add of_nat_mult of_nat_numeral)
qed

lemma token_high: "uint (drop_bit 4 (mk_token ll ml)) = int (min ll 15)"
  by (simp add: drop_bit_eq_div uint_div_distrib uint_token)

lemma token_low: "uint (mk_token ll ml AND 15) = int (min ml 15)"
proof -
  have "uint (mk_token ll ml AND 15) = uint (mk_token ll ml) mod 16"
    using take_bit_eq_mask [of 4 "uint (mk_token ll ml)"]
    by (simp add: unsigned_and_eq take_bit_eq_mod mask_numeral)
  also have "\<dots> = int (min ml 15)"
    by (simp add: uint_token)
  finally show ?thesis .
qed

lemma uint_token_halves: "uint (b :: byte) = 16 * uint (drop_bit 4 b) + uint (b AND 15)"
proof -
  have "uint (b AND 15) = uint b mod 16"
    using take_bit_eq_mask [of 4 "uint b"] by (simp add: unsigned_and_eq take_bit_eq_mod mask_numeral)
  then show ?thesis by (simp add: drop_bit_eq_div uint_div_distrib)
qed

lemma token_eqI:
  assumes "uint (drop_bit 4 b) = int (min ll 15)" "uint (b AND 15) = int (min ml 15)"
  shows "b = mk_token ll ml"
proof -
  have "uint b = uint (mk_token ll ml)"
    unfolding uint_token_halves [of b] uint_token using assms by simp
  then show ?thesis by (simp only: word_uint_eq_iff)
qed

lemma token_low_less: "uint ((b :: byte) AND 15) < 16"
proof -
  have "uint (b AND 15) = uint b mod 16"
    using take_bit_eq_mask [of 4 "uint b"] by (simp add: unsigned_and_eq take_bit_eq_mod mask_numeral)
  then show ?thesis by simp
qed

end
