(* ===== verification/LZ4_Decompress.thy ===== *)
theory LZ4_Decompress
  imports LZ4_Block
begin

text \<open>
  The decompressor of \<^verbatim>\<open>lz4/lib/lz4.c\<close>: \<open>LZ4_decompress_generic\<close> with all its directives, cut
  into one definition per part of its main loop, and the functions that call it. Pointers are
  integers; \<open>None\<close> is an access outside accessible memory (or a loop that does not end).
\<close>

section \<open>The decoder\<close>

datatype endCondition_directive = endOnOutputSize | endOnInputSize
datatype earlyEnd_directive = full | partial
datatype dict_directive = noDict | withPrefix64k | usingExtDict

text \<open>The constants of one run of \<open>LZ4_decompress_generic\<close>: its parameters and constant locals.\<close>

record dec_env =
  iend :: addr
  oend :: addr
  oexit :: addr
  lowPrefix :: addr
  lowLimit :: addr
  dictEnd :: addr
  endOnInput :: bool
  partialDecoding :: bool
  dict :: dict_directive
  checkOffset :: bool

abbreviation (input) safeDecode :: "dec_env \<Rightarrow> bool" where "safeDecode e \<equiv> endOnInput e"

definition dec32table :: "int list" where "dec32table = [4, 1, 2, 1, 4, 4, 4, 4]"
definition dec64table :: "int list" where "dec64table = [0, 0, 0, -1, 0, 1, 2, 3]"

text \<open>The two length loops. The second one may jump to \<open>_output_error\<close>: \<open>Inl\<close>.\<close>

partial_function (option) LZ4_literalLength_loop ::
  "dec_env \<Rightarrow> mem \<Rightarrow> addr \<Rightarrow> int \<Rightarrow> (addr \<times> int) option" where
  "LZ4_literalLength_loop e m ip len =
     do { s \<leftarrow> m ip;
          let ip = ip + 1;
          let len = cast_u64 (len + uint s);
          if (if endOnInput e then ip < iend e - RUN_MASK else True) \<and> s = 255
          then LZ4_literalLength_loop e m ip len
          else Some (ip, len) }"

partial_function (option) LZ4_matchLength_loop ::
  "dec_env \<Rightarrow> mem \<Rightarrow> addr \<Rightarrow> int \<Rightarrow> (addr + addr \<times> int) option" where
  "LZ4_matchLength_loop e m ip len =
     (if endOnInput e \<and> ip > iend e - LASTLITERALS then Some (Inl ip)
      else do { s \<leftarrow> m ip;
                let ip = ip + 1;
                let len = cast_u64 (len + uint s);
                if s = 255 then LZ4_matchLength_loop e m ip len else Some (Inr (ip, len)) })"

text \<open>
  \<open>get literal length\<close>: the token's high half, extended if it is the maximum. \<open>Inl\<close> is a jump
  to \<open>_output_error\<close> with the current \<open>ip\<close>.
\<close>

definition LZ4_get_literalLength ::
  "dec_env \<Rightarrow> mem \<Rightarrow> addr \<Rightarrow> addr \<Rightarrow> byte \<Rightarrow> (addr + addr \<times> int) option" where
  "LZ4_get_literalLength e m ip op token =
     (let len = uint (drop_bit ML_BITS token) in
      if len = RUN_MASK
      then do { (ip, len) \<leftarrow> LZ4_literalLength_loop e m ip len;
                if safeDecode e \<and> cast_u64 (op + len) < cast_u64 op then Some (Inl ip)
                else if safeDecode e \<and> cast_u64 (ip + len) < cast_u64 ip then Some (Inl ip)
                else Some (Inr (ip, len)) }
      else Some (Inr (ip, len)))"

definition LZ4_get_matchLength ::
  "dec_env \<Rightarrow> mem \<Rightarrow> addr \<Rightarrow> addr \<Rightarrow> byte \<Rightarrow> (addr + addr \<times> int) option" where
  "LZ4_get_matchLength e m ip op token =
     (let len = uint (token AND 15) in
      if len = ML_MASK
      then do { r \<leftarrow> LZ4_matchLength_loop e m ip len;
                case r of
                  Inl ip \<Rightarrow> Some (Inl ip)
                | Inr (ip, len) \<Rightarrow>
                    if safeDecode e \<and> cast_u64 (op + len) < cast_u64 op then Some (Inl ip)
                    else Some (Inr (ip, cast_u64 (len + MINMATCH))) }
      else Some (Inr (ip, cast_u64 (len + MINMATCH))))"

text \<open>A match that starts in the external dictionary.\<close>

definition LZ4_copy_extDict :: "dec_env \<Rightarrow> mem \<Rightarrow> addr \<Rightarrow> addr \<Rightarrow> int \<Rightarrow> (mem \<times> addr) option" where
  "LZ4_copy_extDict e m op match len =
     (if len \<le> lowPrefix e - match
      then do { m \<leftarrow> memmove m op (dictEnd e - (lowPrefix e - match)) len;
                Some (m, op + len) }
      else
        let copySize = lowPrefix e - match in
        do { m \<leftarrow> memcpy m op (dictEnd e - copySize) copySize;
             let op = op + copySize;
             let copySize = len - copySize;
             if copySize > op - lowPrefix e
             then do { m \<leftarrow> LZ4_byteCopy m op (lowPrefix e) (op + copySize);
                       Some (m, op + copySize) }
             else do { m \<leftarrow> memcpy m op (lowPrefix e) copySize;
                       Some (m, op + copySize) } })"

text \<open>The first eight bytes of a match, which bring the distance to at least eight.\<close>

definition LZ4_copy_first8 :: "mem \<Rightarrow> addr \<Rightarrow> addr \<Rightarrow> (mem \<times> addr \<times> addr) option" where
  "LZ4_copy_first8 m op match =
     (if op - match < 8
      then let dec64 = dec64table ! nat (op - match) in
           do { m \<leftarrow> do { b \<leftarrow> m match; store m op b };
                m \<leftarrow> do { b \<leftarrow> m (match + 1); store m (op + 1) b };
                m \<leftarrow> do { b \<leftarrow> m (match + 2); store m (op + 2) b };
                m \<leftarrow> do { b \<leftarrow> m (match + 3); store m (op + 3) b };
                let match = match + dec32table ! nat (op - match);
                m \<leftarrow> LZ4_copy4 m (op + 4) match;
                Some (m, op + 8, match - dec64) }
      else do { m \<leftarrow> LZ4_copy8 m op match; Some (m, op + 8, match + 8) })"

text \<open>\<open>copy repeated sequence\<close>; \<open>Inl\<close> is a jump to \<open>_output_error\<close>.\<close>

definition LZ4_copy_match :: "dec_env \<Rightarrow> mem \<Rightarrow> addr \<Rightarrow> addr \<Rightarrow> int \<Rightarrow> (mem + mem) option" where
  "LZ4_copy_match e m op match len =
     (let cpy = op + len in
      do { (m, op, match) \<leftarrow> LZ4_copy_first8 m op match;
           if cpy > oend e - 12
           then if cpy > oend e - LASTLITERALS then Some (Inl m)
                else do { (m, op, match) \<leftarrow>
                            (if op < oend e - 8
                             then do { m \<leftarrow> LZ4_wildCopy m op match (oend e - 8);
                                       Some (m, oend e - 8, match + ((oend e - 8) - op)) }
                             else Some (m, op, match));
                          m \<leftarrow> LZ4_byteCopy m op match cpy;
                          Some (Inr m) }
           else do { m \<leftarrow> LZ4_wildCopy m op match cpy; Some (Inr m) } })"

text \<open>
  How one turn of the main loop ends: with the next turn, with the \<open>break\<close> after the last
  literals, or with a jump to \<open>_output_error\<close>.
\<close>

datatype dec_outcome =
    Continue mem addr addr
  | Break mem addr addr
  | Output_error mem addr

definition LZ4_last_literals ::
  "dec_env \<Rightarrow> mem \<Rightarrow> addr \<Rightarrow> addr \<Rightarrow> int \<Rightarrow> dec_outcome option" where
  "LZ4_last_literals e m ip op len =
     (let cpy = op + len in
      if (if partialDecoding e
          then cpy > oend e \<or> endOnInput e \<and> ip + len > iend e
          else \<not> endOnInput e \<and> cpy \<noteq> oend e \<or>
               endOnInput e \<and> (ip + len \<noteq> iend e \<or> cpy > oend e))
      then Some (Output_error m ip)
      else do { m \<leftarrow> memcpy m op ip len; Some (Break m (ip + len) (op + len)) })"

text \<open>The match copy, from the external dictionary or from the output itself.\<close>

definition LZ4_copy_sequence ::
  "dec_env \<Rightarrow> mem \<Rightarrow> addr \<Rightarrow> addr \<Rightarrow> addr \<Rightarrow> int \<Rightarrow> dec_outcome option" where
  "LZ4_copy_sequence e m ip op match len =
     (if dict e = usingExtDict \<and> match < lowPrefix e
      then if op + len > oend e - LASTLITERALS then Some (Output_error m ip)
           else do { (m, op) \<leftarrow> LZ4_copy_extDict e m op match len;
                     Some (Continue m ip op) }
      else do { r \<leftarrow> LZ4_copy_match e m op match len;
                case r of
                  Inl m \<Rightarrow> Some (Output_error m ip)
                | Inr m \<Rightarrow> Some (Continue m ip (op + len)) })"

text \<open>From \<open>get offset\<close> to the end of the loop body.\<close>

definition LZ4_decode_match ::
  "dec_env \<Rightarrow> mem \<Rightarrow> addr \<Rightarrow> addr \<Rightarrow> byte \<Rightarrow> dec_outcome option" where
  "LZ4_decode_match e m ip op token =
     do { offset \<leftarrow> LZ4_readLE16 m ip;
          let match = op - uint offset;
          let ip = ip + 2;
          if checkOffset e \<and> match < lowLimit e then Some (Output_error m ip)
          else do {
            r \<leftarrow> LZ4_get_matchLength e m ip op token;
            case r of
              Inl ip \<Rightarrow> Some (Output_error m ip)
            | Inr (ip, len) \<Rightarrow> LZ4_copy_sequence e m ip op match len } }"

definition LZ4_decode_sequence :: "dec_env \<Rightarrow> mem \<Rightarrow> addr \<Rightarrow> addr \<Rightarrow> dec_outcome option" where
  "LZ4_decode_sequence e m ip op =
     do { token \<leftarrow> m ip;
          r \<leftarrow> LZ4_get_literalLength e m (ip + 1) op token;
          case r of
            Inl ip \<Rightarrow> Some (Output_error m ip)
          | Inr (ip, len) \<Rightarrow>
              let cpy = op + len in
              if endOnInput e \<and> (cpy > (if partialDecoding e then oexit e else oend e - MFLIMIT) \<or>
                                   ip + len > iend e - (2 + 1 + LASTLITERALS)) \<or>
                 \<not> endOnInput e \<and> cpy > oend e - COPYLENGTH
              then LZ4_last_literals e m ip op len
              else do { m \<leftarrow> LZ4_wildCopy m op ip cpy;
                        LZ4_decode_match e m (ip + len) cpy token } }"

partial_function (option) LZ4_decode_loop :: "dec_env \<Rightarrow> mem \<Rightarrow> addr \<Rightarrow> addr \<Rightarrow> dec_outcome option" where
  "LZ4_decode_loop e m ip op =
     do { r \<leftarrow> LZ4_decode_sequence e m ip op;
          case r of
            Continue m ip op \<Rightarrow> LZ4_decode_loop e m ip op
          | Break m ip op \<Rightarrow> Some (Break m ip op)
          | Output_error m ip \<Rightarrow> Some (Output_error m ip) }"

definition dec_env_of ::
  "addr \<Rightarrow> addr \<Rightarrow> int \<Rightarrow> int \<Rightarrow> endCondition_directive \<Rightarrow> earlyEnd_directive \<Rightarrow> int \<Rightarrow>
   dict_directive \<Rightarrow> addr \<Rightarrow> addr \<Rightarrow> int \<Rightarrow> dec_env" where
  "dec_env_of source dest inputSize outputSize eoi part targetOutputSize dct lowPfx dictStart dictSize =
     (let oe = dest + outputSize;
          ox = dest + targetOutputSize
      in \<lparr>iend = source + inputSize, oend = oe,
          oexit = (if part = partial \<and> ox > oe - MFLIMIT then oe - MFLIMIT else ox),
          lowPrefix = lowPfx, lowLimit = lowPfx - dictSize, dictEnd = dictStart + dictSize,
          endOnInput = (eoi = endOnInputSize), partialDecoding = (part = partial), dict = dct,
          checkOffset = (eoi = endOnInputSize \<and> dictSize < KB64)\<rparr>)"

definition LZ4_decompress_generic ::
  "mem \<Rightarrow> addr \<Rightarrow> addr \<Rightarrow> int \<Rightarrow> int \<Rightarrow> endCondition_directive \<Rightarrow> earlyEnd_directive \<Rightarrow> int \<Rightarrow>
   dict_directive \<Rightarrow> addr \<Rightarrow> addr \<Rightarrow> int \<Rightarrow> (mem \<times> int) option" where
  "LZ4_decompress_generic m source dest inputSize outputSize eoi part targetOutputSize
       dct lowPfx dictStart dictSize =
     (let e = dec_env_of source dest inputSize outputSize eoi part targetOutputSize
                dct lowPfx dictStart dictSize in
      if endOnInput e \<and> outputSize = 0
      then if inputSize = 1 then do { b \<leftarrow> m source; Some (m, if b = 0 then 0 else -1) }
           else Some (m, -1)
      else if \<not> endOnInput e \<and> outputSize = 0
      then do { b \<leftarrow> m source; Some (m, if b = 0 then 1 else -1) }
      else do { r \<leftarrow> LZ4_decode_loop e m source dest;
                case r of
                  Break m ip op \<Rightarrow>
                    Some (m, if endOnInput e then cast_int (op - dest) else cast_int (ip - source))
                | Output_error m ip \<Rightarrow> Some (m, cast_int (- (ip - source)) - 1)
                | Continue m ip op \<Rightarrow> None })"

section \<open>Entry points\<close>

definition LZ4_decompress_safe :: "mem \<Rightarrow> addr \<Rightarrow> addr \<Rightarrow> int \<Rightarrow> int \<Rightarrow> (mem \<times> int) option" where
  "LZ4_decompress_safe m source dest compressedSize maxDecompressedSize =
     LZ4_decompress_generic m source dest compressedSize maxDecompressedSize
       endOnInputSize full 0 noDict dest 0 0"

definition LZ4_decompress_safe_partial ::
  "mem \<Rightarrow> addr \<Rightarrow> addr \<Rightarrow> int \<Rightarrow> int \<Rightarrow> int \<Rightarrow> (mem \<times> int) option" where
  "LZ4_decompress_safe_partial m source dest compressedSize targetOutputSize maxDecompressedSize =
     LZ4_decompress_generic m source dest compressedSize maxDecompressedSize
       endOnInputSize partial targetOutputSize noDict dest 0 0"

definition LZ4_decompress_fast :: "mem \<Rightarrow> addr \<Rightarrow> addr \<Rightarrow> int \<Rightarrow> (mem \<times> int) option" where
  "LZ4_decompress_fast m source dest originalSize =
     LZ4_decompress_generic m source dest 0 originalSize
       endOnOutputSize full 0 withPrefix64k (dest - KB64) 0 KB64"

definition LZ4_decompress_usingDict_generic ::
  "mem \<Rightarrow> addr \<Rightarrow> addr \<Rightarrow> int \<Rightarrow> int \<Rightarrow> endCondition_directive \<Rightarrow> addr \<Rightarrow> int \<Rightarrow> (mem \<times> int) option" where
  "LZ4_decompress_usingDict_generic m source dest compressedSize maxOutputSize safe dictStart dictSize =
     (if dictSize = 0
      then LZ4_decompress_generic m source dest compressedSize maxOutputSize safe full 0
             noDict dest 0 0
      else if dictStart + dictSize = dest
      then if dictSize \<ge> KB64 - 1
           then LZ4_decompress_generic m source dest compressedSize maxOutputSize safe full 0
                  withPrefix64k (dest - KB64) 0 0
           else LZ4_decompress_generic m source dest compressedSize maxOutputSize safe full 0
                  noDict (dest - dictSize) 0 0
      else LZ4_decompress_generic m source dest compressedSize maxOutputSize safe full 0
             usingExtDict dest dictStart dictSize)"

definition LZ4_decompress_safe_usingDict ::
  "mem \<Rightarrow> addr \<Rightarrow> addr \<Rightarrow> int \<Rightarrow> int \<Rightarrow> addr \<Rightarrow> int \<Rightarrow> (mem \<times> int) option" where
  "LZ4_decompress_safe_usingDict m source dest compressedSize maxOutputSize dictStart dictSize =
     LZ4_decompress_usingDict_generic m source dest compressedSize maxOutputSize
       endOnInputSize dictStart dictSize"

definition LZ4_decompress_fast_usingDict ::
  "mem \<Rightarrow> addr \<Rightarrow> addr \<Rightarrow> int \<Rightarrow> addr \<Rightarrow> int \<Rightarrow> (mem \<times> int) option" where
  "LZ4_decompress_fast_usingDict m source dest originalSize dictStart dictSize =
     LZ4_decompress_usingDict_generic m source dest 0 originalSize
       endOnOutputSize dictStart dictSize"

definition LZ4_decompress_safe_forceExtDict ::
  "mem \<Rightarrow> addr \<Rightarrow> addr \<Rightarrow> int \<Rightarrow> int \<Rightarrow> addr \<Rightarrow> int \<Rightarrow> (mem \<times> int) option" where
  "LZ4_decompress_safe_forceExtDict m source dest compressedSize maxOutputSize dictStart dictSize =
     LZ4_decompress_generic m source dest compressedSize maxOutputSize endOnInputSize full 0
       usingExtDict dest dictStart dictSize"

definition LZ4_decompress_safe_withPrefix64k ::
  "mem \<Rightarrow> addr \<Rightarrow> addr \<Rightarrow> int \<Rightarrow> int \<Rightarrow> (mem \<times> int) option" where
  "LZ4_decompress_safe_withPrefix64k m source dest compressedSize maxOutputSize =
     LZ4_decompress_generic m source dest compressedSize maxOutputSize
       endOnInputSize full 0 withPrefix64k (dest - KB64) 0 KB64"

definition LZ4_decompress_fast_withPrefix64k ::
  "mem \<Rightarrow> addr \<Rightarrow> addr \<Rightarrow> int \<Rightarrow> (mem \<times> int) option" where
  "LZ4_decompress_fast_withPrefix64k m source dest originalSize =
     LZ4_decompress_generic m source dest 0 originalSize
       endOnOutputSize full 0 withPrefix64k (dest - KB64) 0 KB64"

declare LZ4_literalLength_loop.simps [code] LZ4_matchLength_loop.simps [code] LZ4_decode_loop.simps [code]

end
