(* ===== verification/LZ4_Match_Copy.thy ===== *)
theory LZ4_Match_Copy
  imports LZ4_Decompress
begin

text \<open>
  What the copies of the decoder do to memory: \<open>LZ4_copy_first8\<close>, \<open>LZ4_copy_match\<close> and
  \<open>LZ4_copy_extDict\<close> of \<open>LZ4_Decompress\<close> repeat the bytes at the given distance, for every
  distance and length, and stay inside the output buffer.
\<close>

section \<open>Repeating memory\<close>

definition repeats :: "mem \<Rightarrow> int \<Rightarrow> addr \<Rightarrow> addr \<Rightarrow> bool" where
  "repeats m off lo hi \<longleftrightarrow> (\<forall>i. lo \<le> i \<and> i < hi \<longrightarrow> m i = m (lo - off + (i - lo) mod off))"

lemma repeats_empty [simp]: "repeats m off lo lo"
  by (auto simp: repeats_def)

lemma repeatsD: "repeats m off lo hi \<Longrightarrow> lo \<le> i \<Longrightarrow> i < hi \<Longrightarrow> m i = m (lo - off + (i - lo) mod off)"
  by (simp add: repeats_def)

lemma repeats_subset: "repeats m off lo hi \<Longrightarrow> hi' \<le> hi \<Longrightarrow> repeats m off lo hi'"
  by (auto simp: repeats_def)

text \<open>The bytes before \<open>lo\<close> that are repeated satisfy the same equation.\<close>

lemma repeats_before:
  fixes off :: int
  assumes "lo - off \<le> i" "i < lo"
  shows "lo - off + (i - lo) mod off = i"
proof -
  have "(i - lo) mod off = (i - lo + off) mod off" by simp
  also have "\<dots> = i - lo + off" using assms by (intro mod_pos_pos_trivial) auto
  finally show ?thesis by simp
qed

lemma repeats_cong:
  assumes "repeats m off lo hi" "\<And>i. lo - off \<le> i \<Longrightarrow> i < hi \<Longrightarrow> m' i = m i" "0 < off"
  shows "repeats m' off lo hi"
  unfolding repeats_def
proof (intro allI impI)
  fix i assume i: "lo \<le> i \<and> i < hi"
  have "0 \<le> (i - lo) mod off" "(i - lo) mod off < off" using assms(3) by simp_all
  then have "m' (lo - off + (i - lo) mod off) = m (lo - off + (i - lo) mod off)"
    using i by (intro assms(2)) linarith+
  moreover have "m' i = m i" using i assms(3) by (intro assms(2)) linarith+
  ultimately show "m' i = m' (lo - off + (i - lo) mod off)"
    using repeatsD [OF assms(1)] i by simp
qed

text \<open>Copying from a distance that is a multiple of the period continues the repetition.\<close>

lemma repeats_extend:
  assumes rep: "repeats m off lo x" and ext: "\<forall>i. x \<le> i \<and> i < y \<longrightarrow> m i = m (i - D)"
    and D: "off dvd D" "0 < D" "lo - off \<le> x - D" and lo: "0 \<le> off"
  shows "repeats m off lo y"
proof -
  have "m i = m (lo - off + (i - lo) mod off)" if "lo - off \<le> i" "i < y" for i
    using that
  proof (induction "nat (i - (lo - off))" arbitrary: i rule: less_induct)
    case less
    consider "i < lo" | "lo \<le> i" "i < x" | "x \<le> i" by linarith
    then show ?case
    proof cases
      case 1
      then show ?thesis using repeats_before [of lo off i] less.prems by simp
    next
      case 2
      then show ?thesis using rep by (simp add: repeats_def)
    next
      case 3
      have "m i = m (i - D)" using 3 less.prems ext by simp
      also have "\<dots> = m (lo - off + (i - D - lo) mod off)"
        using 3 D less.prems by (intro less.hyps) auto
      also have "(i - D - lo) mod off = (i - lo) mod off"
      proof -
        obtain c where "D = off * c" using D(1) by (auto elim: dvdE)
        then have "i - D - lo = i - lo + (- c) * off" by (simp add: algebra_simps)
        then show ?thesis by (simp only: mod_mult_self1)
      qed
      finally show ?thesis .
    qed
  qed
  moreover have "lo - off \<le> lo" using D lo by linarith
  ultimately show ?thesis by (simp add: repeats_def)
qed

section \<open>The first eight bytes\<close>

lemma LZ4_copy_first4:
  assumes "mapped m op (op + 4)" "mapped m (op - off) (op - off + 4)"
  shows "\<exists>m'. do { m \<leftarrow> do { b \<leftarrow> m (op - off); store m op b };
                m \<leftarrow> do { b \<leftarrow> m (op - off + 1); store m (op + 1) b };
                m \<leftarrow> do { b \<leftarrow> m (op - off + 2); store m (op + 2) b };
                do { b \<leftarrow> m (op - off + 3); store m (op + 3) b } } = Some m' \<and>
    same_dom m m' \<and> same_outside m m' op (op + 4) \<and>
    (1 \<le> off \<longrightarrow> (\<forall>i. op \<le> i \<and> i < op + 4 \<longrightarrow> m' i = m' (i - off)))"
proof -
  obtain m' where m': "LZ4_byteCopy m op (op - off) (op + 4) = Some m'"
    "same_dom m m'" "same_outside m m' op (op + 4)"
    "1 \<le> off \<longrightarrow> (\<forall>i. op \<le> i \<and> i < op + 4 \<longrightarrow> m' i = m' (i - off))"
    using LZ4_byteCopy_spec [of m op "op + 4" off] assms by (auto simp: algebra_simps)
  show ?thesis
    using m' by (auto simp: LZ4_byteCopy.simps [of _ _ _ "op + 4"] bind_eq_Some_conv add.assoc)
qed

text \<open>The distance at which the copy goes on after the first eight bytes.\<close>

definition next_dist :: "int \<Rightarrow> int" where
  "next_dist off = (if off < 8 then off + 8 - dec32table ! nat off + dec64table ! nat off else off)"

lemma small_offset_cases:
  fixes off :: int
  assumes "0 \<le> off" "off < 8"
  obtains "off = 0" | "off = 1" | "off = 2" | "off = 3" | "off = 4" | "off = 5" | "off = 6" | "off = 7"
  using assms by linarith

lemma next_dist:
  assumes "0 < off"
  shows "off dvd next_dist off" "8 \<le> next_dist off" "next_dist off \<le> off + 8"
proof -
  have "off dvd next_dist off \<and> 8 \<le> next_dist off \<and> next_dist off \<le> off + 8"
  proof (cases "off < 8")
    case True
    with assms have "0 \<le> off" "off < 8" by simp_all
    then show ?thesis
      using assms
      by (cases rule: small_offset_cases) (simp_all add: next_dist_def dec32table_def dec64table_def)
  qed (use assms in \<open>simp add: next_dist_def\<close>)
  then show "off dvd next_dist off" "8 \<le> next_dist off" "next_dist off \<le> off + 8" by auto
qed

lemma next_dist_0: "next_dist 0 = 4"
  by (simp add: next_dist_def dec32table_def dec64table_def)

lemma dec32table_dist:
  assumes "0 \<le> off" "off < 8"
  defines "D \<equiv> 4 + off - dec32table ! nat off"
  shows "off dvd D \<or> off = 0" "0 \<le> D" "off = 0 \<or> 4 \<le> D" "D \<le> off + 4"
  using assms(1,2)
  by (cases rule: small_offset_cases; simp add: D_def dec32table_def)+

lemma LZ4_copy_first8_near:
  assumes off: "0 \<le> off" "off < 8" and map: "mapped m op (op + 8)" "mapped m (op - off) (op + 8)"
  shows "\<exists>m'. LZ4_copy_first8 m op (op - off) = Some (m', op + 8, op + 8 - next_dist off) \<and>
    same_dom m m' \<and> same_outside m m' op (op + 8) \<and> (1 \<le> off \<longrightarrow> repeats m' off op (op + 8))"
proof -
  define D where "D = 4 + off - dec32table ! nat off"
  note D = dec32table_dist [OF off, folded D_def]
  have "mapped m op (op + 4)" "mapped m (op - off) (op - off + 4)"
    using off by (auto intro: mapped_subset [OF map(1)] mapped_subset [OF map(2)])
  from LZ4_copy_first4 [OF this] obtain m1 where
    m1: "do { m \<leftarrow> do { b \<leftarrow> m (op - off); store m op b };
              m \<leftarrow> do { b \<leftarrow> m (op - off + 1); store m (op + 1) b };
              m \<leftarrow> do { b \<leftarrow> m (op - off + 2); store m (op + 2) b };
              do { b \<leftarrow> m (op - off + 3); store m (op + 3) b } } = Some m1"
    and dom1: "same_dom m m1" and out1: "same_outside m m1 op (op + 4)"
    and rep1: "1 \<le> off \<longrightarrow> (\<forall>i. op \<le> i \<and> i < op + 4 \<longrightarrow> m1 i = m1 (i - off))"
    by blast
  define m2 where "m2 = copied m1 (op + 4) (op + 4 - D) 4"
  have map1: "mapped m1 (op + 4) (op + 4 + 4)" "mapped m1 (op + 4 - D) (op + 4 - D + 4)"
    unfolding mapped_same_dom [OF dom1] using D
    by (auto intro: mapped_subset [OF map(1)] mapped_subset [OF map(2)])
  have c4: "LZ4_copy4 m1 (op + 4) (op - off + dec32table ! nat off) = Some m2"
  proof -
    have eq: "op - off + dec32table ! nat off = op + 4 - D" by (simp add: D_def)
    show ?thesis
      unfolding eq LZ4_copy4_def m2_def by (rule memmove_mapped [OF _ map1(2,1)]) simp
  qed
  have "LZ4_copy_first8 m op (op - off) =
      do { m \<leftarrow> do { m \<leftarrow> do { b \<leftarrow> m (op - off); store m op b };
              m \<leftarrow> do { b \<leftarrow> m (op - off + 1); store m (op + 1) b };
              m \<leftarrow> do { b \<leftarrow> m (op - off + 2); store m (op + 2) b };
              do { b \<leftarrow> m (op - off + 3); store m (op + 3) b } };
           m \<leftarrow> LZ4_copy4 m (op + 4) (op - off + dec32table ! nat off);
           Some (m, op + 8, op - off + dec32table ! nat off - dec64table ! nat off) }"
    using off by (simp add: LZ4_copy_first8_def Let_def)
  also have "\<dots> = Some (m2, op + 8, op + 8 - next_dist off)"
    unfolding m1 using c4 off by (simp add: next_dist_def)
  finally have run: "LZ4_copy_first8 m op (op - off) = Some (m2, op + 8, op + 8 - next_dist off)" .
  have dom2: "same_dom m1 m2" unfolding m2_def by (rule same_dom_copied [OF map1(2,1)])
  have out2: "same_outside m1 m2 (op + 4) (op + 8)"
    unfolding m2_def by (rule same_outside_mono [OF same_outside_copied]) simp_all
  have rep2: "repeats m2 off op (op + 8)" if "1 \<le> off"
  proof (rule repeats_extend)
    have "repeats m1 off op (op + 4)"
      using rep1 that by (intro repeats_extend [of m1 off op op _ off, OF repeats_empty]) auto
    then show "repeats m2 off op (op + 4)"
      by (rule repeats_cong) (use that in \<open>auto simp: same_outsideD [OF out2]\<close>)
    show "\<forall>i. op + 4 \<le> i \<and> i < op + 8 \<longrightarrow> m2 i = m2 (i - D)"
      using D(3) that by (auto simp: m2_def copied_def)
    show "off dvd D" "0 < D" "op - off \<le> op + 4 - D" "0 \<le> off"
      using D that by auto
  qed
  have "same_outside m m2 op (op + 8)"
    by (rule same_outside_union [OF out1 out2]) simp_all
  then show ?thesis
    using run same_dom_trans [OF dom1 dom2] rep2 by blast
qed

lemma LZ4_copy_first8_spec:
  assumes off: "0 \<le> off" and map: "mapped m op (op + 8)" "mapped m (op - off) (op + 8)"
  shows "\<exists>m'. LZ4_copy_first8 m op (op - off) = Some (m', op + 8, op + 8 - next_dist off) \<and>
    same_dom m m' \<and> same_outside m m' op (op + 8) \<and> (1 \<le> off \<longrightarrow> repeats m' off op (op + 8))"
proof (cases "off < 8")
  case True
  then show ?thesis using LZ4_copy_first8_near assms by simp
next
  case False
  have src: "mapped m (op - off) (op - off + 8)"
    by (rule mapped_subset [OF map(2)]) (use off in auto)
  let ?m = "copied m op (op - off) 8"
  have "LZ4_copy_first8 m op (op - off) = Some (?m, op + 8, op + 8 - next_dist off)"
    using False src map(1)
    by (simp add: LZ4_copy_first8_def LZ4_copy8_def mem_simps next_dist_def)
  moreover have "same_dom m ?m" using src map(1) by (rule same_dom_copied)
  moreover have "repeats ?m off op (op + 8)"
    using False by (intro repeats_extend [of _ off op op _ off, OF repeats_empty]) (auto simp: copied_def)
  ultimately show ?thesis
    using same_outside_copied [of m op "op - off" 8] by blast
qed

section \<open>The rest of a match\<close>

text \<open>One wild copy or byte copy that continues a repetition, at the distance \<open>next_dist off\<close>.\<close>

definition continues :: "mem \<Rightarrow> mem \<Rightarrow> int \<Rightarrow> addr \<Rightarrow> addr \<Rightarrow> addr \<Rightarrow> addr \<Rightarrow> bool" where
  "continues m m' off op d x hi \<longleftrightarrow> same_dom m m' \<and> same_outside m m' d hi \<and>
     (1 \<le> off \<and> repeats m off op d \<longrightarrow> repeats m' off op x)"

lemma next_dist_bounds:
  assumes "0 \<le> off"
  shows "0 < next_dist off" "next_dist off \<le> off + 8"
  using next_dist [of off] next_dist_0 assms by (cases "off = 0"; force)+

lemma continuesI:
  assumes "same_dom m m'" "same_outside m m' d hi" "0 \<le> off" "op + 8 \<le> d"
    and "1 \<le> off \<Longrightarrow> \<forall>i. d \<le> i \<and> i < x \<longrightarrow> m' i = m' (i - next_dist off)"
  shows "continues m m' off op d x hi"
proof -
  have "repeats m' off op x" if "1 \<le> off" "repeats m off op d"
  proof (rule repeats_extend)
    show "repeats m' off op d"
      using that(2) by (rule repeats_cong) (use that(1) in \<open>auto simp: same_outsideD [OF assms(2)]\<close>)
    show "\<forall>i. d \<le> i \<and> i < x \<longrightarrow> m' i = m' (i - next_dist off)"
      using assms(5) that(1) .
    show "off dvd next_dist off" "0 < next_dist off" "op - off \<le> d - next_dist off" "0 \<le> off"
      using next_dist [of off] that(1) assms(4) by auto
  qed
  with assms(1,2) show ?thesis by (simp add: continues_def)
qed

lemma wildCopy_continues:
  assumes map: "mapped m (op - off) hi" and off: "0 \<le> off" and d: "op + 8 \<le> d" "d + 8 \<le> hi" "x + 7 \<le> hi"
  shows "\<exists>m'. LZ4_wildCopy m d (d - next_dist off) x = Some m' \<and> continues m m' off op d x hi"
proof -
  have map': "mapped m d (max (d + 8) (x + 7))"
    "mapped m (d - next_dist off) (max (d + 8) (x + 7) - next_dist off)"
    using next_dist_bounds [OF off] off d by (auto intro!: mapped_subset [OF map])
  from LZ4_wildCopy_spec [OF this] obtain m' K where
    m': "LZ4_wildCopy m d (d - next_dist off) x = Some m'" "8 \<le> K" "x \<le> d + K"
      "d + K \<le> max (d + 8) (x + 7)" "same_dom m m'" "same_outside m m' d (d + K)"
      "8 \<le> next_dist off \<or> K \<le> - next_dist off \<longrightarrow>
        (\<forall>i. d \<le> i \<and> i < d + K \<longrightarrow> m' i = m' (i - next_dist off))"
    by blast
  have out: "same_outside m m' d hi"
    using m'(4) d by (intro same_outside_mono [OF m'(6)]) auto
  have rep: "\<forall>i. d \<le> i \<and> i < x \<longrightarrow> m' i = m' (i - next_dist off)" if "1 \<le> off"
    using m'(3,7) next_dist(2) [of off] that by auto
  show ?thesis
    using m'(1) continuesI [OF m'(5) out off d(1) rep] by blast
qed

lemma byteCopy_continues:
  assumes map: "mapped m (op - off) hi" and off: "0 \<le> off" and d: "op + 8 \<le> d" "x \<le> hi"
  shows "\<exists>m'. LZ4_byteCopy m d (d - next_dist off) x = Some m' \<and> continues m m' off op d x hi"
proof -
  have "mapped m d x" "mapped m (d - next_dist off) (x - next_dist off)"
    using next_dist_bounds [OF off] off d by (auto intro!: mapped_subset [OF map])
  from LZ4_byteCopy_spec [OF this] obtain m' where
    m': "LZ4_byteCopy m d (d - next_dist off) x = Some m'" "same_dom m m'" "same_outside m m' d x"
      "1 \<le> next_dist off \<longrightarrow> (\<forall>i. d \<le> i \<and> i < x \<longrightarrow> m' i = m' (i - next_dist off))"
    by blast
  have out: "same_outside m m' d hi"
    using d by (intro same_outside_mono [OF m'(3)]) auto
  have rep: "\<forall>i. d \<le> i \<and> i < x \<longrightarrow> m' i = m' (i - next_dist off)" if "1 \<le> off"
    using m'(4) next_dist_bounds(1) [OF off] by auto
  show ?thesis
    using m'(1) continuesI [OF m'(2) out off d(1) rep] by blast
qed

text \<open>What \<open>LZ4_copy_match\<close> leaves behind.\<close>

definition match_copied :: "mem \<Rightarrow> mem \<Rightarrow> int \<Rightarrow> addr \<Rightarrow> int \<Rightarrow> addr \<Rightarrow> bool" where
  "match_copied m m' off op len hi \<longleftrightarrow> same_dom m m' \<and> same_outside m m' op hi \<and>
     (1 \<le> off \<longrightarrow> repeats m' off op (op + len))"

lemma match_copiedI:
  assumes "same_dom m m1" "same_outside m m1 op (op + 8)" "1 \<le> off \<longrightarrow> repeats m1 off op (op + 8)"
    and "continues m1 m2 off op (op + 8) (op + len) hi" "op + 8 \<le> hi"
  shows "match_copied m m2 off op len hi"
proof -
  have "same_outside m1 m2 (op + 8) hi" using assms(4) by (simp add: continues_def)
  then have "same_outside m m2 op hi"
    by (rule same_outside_union [OF assms(2)]) (use assms(5) in auto)
  moreover have "same_dom m m2"
    using assms(1,4) by (auto simp: continues_def intro: same_dom_trans)
  ultimately show ?thesis
    using assms(3,4) by (simp add: continues_def match_copied_def)
qed

lemma continues_trans:
  assumes "continues m1 m2 off op d d2 hi" "continues m2 m3 off op d2 x hi" "d \<le> d2"
  shows "continues m1 m3 off op d x hi"
proof -
  have "same_outside m1 m3 d hi"
    by (rule same_outside_union [of m1 m2 d hi m3 d2 hi]) (use assms in \<open>auto simp: continues_def\<close>)
  then show ?thesis
    using assms by (auto simp: continues_def intro: same_dom_trans)
qed

lemma LZ4_copy_match_tail:
  assumes map: "mapped m (op - off) hi" and off: "0 \<le> off" and cpy: "cpy \<le> hi - 5"
    and op: "op + 8 \<le> hi"
  shows "\<exists>m'. do { (m, op, match) \<leftarrow>
                 (if op + 8 < hi - 8
                  then do { m \<leftarrow> LZ4_wildCopy m (op + 8) (op + 8 - next_dist off) (hi - 8);
                            Some (m, hi - 8, op + 8 - next_dist off + ((hi - 8) - (op + 8))) }
                  else Some (m, op + 8, op + 8 - next_dist off));
               LZ4_byteCopy m op match cpy } = Some m' \<and>
    continues m m' off op (op + 8) cpy hi"
proof (cases "op + 8 < hi - 8")
  case True
  then obtain m1 where m1: "LZ4_wildCopy m (op + 8) (op + 8 - next_dist off) (hi - 8) = Some m1"
    "continues m m1 off op (op + 8) (hi - 8) hi"
    using wildCopy_continues [OF map off, of "op + 8" "hi - 8"] by auto
  then have "mapped m1 (op - off) hi"
    using map by (auto simp: continues_def intro: mapped_dom)
  from byteCopy_continues [OF this off, of "hi - 8" cpy]
  obtain m2 where m2: "LZ4_byteCopy m1 (hi - 8) (hi - 8 - next_dist off) cpy = Some m2"
    "continues m1 m2 off op (hi - 8) cpy hi"
    using True cpy by auto
  have "LZ4_byteCopy m1 (hi - 8) (hi - next_dist off - 8) cpy = Some m2"
    using m2(1) by (metis diff_right_commute)
  then show ?thesis
    using True m1(1) continues_trans [OF m1(2) m2(2)] by simp
next
  case False
  then show ?thesis
    using byteCopy_continues [OF map off, of "op + 8" cpy] cpy op by simp
qed

lemma LZ4_copy_match_spec:
  assumes off: "0 \<le> off" and len: "4 \<le> len" and op: "op + 8 \<le> oend e"
    and map: "mapped m (op - off) (oend e)"
  shows "if oend e - 5 < op + len
    then \<exists>m'. LZ4_copy_match e m op (op - off) len = Some (Inl m') \<and>
           same_dom m m' \<and> same_outside m m' op (oend e)
    else \<exists>m'. LZ4_copy_match e m op (op - off) len = Some (Inr m') \<and>
           match_copied m m' off op len (oend e)"
proof -
  have "mapped m op (op + 8)" "mapped m (op - off) (op + 8)"
    using off op by (auto intro: mapped_subset [OF map])
  from LZ4_copy_first8_spec [OF off this] obtain m1 where
    m1: "LZ4_copy_first8 m op (op - off) = Some (m1, op + 8, op + 8 - next_dist off)"
    "same_dom m m1" "same_outside m m1 op (op + 8)" "1 \<le> off \<longrightarrow> repeats m1 off op (op + 8)"
    by blast
  have map1: "mapped m1 (op - off) (oend e)"
    using map m1(2) by (rule mapped_dom)
  note finish = match_copiedI [OF m1(2,3,4) _ op]
  consider "oend e - 5 < op + len" | "op + len \<le> oend e - 5" "oend e - 12 < op + len"
    | "op + len \<le> oend e - 12" by linarith
  then show ?thesis
  proof cases
    case 1
    then have "LZ4_copy_match e m op (op - off) len = Some (Inl m1)"
      using m1(1) by (simp add: LZ4_copy_match_def)
    then show ?thesis
      using 1 m1(2) op by (auto intro: same_outside_mono [OF m1(3)])
  next
    case 2
    define cpy where "cpy = op + len"
    from LZ4_copy_match_tail [OF map1 off 2(1) op, folded cpy_def] obtain m2 where
      m2: "do { (m, op, match) \<leftarrow>
                 (if op + 8 < oend e - 8
                  then do { m \<leftarrow> LZ4_wildCopy m1 (op + 8) (op + 8 - next_dist off) (oend e - 8);
                            Some (m, oend e - 8, op + 8 - next_dist off + ((oend e - 8) - (op + 8))) }
                  else Some (m1, op + 8, op + 8 - next_dist off));
               LZ4_byteCopy m op match cpy } = Some m2"
      "continues m1 m2 off op (op + 8) cpy (oend e)"
      by blast
    have "LZ4_copy_match e m op (op - off) len =
        do { m \<leftarrow> do { (m, op, match) \<leftarrow>
                 (if op + 8 < oend e - 8
                  then do { m \<leftarrow> LZ4_wildCopy m1 (op + 8) (op + 8 - next_dist off) (oend e - 8);
                            Some (m, oend e - 8, op + 8 - next_dist off + ((oend e - 8) - (op + 8))) }
                  else Some (m1, op + 8, op + 8 - next_dist off));
               LZ4_byteCopy m op match cpy };
             Some (Inr m) }"
      using m1(1) 2 unfolding LZ4_copy_match_def Let_def cpy_def [symmetric]
      by (simp add: cpy_def [symmetric] split_def)
    then have "LZ4_copy_match e m op (op - off) len = Some (Inr m2)"
      by (simp only: m2(1)) simp
    then show ?thesis using 2 finish [OF m2(2) [unfolded cpy_def]] by simp
  next
    case 3
    then obtain m2 where "LZ4_wildCopy m1 (op + 8) (op + 8 - next_dist off) (op + len) = Some m2"
      "continues m1 m2 off op (op + 8) (op + len) (oend e)"
      using wildCopy_continues [OF map1 off, of "op + 8" "op + len"] len by auto
    then show ?thesis
      using 3 m1(1) finish by (simp add: LZ4_copy_match_def)
  qed
qed

section \<open>Matches and the external dictionary\<close>

text \<open>
  The history a match refers to: the bytes before \<open>op\<close> down to \<open>lowPrefix\<close>, and before those
  the external dictionary, if there is one.
\<close>

definition vread :: "dec_env \<Rightarrow> mem \<Rightarrow> addr \<Rightarrow> byte option" where
  "vread e m a =
     (if dict e = usingExtDict \<and> a < lowPrefix e then m (dictEnd e - (lowPrefix e - a)) else m a)"

definition match_result :: "dec_env \<Rightarrow> mem \<Rightarrow> mem \<Rightarrow> int \<Rightarrow> addr \<Rightarrow> int \<Rightarrow> bool" where
  "match_result e m m' off op len \<longleftrightarrow>
     (\<forall>k. 0 \<le> k \<and> k < len \<longrightarrow> m' (op + k) = vread e m (op - off + k mod off))"

lemma match_copied_result:
  assumes "match_copied m m' off op len hi" "1 \<le> off" "dict e = usingExtDict \<longrightarrow> lowPrefix e \<le> op - off"
  shows "match_result e m m' off op len"
  unfolding match_result_def
proof (intro allI impI)
  fix k assume k: "0 \<le> k \<and> k < len"
  have range: "0 \<le> k mod off" "k mod off < off" using assms(2) by simp_all
  have "m' (op + k) = m' (op - off + (op + k - op) mod off)"
    using assms(1,2) k by (intro repeatsD) (auto simp: match_copied_def)
  also have "\<dots> = m (op - off + k mod off)"
    using assms(1) range by (simp add: match_copied_def same_outside_def)
  also have "\<dots> = vread e m (op - off + k mod off)"
    using assms(3) range by (auto simp: vread_def)
  finally show "m' (op + k) = vread e m (op - off + k mod off)" .
qed

text \<open>Filling the head of a match from the dictionary and the rest at distance \<open>off\<close>.\<close>

lemma split_match_result:
  assumes off: "0 < off" and c: "lowPrefix e - (op - off) = c" "0 \<le> c" "lowPrefix e \<le> op"
    and dict: "dict e = usingExtDict" and out: "same_outside m m' op hi"
    and head: "\<And>k. 0 \<le> k \<Longrightarrow> k < c \<Longrightarrow> k < len \<Longrightarrow> m' (op + k) = m (dictEnd e - c + k)"
    and rest: "\<And>k. c \<le> k \<Longrightarrow> k < len \<Longrightarrow> m' (op + k) = m' (op + k - off)"
  shows "match_result e m m' off op len"
proof -
  have "m' (op + k) = vread e m (op - off + k mod off)" if "0 \<le> k" "k < len" for k
    using that
  proof (induction "nat k" arbitrary: k rule: less_induct)
    case less
    consider "k < c" | "c \<le> k" "k < off" | "c \<le> k" "off \<le> k" by linarith
    then show ?case
    proof cases
      case 1
      then have "op - off + k < lowPrefix e" "k mod off = k" using c less.prems by simp_all
      moreover have "dictEnd e - (lowPrefix e - (op - off + k)) = dictEnd e - c + k" using c by simp
      ultimately have "vread e m (op - off + k mod off) = m (dictEnd e - c + k)"
        using dict by (simp only: vread_def) simp
      then show ?thesis using head 1 less.prems by simp
    next
      case 2
      then have "m' (op + k) = m' (op + k - off)" using rest less.prems by simp
      also have "\<dots> = m (op + k - off)" using 2 by (simp add: same_outsideD [OF out])
      finally show ?thesis
        using 2 less.prems c by (simp add: vread_def algebra_simps)
    next
      case 3
      then have "m' (op + k) = m' (op + (k - off))"
        using rest [of k] less.prems by (simp add: algebra_simps)
      also have "\<dots> = vread e m (op - off + (k - off) mod off)"
        using 3 less.prems off by (intro less.hyps) auto
      finally show ?thesis by simp
    qed
  qed
  then show ?thesis by (simp add: match_result_def)
qed

lemma LZ4_copy_extDict_tail:
  assumes off: "0 < off" and map: "mapped m (d - off) hi" and hi: "hi = d + n" "0 \<le> n"
  shows "\<exists>m'. (if n > off then LZ4_byteCopy m d (d - off) hi else memcpy m d (d - off) n) = Some m' \<and>
    same_dom m m' \<and> same_outside m m' d hi \<and> (\<forall>i. d \<le> i \<and> i < hi \<longrightarrow> m' i = m' (i - off))"
proof (cases "n > off")
  case True
  have "mapped m d hi" "mapped m (d - off) (hi - off)"
    using off by (auto intro: mapped_subset [OF map])
  from LZ4_byteCopy_spec [OF this] True off show ?thesis by auto
next
  case False
  have src: "mapped m (d - off) (d - off + n)" and dst: "mapped m d (d + n)"
    using off hi by (auto intro: mapped_subset [OF map])
  let ?m = "copied m d (d - off) n"
  have "memcpy m d (d - off) n = Some ?m"
    using src dst hi by (simp add: mem_simps)
  moreover have "\<forall>i. d \<le> i \<and> i < hi \<longrightarrow> ?m i = ?m (i - off)"
    using False hi by (auto simp: copied_def)
  ultimately show ?thesis
    using False same_dom_copied [OF src dst] same_outside_copied [of m d "d - off" n] hi by auto
qed

lemma LZ4_copy_extDict_spec:
  assumes dict: "dict e = usingExtDict" and low: "op - off < lowPrefix e" "lowPrefix e \<le> op"
    and len: "0 \<le> len" and map: "mapped m (lowPrefix e) (op + len)"
    and mapd: "mapped m (dictEnd e - (lowPrefix e - (op - off))) (dictEnd e)"
  shows "\<exists>m'. LZ4_copy_extDict e m op (op - off) len = Some (m', op + len) \<and>
    same_dom m m' \<and> same_outside m m' op (op + len) \<and> match_result e m m' off op len"
proof -
  define c where "c = lowPrefix e - (op - off)"
  have c: "0 < c" "c \<le> off" "0 < off" "lowPrefix e - (op - off) = c"
    using low by (simp_all add: c_def)
  define n where "n = min len c"
  have src: "mapped m (dictEnd e - c) (dictEnd e - c + n)"
    using c(4) by (intro mapped_subset [OF mapd]) (auto simp: n_def)
  have dst: "mapped m op (op + n)"
    using low by (intro mapped_subset [OF map]) (auto simp: n_def)
  let ?m = "copied m op (dictEnd e - c) n"
  have head: "memcpy m op (dictEnd e - c) n = Some ?m"
    using src dst c len by (simp add: mem_simps n_def)
  have dom: "same_dom m ?m" by (rule same_dom_copied [OF src dst])
  have out: "same_outside m ?m op (op + n)" by (rule same_outside_copied)
  have headv: "?m (op + k) = m (dictEnd e - c + k)" if "0 \<le> k" "k < n" for k
    using that by (simp add: copied_def algebra_simps)
  show ?thesis
  proof (cases "len \<le> c")
    case True
    then have [simp]: "n = len" by (simp add: n_def)
    have "LZ4_copy_extDict e m op (op - off) len = Some (?m, op + len)"
      using True head by (simp add: LZ4_copy_extDict_def c)
    moreover have "match_result e m ?m off op len"
      using c low dict headv True by (intro split_match_result [OF _ c(4) _ _ _ out]) auto
    ultimately show ?thesis using dom out by auto
  next
    case False
    then have [simp]: "n = c" by (simp add: n_def)
    have "mapped ?m (op + c - off) (op + len)"
      using c by (intro mapped_dom [OF _ dom] mapped_subset [OF map]) auto
    from LZ4_copy_extDict_tail [OF c(3) this, of "len - c"] False
    obtain m2 where m2: "(if len - c > off then LZ4_byteCopy ?m (op + c) (op + c - off) (op + len)
          else memcpy ?m (op + c) (op + c - off) (len - c)) = Some m2"
      "same_dom ?m m2" "same_outside ?m m2 (op + c) (op + len)"
      "\<forall>i. op + c \<le> i \<and> i < op + len \<longrightarrow> m2 i = m2 (i - off)"
      by auto
    have run: "LZ4_copy_extDict e m op (op - off) len = Some (m2, op + len)"
    proof -
      have lp: "op + c - off = lowPrefix e" and "op + c - lowPrefix e = off" using c by simp_all
      then show ?thesis
        using False head m2(1) [unfolded lp]
        by (simp add: LZ4_copy_extDict_def c(4) Let_def split: if_splits)
    qed
    have out2: "same_outside m m2 op (op + len)"
      by (rule same_outside_union [OF out m2(3)]) (use False c in auto)
    have "match_result e m m2 off op len"
    proof (rule split_match_result [OF c(3,4) _ low(2) dict out2])
      fix k assume "0 \<le> k" "k < c" "k < len"
      then show "m2 (op + k) = m (dictEnd e - c + k)"
        using headv by (simp add: same_outsideD [OF m2(3)])
    next
      fix k assume "c \<le> k" "k < len"
      then show "m2 (op + k) = m2 (op + k - off)" using m2(4) by simp
    qed (use c in simp)
    then show ?thesis
      using run out2 same_dom_trans [OF dom m2(2)] by blast
  qed
qed

section \<open>The match copy of one sequence\<close>

text \<open>The memory a match at distance \<open>off\<close> reads and writes is accessible.\<close>

definition match_ready :: "dec_env \<Rightarrow> mem \<Rightarrow> addr \<Rightarrow> int \<Rightarrow> bool" where
  "match_ready e m op off \<longleftrightarrow>
     (if dict e = usingExtDict \<and> op - off < lowPrefix e
      then lowPrefix e \<le> op \<and> mapped m (lowPrefix e) (oend e) \<and>
           mapped m (dictEnd e - (lowPrefix e - (op - off))) (dictEnd e)
      else mapped m (op - off) (oend e))"

lemma match_ready_dom: "match_ready e m op off \<Longrightarrow> same_dom m m' \<Longrightarrow> match_ready e m' op off"
  by (auto simp: match_ready_def mapped_same_dom split: if_splits)

lemma LZ4_copy_sequence_spec:
  assumes off: "0 \<le> off" and len: "4 \<le> len" and op: "op + 8 \<le> oend e" and ready: "match_ready e m op off"
  shows "\<exists>m'. LZ4_copy_sequence e m ip op (op - off) len =
      Some (if oend e - 5 < op + len then Output_error m' ip else Continue m' ip (op + len)) \<and>
    same_dom m m' \<and> same_outside m m' op (oend e) \<and>
    (op + len \<le> oend e - 5 \<and> 1 \<le> off \<longrightarrow> match_result e m m' off op len)"
proof (cases "dict e = usingExtDict \<and> op - off < lowPrefix e")
  case ext: True
  then have r: "lowPrefix e \<le> op" "mapped m (lowPrefix e) (oend e)"
    "mapped m (dictEnd e - (lowPrefix e - (op - off))) (dictEnd e)"
    using ready by (simp_all add: match_ready_def)
  show ?thesis
  proof (cases "oend e - 5 < op + len")
    case True
    then show ?thesis using ext by (intro exI [of _ m]) (simp add: LZ4_copy_sequence_def)
  next
    case False
    have "mapped m (lowPrefix e) (op + len)"
      using False by (intro mapped_subset [OF r(2)]) auto
    then obtain m' where m': "LZ4_copy_extDict e m op (op - off) len = Some (m', op + len)"
      "same_dom m m'" "same_outside m m' op (op + len)" "match_result e m m' off op len"
      using LZ4_copy_extDict_spec [of e op off len m] ext r len by auto
    have "same_outside m m' op (oend e)"
      using False by (intro same_outside_mono [OF m'(3)]) auto
    then show ?thesis
      using ext False m' by (intro exI [of _ m']) (simp add: LZ4_copy_sequence_def)
  qed
next
  case False
  then have map: "mapped m (op - off) (oend e)"
    using ready by (simp add: match_ready_def)
  note spec = LZ4_copy_match_spec [OF off len op map]
  show ?thesis
  proof (cases "oend e - 5 < op + len")
    case True
    then obtain m' where "LZ4_copy_match e m op (op - off) len = Some (Inl m')"
      "same_dom m m'" "same_outside m m' op (oend e)"
      using spec by auto
    then show ?thesis
      using True False by (intro exI [of _ m']) (auto simp: LZ4_copy_sequence_def)
  next
    case ok: False
    then obtain m' where m': "LZ4_copy_match e m op (op - off) len = Some (Inr m')"
      "match_copied m m' off op len (oend e)"
      using spec by auto
    then have "match_result e m m' off op len" if "1 \<le> off"
      using match_copied_result [OF m'(2) that] False by auto
    then show ?thesis
      using ok False m' by (intro exI [of _ m']) (auto simp: LZ4_copy_sequence_def match_copied_def)
  qed
qed

end
