(* ===== verification/LZ4_Decompress_Lengths.thy ===== *)
theory LZ4_Decompress_Lengths
  imports LZ4_Decompress
begin

text \<open>
  The length fields: the two loops of the decoder read exactly the extension bytes \<open>ext_len\<close> of
  the block format, and on arbitrary input they end, inside the input.
\<close>

lemma ext_len_short: "n < 255 \<Longrightarrow> ext_len n = [of_nat n]"
  by (simp add: ext_len_def)

lemma ext_len_long: "255 \<le> n \<Longrightarrow> ext_len n = 255 # ext_len (n - 255)"
  by (simp add: ext_len_def le_div_geq le_mod_geq)

lemma div_255_step: "255 \<le> n \<Longrightarrow> int (n div 255) = int ((n - 255) div 255) + 1"
  by (simp add: le_div_geq)

lemma byte_of_nat_255: "n < 255 \<Longrightarrow> (of_nat n :: byte) \<noteq> 255"
proof
  assume "n < 255" "(of_nat n :: byte) = 255"
  then have "unat (of_nat n :: byte) = unat (255 :: byte)" by simp
  then show False using \<open>n < 255\<close> by (simp add: unat_of_nat)
qed

lemma uint_byte_of_nat: "n < 256 \<Longrightarrow> uint (of_nat n :: byte) = int n"
  by (simp add: uint_nat unat_of_nat)

lemma uint_byte_bounds: "0 \<le> uint (b :: byte)" "uint (b :: byte) \<le> 255"
  using uint_lt2p [of b] by simp_all

lemma literalLength_255:
  "m ip = Some 255 \<Longrightarrow> (endOnInput e \<longrightarrow> ip + 1 < iend e - 15) \<Longrightarrow> 0 \<le> len \<Longrightarrow> len + 255 < 2 ^ 64 \<Longrightarrow>
   LZ4_literalLength_loop e m ip len = LZ4_literalLength_loop e m (ip + 1) (len + 255)"
  by (subst LZ4_literalLength_loop.simps) (simp add: Let_def)

lemma literalLength_stop:
  "m ip = Some s \<Longrightarrow> s \<noteq> 255 \<or> endOnInput e \<and> iend e - 15 \<le> ip + 1 \<Longrightarrow> 0 \<le> len \<Longrightarrow> len + uint s < 2 ^ 64 \<Longrightarrow>
   LZ4_literalLength_loop e m ip len = Some (ip + 1, len + uint s)"
  by (subst LZ4_literalLength_loop.simps) (auto simp: Let_def)

lemma matchLength_stop:
  "m ip = Some s \<Longrightarrow> s \<noteq> 255 \<Longrightarrow> \<not> (endOnInput e \<and> ip > iend e - 5) \<Longrightarrow> 0 \<le> len \<Longrightarrow> len + uint s < 2 ^ 64 \<Longrightarrow>
   LZ4_matchLength_loop e m ip len = Some (Inr (ip + 1, len + uint s))"
  by (subst LZ4_matchLength_loop.simps) (auto simp: Let_def)

lemma matchLength_255:
  "m ip = Some 255 \<Longrightarrow> \<not> (endOnInput e \<and> ip > iend e - 5) \<Longrightarrow> 0 \<le> len \<Longrightarrow> len + 255 < 2 ^ 64 \<Longrightarrow>
   LZ4_matchLength_loop e m ip len = LZ4_matchLength_loop e m (ip + 1) (len + 255)"
  by (subst LZ4_matchLength_loop.simps) (auto simp: Let_def)

lemma literalLength_complete:
  "bytes_at m ip (ext_len n) \<Longrightarrow> (endOnInput e \<longrightarrow> ip + int (n div 255) + 15 < iend e) \<Longrightarrow>
   0 \<le> len \<Longrightarrow> len + int n < 2 ^ 64 \<Longrightarrow>
   LZ4_literalLength_loop e m ip len = Some (ip + int (n div 255) + 1, len + int n)"
proof (induction n arbitrary: ip len rule: less_induct)
  case (less n)
  show ?case
  proof (cases "n < 255")
    case True
    then have "m ip = Some (of_nat n)"
      using less.prems(1) by (simp add: ext_len_short)
    then show ?thesis
      using True less.prems(3,4) literalLength_stop [of m ip "of_nat n" e len]
      by (simp add: byte_of_nat_255 uint_byte_of_nat)
  next
    case False
    then have b: "m ip = Some 255" "bytes_at m (ip + 1) (ext_len (n - 255))"
      using less.prems(1) by (simp_all add: ext_len_long)
    have d: "int (n div 255) = int ((n - 255) div 255) + 1"
      using False by (intro div_255_step) simp
    have "LZ4_literalLength_loop e m (ip + 1) (len + 255) =
        Some (ip + 1 + int ((n - 255) div 255) + 1, len + 255 + int (n - 255))"
      using less.prems b False d by (intro less.IH) auto
    moreover have "endOnInput e \<longrightarrow> ip + 1 < iend e - 15"
      using less.prems(2) d by linarith
    ultimately show ?thesis
      using b(1) less.prems(3,4) False d by (simp add: literalLength_255)
  qed
qed

lemma matchLength_complete:
  "bytes_at m ip (ext_len n) \<Longrightarrow> (endOnInput e \<longrightarrow> ip + int (n div 255) \<le> iend e - 5) \<Longrightarrow>
   0 \<le> len \<Longrightarrow> len + int n < 2 ^ 64 \<Longrightarrow>
   LZ4_matchLength_loop e m ip len = Some (Inr (ip + int (n div 255) + 1, len + int n))"
proof (induction n arbitrary: ip len rule: less_induct)
  case (less n)
  have near: "\<not> (endOnInput e \<and> ip > iend e - 5)"
    using less.prems(2) by auto
  show ?case
  proof (cases "n < 255")
    case True
    then have "m ip = Some (of_nat n)"
      using less.prems(1) by (simp add: ext_len_short)
    then show ?thesis
      using True less.prems(3,4) near matchLength_stop [of m ip "of_nat n" e len]
      by (simp add: byte_of_nat_255 uint_byte_of_nat)
  next
    case False
    then have b: "m ip = Some 255" "bytes_at m (ip + 1) (ext_len (n - 255))"
      using less.prems(1) by (simp_all add: ext_len_long)
    have d: "int (n div 255) = int ((n - 255) div 255) + 1"
      using False by (intro div_255_step) simp
    have "LZ4_matchLength_loop e m (ip + 1) (len + 255) =
        Some (Inr (ip + 1 + int ((n - 255) div 255) + 1, len + 255 + int (n - 255)))"
      using less.prems b False d by (intro less.IH) auto
    then show ?thesis
      using b(1) less.prems(3,4) near False d by (simp add: matchLength_255)
  qed
qed

section \<open>Arbitrary input\<close>

lemma byte_below_255: "b \<noteq> 255 \<Longrightarrow> unat (b :: byte) < 255"
proof -
  assume b: "b \<noteq> 255"
  have "unat b < 256" by (rule order_less_le_trans [OF unsigned_less]) simp
  moreover have "unat b \<noteq> 255"
  proof
    assume "unat b = 255"
    then have "unat b = unat (255 :: byte)" by simp
    with b show False by (simp only: word_unat_eq_iff)
  qed
  ultimately show ?thesis by simp
qed

text \<open>
  The literal length loop stops early near the end of the input; the length it has then is too
  large for what is left.
\<close>

lemma literalLength_total:
  "endOnInput e \<Longrightarrow> mapped m ip (iend e) \<Longrightarrow> ip < iend e \<Longrightarrow> 0 \<le> len \<Longrightarrow>
   len + 255 * (iend e - ip) < 2 ^ 64 \<Longrightarrow>
   \<exists>ip' n. LZ4_literalLength_loop e m ip len = Some (ip', len + int n) \<and>
     ip < ip' \<and> ip' \<le> max (ip + 1) (iend e - 15) \<and>
     (bytes_at m ip (ext_len n) \<and> ip' = ip + int (n div 255) + 1 \<or> iend e - 15 \<le> ip' \<and> 255 \<le> n)"
proof (induction "nat (iend e - ip)" arbitrary: ip len rule: less_induct)
  case less
  obtain s where s: "m ip = Some s" using less.prems by (auto simp: mapped_def)
  have add: "len + uint s < 2 ^ 64"
    using less.prems uint_byte_bounds [of s] by auto
  show ?case
  proof (cases "s = 255")
    case False
    then have "ext_len (unat s) = [s]" by (simp add: ext_len_short byte_below_255)
    moreover have "LZ4_literalLength_loop e m ip len = Some (ip + 1, len + int (unat s))"
      using literalLength_stop [of m ip s e len] s less.prems(4) add False by simp
    ultimately show ?thesis
      using s byte_below_255 [OF False] by (intro exI [of _ "ip + 1"] exI [of _ "unat s"]) simp
  next
    case True
    show ?thesis
    proof (cases "ip + 1 < iend e - 15")
      case more: True
      have step: "LZ4_literalLength_loop e m ip len = LZ4_literalLength_loop e m (ip + 1) (len + 255)"
        using True s more less.prems by (intro literalLength_255) auto
      have "mapped m (ip + 1) (iend e)"
        by (rule mapped_subset [OF less.prems(2)]) simp_all
      from less.hyps [OF _ less.prems(1) this, of "len + 255"]
      obtain ip' n where IH: "LZ4_literalLength_loop e m (ip + 1) (len + 255) = Some (ip', len + 255 + int n)"
        "ip + 1 < ip'" "ip' \<le> max (ip + 1 + 1) (iend e - 15)"
        "bytes_at m (ip + 1) (ext_len n) \<and> ip' = ip + 1 + int (n div 255) + 1 \<or>
         iend e - 15 \<le> ip' \<and> 255 \<le> n"
        using more less.prems by auto
      have "bytes_at m ip (ext_len (n + 255))" if "bytes_at m (ip + 1) (ext_len n)"
        using that s True by (simp add: ext_len_long)
      then show ?thesis
        using step IH more
        by (intro exI [of _ ip'] exI [of _ "n + 255"]) (auto simp: div_255_step)
    next
      case False
      then have "LZ4_literalLength_loop e m ip len = Some (ip + 1, len + int 255)"
        using literalLength_stop [of m ip s e len] s less.prems(4) add True less.prems(1) by simp
      then show ?thesis
        using False by (intro exI [of _ "ip + 1"] exI [of _ 255]) simp
    qed
  qed
qed

lemma matchLength_total:
  "endOnInput e \<Longrightarrow> mapped m ip (iend e) \<Longrightarrow> ip \<le> iend e \<Longrightarrow> 0 \<le> len \<Longrightarrow>
   len + 255 * (iend e - ip) < 2 ^ 64 \<Longrightarrow>
   (\<exists>ip'. LZ4_matchLength_loop e m ip len = Some (Inl ip') \<and> ip \<le> ip' \<and> ip' \<le> iend e) \<or>
   (\<exists>n. LZ4_matchLength_loop e m ip len = Some (Inr (ip + int (n div 255) + 1, len + int n)) \<and>
     bytes_at m ip (ext_len n) \<and> ip + int (n div 255) \<le> iend e - 5)"
proof (induction "nat (iend e - ip)" arbitrary: ip len rule: less_induct)
  case less
  show ?case
  proof (cases "ip > iend e - 5")
    case True
    then have "LZ4_matchLength_loop e m ip len = Some (Inl ip)"
      using less.prems(1) by (subst LZ4_matchLength_loop.simps) simp
    then show ?thesis using less.prems(3) by blast
  next
    case near: False
    then obtain s where s: "m ip = Some s" using less.prems by (auto simp: mapped_def)
    have add: "len + uint s < 2 ^ 64"
      using less.prems near uint_byte_bounds [of s] by auto
    show ?thesis
    proof (cases "s = 255")
      case False
      then have "ext_len (unat s) = [s]" by (simp add: ext_len_short byte_below_255)
      moreover have "LZ4_matchLength_loop e m ip len = Some (Inr (ip + 1, len + int (unat s)))"
        using matchLength_stop [of m ip s e len] s False less.prems(4) add near by simp
      ultimately show ?thesis
        using s near byte_below_255 [OF False] by (intro disjI2 exI [of _ "unat s"]) simp
    next
      case True
      have step: "LZ4_matchLength_loop e m ip len = LZ4_matchLength_loop e m (ip + 1) (len + 255)"
        using True s near less.prems by (intro matchLength_255) auto
      have "mapped m (ip + 1) (iend e)"
        by (rule mapped_subset [OF less.prems(2)]) simp_all
      then consider ip' where "LZ4_matchLength_loop e m (ip + 1) (len + 255) = Some (Inl ip')"
          "ip + 1 \<le> ip'" "ip' \<le> iend e"
        | n where "LZ4_matchLength_loop e m (ip + 1) (len + 255) =
            Some (Inr (ip + 1 + int (n div 255) + 1, len + 255 + int n))"
          "bytes_at m (ip + 1) (ext_len n)" "ip + 1 + int (n div 255) \<le> iend e - 5"
        using less.hyps [of "ip + 1" "len + 255"] near less.prems by auto
      then show ?thesis
      proof cases
        case (1 ip')
        then show ?thesis using step by (intro disjI1 exI [of _ ip']) simp
      next
        case (2 n)
        then have "bytes_at m ip (ext_len (n + 255))"
          using s True by (simp add: ext_len_long)
        then show ?thesis using step 2
          by (intro disjI2 exI [of _ "n + 255"]) (simp add: div_255_step)
      qed
    qed
  qed
qed

section \<open>The two length fields\<close>

lemma no_wrap: "0 \<le> a \<Longrightarrow> 0 \<le> n \<Longrightarrow> a + n < 2 ^ 64 \<Longrightarrow> \<not> cast_u64 (a + n) < cast_u64 a"
  by simp

lemma get_literalLength_complete:
  assumes at: "bytes_at m ip (len_ext ll)" and tok: "uint (drop_bit 4 token) = int (min ll 15)"
    and inside: "endOnInput e \<longrightarrow> ip + int (length (len_ext ll)) + int ll \<le> iend e"
    and addr: "0 \<le> op" "op + int ll < 2 ^ 64" "0 \<le> ip"
      "ip + int (length (len_ext ll)) + int ll < 2 ^ 64"
  shows "LZ4_get_literalLength e m ip op token = Some (Inr (ip + int (length (len_ext ll)), int ll))"
proof (cases "15 \<le> ll")
  case True
  define n where "n = ll - 15"
  have n: "ll = n + 15" "len_ext ll = ext_len n"
    using True by (simp_all add: n_def len_ext_def)
  have "LZ4_literalLength_loop e m ip 15 = Some (ip + int (n div 255) + 1, 15 + int n)"
    using at inside addr n by (intro literalLength_complete) auto
  then show ?thesis
    using tok n addr no_wrap [of op "int ll"] no_wrap [of "ip + int (n div 255) + 1" "int ll"]
    by (simp add: LZ4_get_literalLength_def add.commute)
next
  case False
  then show ?thesis
    using tok by (simp add: LZ4_get_literalLength_def len_ext_def)
qed

lemma get_matchLength_complete:
  assumes at: "bytes_at m ip (len_ext ml)" and tok: "uint (token AND 15) = int (min ml 15)"
    and inside: "endOnInput e \<longrightarrow> ip + int (length (len_ext ml)) + 4 \<le> iend e"
    and addr: "0 \<le> op" "op + int ml + 4 < 2 ^ 64"
  shows "LZ4_get_matchLength e m ip op token = Some (Inr (ip + int (length (len_ext ml)), int ml + 4))"
proof (cases "15 \<le> ml")
  case True
  define n where "n = ml - 15"
  have n: "ml = n + 15" "len_ext ml = ext_len n"
    using True by (simp_all add: n_def len_ext_def)
  have "LZ4_matchLength_loop e m ip 15 = Some (Inr (ip + int (n div 255) + 1, 15 + int n))"
    using at inside addr n by (intro matchLength_complete) auto
  then show ?thesis
    using tok n addr no_wrap [of op "int ml"]
    by (simp add: LZ4_get_matchLength_def add.commute)
next
  case False
  then show ?thesis
    using tok by (simp add: LZ4_get_matchLength_def len_ext_def)
qed

text \<open>On arbitrary input, what the fields are read as.\<close>

lemma get_literalLength_total:
  assumes e: "endOnInput e" and map: "mapped m ip (iend e)" and ip: "ip \<le> iend e"
    "iend e - ip < 2 ^ 32" and first: "ip < iend e \<or> uint (drop_bit 4 token) \<noteq> 15"
  shows "(\<exists>ip'. LZ4_get_literalLength e m ip op token = Some (Inl ip') \<and> ip \<le> ip' \<and> ip' \<le> iend e) \<or>
    (\<exists>ip' ll. LZ4_get_literalLength e m ip op token = Some (Inr (ip', int ll)) \<and>
       ip \<le> ip' \<and> ip' \<le> iend e \<and>
       (bytes_at m ip (len_ext ll) \<and> ip' = ip + int (length (len_ext ll)) \<and>
          uint (drop_bit 4 token) = int (min ll 15) \<or> iend e < ip' + int ll))"
proof (cases "uint (drop_bit 4 token) = 15")
  case True
  then have lt: "ip < iend e" using first by simp
  from literalLength_total [OF e map lt, of 15] ip(2)
  obtain ip' n where r: "LZ4_literalLength_loop e m ip 15 = Some (ip', 15 + int n)" "ip < ip'"
    "ip' \<le> max (ip + 1) (iend e - 15)"
    "bytes_at m ip (ext_len n) \<and> ip' = ip + int (n div 255) + 1 \<or> iend e - 15 \<le> ip' \<and> 255 \<le> n"
    by auto
  have ip': "ip \<le> ip'" "ip' \<le> iend e" using r lt by auto
  have "LZ4_get_literalLength e m ip op token \<in> {Some (Inl ip'), Some (Inr (ip', int (n + 15)))}"
    using True r(1) by (simp add: LZ4_get_literalLength_def add.commute)
  then consider "LZ4_get_literalLength e m ip op token = Some (Inl ip')"
    | "LZ4_get_literalLength e m ip op token = Some (Inr (ip', int (n + 15)))"
    by blast
  then show ?thesis
  proof cases
    case 1
    then show ?thesis using ip' by blast
  next
    case 2
    have "len_ext (n + 15) = ext_len n" by (simp add: len_ext_def)
    then show ?thesis
      using 2 ip' r(4) True by (intro disjI2 exI [of _ ip'] exI [of _ "n + 15"]) auto
  qed
next
  case False
  define ll where "ll = nat (uint (drop_bit 4 token))"
  have "uint (drop_bit 4 token) = int (unat token div 16)"
    by (simp add: drop_bit_eq_div uint_div_distrib zdiv_int)
  moreover have "unat token < 256" by (rule order_less_le_trans [OF unsigned_less]) simp
  ultimately have ll: "uint (drop_bit 4 token) = int ll" "ll < 15"
    using False by (auto simp: ll_def)
  then have "LZ4_get_literalLength e m ip op token = Some (Inr (ip, int ll))"
    by (simp add: LZ4_get_literalLength_def)
  then show ?thesis
    using ll ip by (intro disjI2 exI [of _ ip] exI [of _ ll]) (simp add: len_ext_def)
qed

lemma get_matchLength_total:
  assumes e: "endOnInput e" and map: "mapped m ip (iend e)" and ip: "ip \<le> iend e - 4"
    "iend e - ip < 2 ^ 32"
  shows "(\<exists>ip'. LZ4_get_matchLength e m ip op token = Some (Inl ip') \<and> ip \<le> ip' \<and> ip' \<le> iend e) \<or>
    (\<exists>ml. LZ4_get_matchLength e m ip op token = Some (Inr (ip + int (length (len_ext ml)), int ml + 4)) \<and>
       bytes_at m ip (len_ext ml) \<and> uint (token AND 15) = int (min ml 15) \<and>
       ip + int (length (len_ext ml)) \<le> iend e - 4)"
proof (cases "uint (token AND 15) = 15")
  case True
  consider ip' where "LZ4_matchLength_loop e m ip 15 = Some (Inl ip')" "ip \<le> ip'" "ip' \<le> iend e"
    | n where "LZ4_matchLength_loop e m ip 15 = Some (Inr (ip + int (n div 255) + 1, 15 + int n))"
      "bytes_at m ip (ext_len n)" "ip + int (n div 255) \<le> iend e - 5"
    using matchLength_total [OF e map, of 15] ip by auto
  then show ?thesis
  proof cases
    case (1 ip')
    then show ?thesis
      using True by (intro disjI1 exI [of _ ip']) (simp add: LZ4_get_matchLength_def)
  next
    case (2 n)
    have ext: "len_ext (n + 15) = ext_len n" by (simp add: len_ext_def)
    have small: "int n < 2 ^ 62"
    proof -
      have "int n \<le> 255 * int (n div 255) + 254" by (simp add: zdiv_int)
      then show ?thesis using 2(3) ip by simp
    qed
    show ?thesis
    proof (cases "cast_u64 (op + (15 + int n)) < cast_u64 op")
      case wrap: True
      then have "LZ4_get_matchLength e m ip op token = Some (Inl (ip + int (n div 255) + 1))"
        using True 2(1) e by (simp add: LZ4_get_matchLength_def)
      then show ?thesis using 2(3) ip(1) by auto
    next
      case False
      then have "LZ4_get_matchLength e m ip op token =
          Some (Inr (ip + int (length (len_ext (n + 15))), int (n + 15) + 4))"
        using True 2(1) e ext small by (simp add: LZ4_get_matchLength_def)
      then show ?thesis
        using 2 True ext by (intro disjI2 exI [of _ "n + 15"]) simp
    qed
  qed
next
  case False
  define ml where "ml = nat (uint (token AND 15))"
  have "uint (token AND 15) = uint token mod 16"
    using take_bit_eq_mask [of 4 "uint token"]
    by (simp add: unsigned_and_eq take_bit_eq_mod mask_numeral)
  then have ml: "uint (token AND 15) = int ml" "ml < 15"
    using False by (auto simp: ml_def)
  then have "LZ4_get_matchLength e m ip op token = Some (Inr (ip, int ml + 4))"
    by (simp add: LZ4_get_matchLength_def)
  then show ?thesis
    using ml ip by (intro disjI2 exI [of _ ml]) (simp add: len_ext_def)
qed

end
