(* ===== verification/LZ4_Decompress_Correct.thy ===== *)
theory LZ4_Decompress_Correct
  imports LZ4_Match_Copy LZ4_Decompress_Lengths
begin

text \<open>
  The decoder decodes: run on the bytes of a well-formed block, \<open>LZ4_decompress_generic\<close> ends
  without leaving its buffers and leaves at \<open>dest\<close> the data that \<open>decode\<close> gives, in the safe
  and in the fast variant, without history, with a prefix, and with an external dictionary.
\<close>

section \<open>The history\<close>

text \<open>The bytes \<open>out\<close> stand (virtually) right before \<open>op\<close>.\<close>

definition hist_at :: "dec_env \<Rightarrow> mem \<Rightarrow> addr \<Rightarrow> byte list \<Rightarrow> bool" where
  "hist_at e m op out \<longleftrightarrow>
     (\<forall>k < length out. vread e m (op - int (length out) + int k) = Some (out ! k))"

text \<open>The part of the history that is in the dictionary is not overwritten.\<close>

definition dict_apart :: "dec_env \<Rightarrow> addr \<Rightarrow> nat \<Rightarrow> bool" where
  "dict_apart e op h \<longleftrightarrow> (dict e = usingExtDict \<longrightarrow>
     lowPrefix e \<le> op \<and> (dictEnd e \<le> op \<or> oend e \<le> dictEnd e - (lowPrefix e - (op - int h))))"

lemma dict_apart_step: "dict_apart e op h \<Longrightarrow> dict_apart e (op + int n) (h + n)"
  by (auto simp: dict_apart_def)

lemma vread_same:
  assumes "same_outside m m' op (oend e)" "dict_apart e op h" "op - int h \<le> a" "a < op"
  shows "vread e m' a = vread e m a"
  using assms by (auto simp: vread_def dict_apart_def intro!: same_outsideD [OF assms(1)])

lemma hist_at_same:
  assumes "hist_at e m op out" "same_outside m m' op (oend e)" "dict_apart e op (length out)"
  shows "hist_at e m' op out"
  using assms(1) vread_same [OF assms(2,3)] by (simp add: hist_at_def)

lemma hist_at_append:
  assumes "hist_at e m op out" "\<And>k. k < length xs \<Longrightarrow> m (op + int k) = Some (xs ! k)"
    and "dict_apart e op (length out)"
  shows "hist_at e m (op + int (length xs)) (out @ xs)"
  unfolding hist_at_def
proof (intro allI impI)
  fix k assume k: "k < length (out @ xs)"
  show "vread e m (op + int (length xs) - int (length (out @ xs)) + int k) = Some ((out @ xs) ! k)"
  proof (cases "k < length out")
    case True
    then show ?thesis using assms(1) by (simp add: hist_at_def nth_append)
  next
    case False
    define j where "j = k - length out"
    have j: "k = length out + j" "j < length xs" using False k by (simp_all add: j_def)
    have "op + int (length xs) - int (length (out @ xs)) + int k = op + int j"
      using j(1) by simp
    moreover have "vread e m (op + int j) = m (op + int j)"
      using assms(3) by (auto simp: vread_def dict_apart_def)
    ultimately show ?thesis using assms(2) [OF j(2)] j(1) by (simp add: nth_append)
  qed
qed

lemma hist_at_bytes:
  assumes "hist_at e m op out" "same_outside m m' op (oend e)" "dict_apart e op (length out)"
    and "bytes_at m' op xs"
  shows "hist_at e m' (op + int (length xs)) (out @ xs)"
  using assms by (intro hist_at_append hist_at_same [OF assms(1-3)]) (auto simp: bytes_at_iff)

lemma hist_at_match:
  assumes hist: "hist_at e m op out" and out: "same_outside m m' op (oend e)"
    and apart: "dict_apart e op (length out)"
    and res: "match_result e m m' (int off) op (int n)" and off: "1 \<le> off" "off \<le> length out"
  shows "hist_at e m' (op + int n) (out @ match_bytes out off n)"
proof -
  have "m' (op + int k) = Some (match_bytes out off n ! k)" if "k < n" for k
  proof -
    have "m' (op + int k) = vread e m (op - int off + int k mod int off)"
      using res that by (simp add: match_result_def)
    also have "op - int off + int k mod int off =
        op - int (length out) + int (length out - off + k mod off)"
      using off by (simp add: zmod_int)
    also have "vread e m \<dots> = Some (out ! (length out - off + k mod off))"
    proof -
      have "k mod off < off" using off by simp
      then have "length out - off + k mod off < length out" using off by linarith
      then show ?thesis using hist unfolding hist_at_def by blast
    qed
    finally show ?thesis using that by (simp add: match_bytes_def)
  qed
  then show ?thesis
    using hist_at_append [OF hist_at_same [OF hist out apart], of "match_bytes out off n"] apart
    by simp
qed

text \<open>A match into the history is accessible.\<close>

lemma hist_ready:
  assumes hist: "hist_at e m op out" and off: "0 \<le> off" "off \<le> int (length out)"
    and map: "mapped m op (oend e)" and apart: "dict_apart e op h"
  shows "match_ready e m op off"
proof -
  have v: "vread e m a \<noteq> None" if "op - off \<le> a" "a < op" for a
  proof -
    define k where "k = nat (a - (op - int (length out)))"
    have "k < length out" "op - int (length out) + int k = a"
      using that off by (auto simp: k_def)
    then show ?thesis using hist unfolding hist_at_def by (metis option.distinct(1))
  qed
  show ?thesis
  proof (cases "dict e = usingExtDict \<and> op - off < lowPrefix e")
    case True
    then have low: "lowPrefix e \<le> op" using apart by (simp add: dict_apart_def)
    have "m a \<noteq> None" if "lowPrefix e \<le> a" "a < oend e" for a
      using v [of a] map that True by (cases "a < op") (auto simp: vread_def mapped_def)
    moreover have "m a \<noteq> None" if "dictEnd e - (lowPrefix e - (op - off)) \<le> a" "a < dictEnd e" for a
      using v [of "a - dictEnd e + lowPrefix e"] that True low by (simp add: vread_def)
    ultimately show ?thesis
      using True low by (simp add: match_ready_def mapped_def)
  next
    case False
    have "m a \<noteq> None" if "op - off \<le> a" "a < oend e" for a
    proof (cases "a < op")
      case True
      then show ?thesis
        using v [of a] that False by (auto simp: vread_def)
    qed (use map that in \<open>auto simp: mapped_def\<close>)
    then show ?thesis using False by (auto simp: match_ready_def mapped_def)
  qed
qed

section \<open>One sequence\<close>

lemma wildCopy_literals:
  assumes lits: "bytes_at m ip ls" and w: "w = max 8 (int (length ls) + 7)"
    and map: "mapped m ip (ip + w)" "mapped m op (op + w)" and apart: "ip + w \<le> op \<or> op + w \<le> ip"
  shows "\<exists>m'. LZ4_wildCopy m op ip (op + int (length ls)) = Some m' \<and> same_dom m m' \<and>
    same_outside m m' op (op + w) \<and> bytes_at m' op ls"
proof -
  define D where "D = op - ip"
  have D: "op - D = ip" "op + w - D = ip + w" by (simp_all add: D_def)
  have max: "max (op + 8) (op + int (length ls) + 7) = op + w" using w by simp
  have "mapped m op (max (op + 8) (op + int (length ls) + 7))"
    "mapped m (op - D) (max (op + 8) (op + int (length ls) + 7) - D)"
    unfolding max using map by (simp_all add: D)
  from LZ4_wildCopy_spec [OF this] obtain m' K where
    m': "LZ4_wildCopy m op (op - D) (op + int (length ls)) = Some m'" "8 \<le> K"
      "op + int (length ls) \<le> op + K" "op + K \<le> op + w" "same_dom m m'"
      "same_outside m m' op (op + K)"
      "8 \<le> D \<or> K \<le> - D \<longrightarrow> (\<forall>i. op \<le> i \<and> i < op + K \<longrightarrow> m' i = m' (i - D))"
    unfolding max by blast
  have dist: "8 \<le> D \<or> K \<le> - D" using apart m'(4) w by (auto simp: D_def)
  have "m' (op + i) = Some (ls ! nat i)" if "0 \<le> i" "i < int (length ls)" for i
  proof -
    have "m' (op + i) = m' (op + i - D)"
      using m'(3,7) dist that by simp
    also have "op + i - D = ip + i" by (simp add: D_def)
    also have "m' (ip + i) = m (ip + i)"
      using apart that m'(3,4) w by (intro same_outsideD [OF m'(6)]) auto
    finally show ?thesis using lits that by (simp add: bytes_at_iff)
  qed
  from this [of "i - op" for i] have "bytes_at m' op ls"
    by (simp add: bytes_at_iff)
  moreover have "same_outside m m' op (op + w)"
    using m'(4) by (intro same_outside_mono [OF m'(6)]) auto
  ultimately show ?thesis using m' by (auto simp: D_def)
qed

lemma readLE16_bytes_at:
  assumes "bytes_at m p (le_bytes 2 w)"
  shows "LZ4_readLE16 m p = Some w"
proof -
  have "load_bytes m p 2 = Some (le_bytes 2 w)"
    using assms by (simp add: load_bytes_bytes_at)
  then show ?thesis
    by (simp add: LZ4_readLE16_def LZ4_read16_def LZ4_isLittleEndian_def word_of_le_le_bytes)
qed

lemma decode_match_complete:
  assumes at: "bytes_at m ip (le_bytes 2 (of_nat off :: u16) @ len_ext (n - 4))"
    and tok: "uint (token AND 15) = int (min (n - 4) 15)" and off: "1 \<le> off" "off \<le> 65535" and n: "4 \<le> n"
    and inside: "endOnInput e \<longrightarrow> ip + 2 + int (length (len_ext (n - 4))) + 4 \<le> iend e"
    and space: "0 \<le> op" "oend e < 2 ^ 64" "op + int n + 5 \<le> oend e" "op + 8 \<le> oend e"
    and low: "checkOffset e \<longrightarrow> lowLimit e \<le> op - int off" and ready: "match_ready e m op (int off)"
  shows "\<exists>m'. LZ4_decode_match e m ip op token =
      Some (Continue m' (ip + 2 + int (length (len_ext (n - 4)))) (op + int n)) \<and>
    same_dom m m' \<and> same_outside m m' op (oend e) \<and> match_result e m m' (int off) op (int n)"
proof -
  have "LZ4_readLE16 m ip = Some (of_nat off)"
    using at by (intro readLE16_bytes_at) (simp add: bytes_at_append)
  moreover have "uint (of_nat off :: u16) = int off"
    using off by (simp add: unsigned_of_nat take_bit_nat_eq_self_iff)
  moreover have "LZ4_get_matchLength e m (ip + 2) op token =
      Some (Inr (ip + 2 + int (length (len_ext (n - 4))), int (n - 4) + 4))"
    using at tok inside space n by (intro get_matchLength_complete) (auto simp: bytes_at_append)
  moreover have "int (n - 4) + 4 = int n" using n by simp
  moreover obtain m' where "LZ4_copy_sequence e m (ip + 2 + int (length (len_ext (n - 4)))) op (op - int off) (int n) =
      Some (Continue m' (ip + 2 + int (length (len_ext (n - 4)))) (op + int n))"
    "same_dom m m'" "same_outside m m' op (oend e)" "match_result e m m' (int off) op (int n)"
    using LZ4_copy_sequence_spec [OF _ _ space(4) ready, of "int n"] off n space by fastforce
  ultimately show ?thesis
    using low by (auto simp: LZ4_decode_match_def)
qed

text \<open>The buffers of a run: addresses do not wrap, input and output do not overlap.\<close>

definition buffers_ok :: "dec_env \<Rightarrow> mem \<Rightarrow> addr \<Rightarrow> addr \<Rightarrow> int \<Rightarrow> bool" where
  "buffers_ok e m ip op n \<longleftrightarrow> 0 \<le> ip \<and> 0 \<le> op \<and> ip + n < 2 ^ 64 \<and> oend e < 2 ^ 64 \<and>
     mapped m op (oend e) \<and> (ip + n \<le> op \<or> oend e \<le> ip)"

lemma buffers_ok_step:
  assumes "buffers_ok e m ip op n" "same_dom m m'" "0 \<le> i" "0 \<le> j" "i \<le> n"
  shows "buffers_ok e m' (ip + i) (op + j) (n - i)"
proof -
  have "mapped m' (op + j) (oend e)"
    using assms by (auto simp: buffers_ok_def intro: mapped_dom [OF mapped_subset])
  then show ?thesis using assms by (auto simp: buffers_ok_def)
qed

lemma decode_sequence_complete:
  assumes full: "\<not> partialDecoding e" and at: "bytes_at m ip (ser_seq s @ rest)" and rest: "6 \<le> length rest"
    and inside: "endOnInput e \<longrightarrow> iend e = ip + int (length (ser_seq s @ rest))"
    and bufs: "buffers_ok e m ip op (int (length (ser_seq s @ rest)))"
    and space: "op + int (seq_size s) + 5 \<le> oend e" "op + int (length (lits s)) + 12 \<le> oend e"
    and hist: "hist_at e m op out" "dict_apart e op (length out)" and ok: "seq_ok out s"
    and low: "checkOffset e \<longrightarrow> lowLimit e \<le> op - int (min (length out) 65535)"
  shows "\<exists>m'. LZ4_decode_sequence e m ip op =
      Some (Continue m' (ip + int (length (ser_seq s))) (op + int (seq_size s))) \<and>
    same_dom m m' \<and> same_outside m m' op (oend e) \<and>
    hist_at e m' (op + int (seq_size s)) (apply_seq out s)"
proof -
  define ll where "ll = length (lits s)"
  define token where "token = mk_token ll (mlen s - 4)"
  define ip1 where "ip1 = ip + 1 + int (length (len_ext ll))"
  define op1 where "op1 = op + int ll"
  have tokens: "uint (drop_bit 4 token) = int (min ll 15)" "uint (token AND 15) = int (min (mlen s - 4) 15)"
    by (simp_all add: token_def token_high token_low)
  have at1: "m ip = Some token" "bytes_at m (ip + 1) (len_ext ll)" "bytes_at m ip1 (lits s)"
    "bytes_at m (ip1 + int ll) (le_bytes 2 (of_nat (moff s) :: u16) @ len_ext (mlen s - 4))"
    "mapped m ip (ip + int (length (ser_seq s @ rest)))"
    using at bytes_at_mapped [OF at]
    by (auto simp: ser_seq_def bytes_at_append token_def ip1_def ll_def add.assoc)
  have sizes: "int (length (ser_seq s)) = 1 + int (length (len_ext ll)) + int ll + 2 + int (length (len_ext (mlen s - 4)))"
    by (simp add: length_ser_seq ll_def)
  have lit: "LZ4_get_literalLength e m (ip + 1) op token = Some (Inr (ip1, int ll))"
    unfolding ip1_def using at1(2) tokens(1) inside bufs space(2) sizes
    by (intro get_literalLength_complete) (auto simp: buffers_ok_def ll_def)
  have more: "\<not> (endOnInput e \<and> (op1 > oend e - 12 \<or> ip1 + int ll > iend e - 8) \<or>
      \<not> endOnInput e \<and> op1 > oend e - 8)"
    using inside space(2) sizes rest by (auto simp: ip1_def op1_def ll_def)
  obtain m1 where m1: "LZ4_wildCopy m op ip1 op1 = Some m1" "same_dom m m1"
    "same_outside m m1 op (op + max 8 (int ll + 7))" "bytes_at m1 op (lits s)"
  proof -
    have "mapped m ip1 (ip1 + max 8 (int ll + 7))"
      using sizes rest by (intro mapped_subset [OF at1(5)]) (auto simp: ip1_def)
    moreover have "mapped m op (op + max 8 (int ll + 7))"
      using bufs space(2) by (auto simp: buffers_ok_def ll_def elim!: mapped_subset)
    moreover have "ip1 + max 8 (int ll + 7) \<le> op \<or> op + max 8 (int ll + 7) \<le> ip1"
      using bufs space(2) sizes rest by (auto simp: buffers_ok_def ip1_def ll_def)
    ultimately show ?thesis
      using wildCopy_literals [OF at1(3) refl, of op] that unfolding op1_def ll_def by blast
  qed
  have out1: "same_outside m m1 op (oend e)"
    using space(2) by (intro same_outside_mono [OF m1(3)]) (auto simp: ll_def)
  have hist1: "hist_at e m1 op1 (out @ lits s)"
    using hist_at_bytes [OF hist(1) out1 hist(2) m1(4)] by (simp add: op1_def ll_def)
  have apart1: "dict_apart e op1 (length (out @ lits s))"
    using dict_apart_step [OF hist(2), of ll] by (simp add: op1_def ll_def)
  have bufs1: "mapped m1 op1 (oend e)"
    using bufs by (intro mapped_dom [OF _ m1(2)]) (auto simp: buffers_ok_def op1_def elim!: mapped_subset)
  have at2: "bytes_at m1 (ip1 + int ll) (le_bytes 2 (of_nat (moff s) :: u16) @ len_ext (mlen s - 4))"
    using bufs space(2) rest sizes
    by (intro bytes_at_same [OF at1(4) out1]) (auto simp: buffers_ok_def ip1_def)
  obtain m2 where m2: "LZ4_decode_match e m1 (ip1 + int ll) op1 token =
      Some (Continue m2 (ip1 + int ll + 2 + int (length (len_ext (mlen s - 4)))) (op1 + int (mlen s)))"
    "same_dom m1 m2" "same_outside m1 m2 op1 (oend e)"
    "match_result e m1 m2 (int (moff s)) op1 (int (mlen s))"
  proof -
    have "match_ready e m1 op1 (int (moff s))"
      using ok by (intro hist_ready [OF hist1 _ _ bufs1 apart1]) (auto simp: seq_ok_def)
    moreover have "checkOffset e \<longrightarrow> lowLimit e \<le> op1 - int (moff s)"
      using low ok by (auto simp: op1_def ll_def seq_ok_def)
    ultimately show ?thesis
      using decode_match_complete [OF at2 tokens(2), of e op1] that ok inside bufs space sizes rest
      by (fastforce simp: seq_ok_def buffers_ok_def op1_def ip1_def ll_def seq_size_def)
  qed
  have "hist_at e m2 (op1 + int (mlen s)) (apply_seq out s)"
    using hist_at_match [OF hist1 m2(3) apart1 m2(4)] ok by (simp add: seq_ok_def apply_seq_def)
  moreover have "same_outside m m2 op (oend e)"
    by (rule same_outside_union [OF out1 m2(3)]) (auto simp: op1_def)
  moreover have "LZ4_decode_sequence e m ip op =
      Some (Continue m2 (ip1 + int ll + 2 + int (length (len_ext (mlen s - 4)))) (op1 + int (mlen s)))"
    unfolding LZ4_decode_sequence_def using more
    by (auto simp: at1(1) lit Let_def full op1_def [symmetric] m1(1) m2(1))
  moreover have "ip1 + int ll + 2 + int (length (len_ext (mlen s - 4))) = ip + int (length (ser_seq s))"
    using sizes by (simp add: ip1_def)
  moreover have "op1 + int (mlen s) = op + int (seq_size s)"
    by (simp add: op1_def ll_def seq_size_def)
  ultimately show ?thesis
    using same_dom_trans [OF m1(2) m2(2)] by auto
qed

lemma decode_last_complete:
  assumes full: "\<not> partialDecoding e" and at: "bytes_at m ip (ser_last t ls)"
    and inside: "endOnInput e \<longrightarrow> iend e = ip + int (length (ser_last t ls))"
    and bufs: "buffers_ok e m ip op (int (length (ser_last t ls)))"
    and space: "op + int (length ls) \<le> oend e" "\<not> endOnInput e \<longrightarrow> op + int (length ls) = oend e"
    and hist: "hist_at e m op out" "dict_apart e op (length out)"
  shows "\<exists>m'. LZ4_decode_sequence e m ip op =
      Some (Break m' (ip + int (length (ser_last t ls))) (op + int (length ls))) \<and>
    same_dom m m' \<and> same_outside m m' op (oend e) \<and> hist_at e m' (op + int (length ls)) (out @ ls)"
proof -
  define ip1 where "ip1 = ip + 1 + int (length (len_ext (length ls)))"
  have at1: "m ip = Some (mk_token (length ls) t)" "bytes_at m (ip + 1) (len_ext (length ls))"
    "bytes_at m ip1 ls"
    using at by (auto simp: ser_last_def bytes_at_append ip1_def add.assoc)
  have size: "ip + int (length (ser_last t ls)) = ip1 + int (length ls)"
    by (simp add: length_ser_last ip1_def)
  have lit: "LZ4_get_literalLength e m (ip + 1) op (mk_token (length ls) t) = Some (Inr (ip1, int (length ls)))"
    unfolding ip1_def using at1(2) inside bufs space size
    by (intro get_literalLength_complete) (auto simp: buffers_ok_def token_high ip1_def)
  let ?m = "copied m op ip1 (int (length ls))"
  have src: "mapped m ip1 (ip1 + int (length ls))"
    using at1(3) by (rule bytes_at_mapped)
  have dst: "mapped m op (op + int (length ls))"
    using bufs space(1) by (auto simp: buffers_ok_def elim!: mapped_subset)
  have "LZ4_last_literals e m ip1 op (int (length ls)) =
      Some (Break ?m (ip1 + int (length ls)) (op + int (length ls)))"
    using full inside space size src dst by (auto simp: LZ4_last_literals_def mem_simps)
  then have run: "LZ4_decode_sequence e m ip op =
      Some (Break ?m (ip1 + int (length ls)) (op + int (length ls)))"
    unfolding LZ4_decode_sequence_def using inside space(2) size
    by (auto simp: at1(1) lit Let_def full)
  have out: "same_outside m ?m op (oend e)"
    using space(1) by (intro same_outside_mono [OF same_outside_copied]) auto
  have "hist_at e ?m (op + int (length ls)) (out @ ls)"
    using hist out at1(3) by (intro hist_at_bytes [of e m] bytes_at_copied) auto
  then show ?thesis
    using run out same_dom_copied [OF src dst] size by auto
qed

section \<open>A whole block\<close>

lemma decode_loop_complete:
  assumes full: "\<not> partialDecoding e"
  shows "bytes_at m ip (ser_block ss t ls) \<Longrightarrow> seqs_ok out ss \<Longrightarrow> end_ok ss ls \<Longrightarrow>
   (endOnInput e \<longrightarrow> iend e = ip + int (length (ser_block ss t ls))) \<Longrightarrow>
   buffers_ok e m ip op (int (length (ser_block ss t ls))) \<Longrightarrow>
   op + int (block_size ss ls) \<le> oend e \<Longrightarrow>
   (\<not> endOnInput e \<longrightarrow> op + int (block_size ss ls) = oend e) \<Longrightarrow>
   hist_at e m op out \<Longrightarrow> dict_apart e op (length out) \<Longrightarrow>
   (checkOffset e \<longrightarrow> lowLimit e \<le> op - int (min (length out) 65535)) \<Longrightarrow>
   \<exists>m'. LZ4_decode_loop e m ip op =
       Some (Break m' (ip + int (length (ser_block ss t ls))) (op + int (block_size ss ls))) \<and>
     same_dom m m' \<and> same_outside m m' op (oend e) \<and>
     hist_at e m' (op + int (block_size ss ls)) (foldl apply_seq out ss @ ls)"
proof (induction ss arbitrary: m ip op out)
  case Nil
  then obtain m' where "LZ4_decode_sequence e m ip op =
      Some (Break m' (ip + int (length (ser_last t ls))) (op + int (length ls)))"
    "same_dom m m'" "same_outside m m' op (oend e)" "hist_at e m' (op + int (length ls)) (out @ ls)"
    using decode_last_complete [OF full, of m ip t ls op out]
    by (auto simp: ser_block_Nil block_size_def)
  then show ?case
    by (intro exI [of _ m']) (simp add: LZ4_decode_loop.simps [of e m ip op] ser_block_Nil block_size_def)
next
  case (Cons s ss)
  let ?rest = "ser_block ss t ls"
  note end_ok = end_ok_Cons [OF Cons.prems(3,2)]
  have rest: "6 \<le> length ?rest" using length_ser_block_ge [of ls ss t] end_ok(2) by linarith
  have block: "ser_block (s # ss) t ls = ser_seq s @ ?rest" by (rule ser_block_Cons)
  have size: "int (block_size (s # ss) ls) = int (seq_size s) + int (block_size ss ls)"
    by (simp add: block_size_Cons)
  have last5: "length ls \<le> block_size ss ls" by (simp add: block_size_def)
  obtain m1 where m1: "LZ4_decode_sequence e m ip op =
      Some (Continue m1 (ip + int (length (ser_seq s))) (op + int (seq_size s)))"
    "same_dom m m1" "same_outside m m1 op (oend e)"
    "hist_at e m1 (op + int (seq_size s)) (apply_seq out s)"
  proof -
    have "op + int (seq_size s) + 5 \<le> oend e"
      using Cons.prems(6) size end_ok(2) last5 by linarith
    moreover have "op + int (length (lits s)) + 12 \<le> oend e"
      using Cons.prems(6) size end_ok(3) by (simp add: seq_size_def)
    ultimately show ?thesis
      using decode_sequence_complete [OF full, of m ip s ?rest op out] Cons.prems rest that
      unfolding block by auto
  qed
  have "\<exists>m'. LZ4_decode_loop e m1 (ip + int (length (ser_seq s))) (op + int (seq_size s)) =
       Some (Break m' (ip + int (length (ser_seq s)) + int (length ?rest))
              (op + int (seq_size s) + int (block_size ss ls))) \<and>
     same_dom m1 m' \<and> same_outside m1 m' (op + int (seq_size s)) (oend e) \<and>
     hist_at e m' (op + int (seq_size s) + int (block_size ss ls))
       (foldl apply_seq (apply_seq out s) ss @ ls)"
  proof (rule Cons.IH)
    show "bytes_at m1 (ip + int (length (ser_seq s))) ?rest"
      using Cons.prems(1,5) m1(3) unfolding block
      by (intro bytes_at_same [of m _ _ m1 op "oend e"]) (auto simp: bytes_at_append buffers_ok_def)
    show "buffers_ok e m1 (ip + int (length (ser_seq s))) (op + int (seq_size s)) (int (length ?rest))"
      using buffers_ok_step [OF Cons.prems(5) m1(2), of "int (length (ser_seq s))" "int (seq_size s)"]
      unfolding block by simp
    show "dict_apart e (op + int (seq_size s)) (length (apply_seq out s))"
      using dict_apart_step [OF Cons.prems(9), of "seq_size s"] by simp
  qed (use Cons.prems end_ok(1) m1(4) size in \<open>auto simp: block\<close>)
  then obtain m2 where m2: "LZ4_decode_loop e m1 (ip + int (length (ser_seq s))) (op + int (seq_size s)) =
       Some (Break m2 (ip + int (length (ser_block (s # ss) t ls))) (op + int (block_size (s # ss) ls)))"
     "same_dom m1 m2" "same_outside m1 m2 (op + int (seq_size s)) (oend e)"
     "hist_at e m2 (op + int (block_size (s # ss) ls)) (foldl apply_seq out (s # ss) @ ls)"
    unfolding block size by (auto simp: add.assoc)
  have "same_outside m m2 op (oend e)"
    by (rule same_outside_union [OF m1(3) m2(3)]) auto
  then show ?case
    using m1(1) m2 same_dom_trans [OF m1(2) m2(2)]
    by (intro exI [of _ m2]) (simp add: LZ4_decode_loop.simps [of e m ip op])
qed

lemma block_size_0:
  assumes "block_size ss ls = 0" "seqs_ok hist ss"
  shows "ss = []" "ls = []"
  using assms by (cases ss; auto simp: block_size_def seq_size_def seq_ok_def)+

lemma hist_at_decoded:
  assumes "hist_at e m (dest + int (length xs)) (hist @ xs)" "dict_apart e dest h"
  shows "bytes_at m dest xs"
proof -
  have "m (dest + int k) = Some (xs ! k)" if k: "k < length xs" for k
  proof -
    have "vread e m (dest + int (length xs) - int (length (hist @ xs)) + int (length hist + k)) =
        Some ((hist @ xs) ! (length hist + k))"
      using assms(1) k unfolding hist_at_def by (metis length_append nat_add_left_cancel_less)
    moreover have "dest + int (length xs) - int (length (hist @ xs)) + int (length hist + k) = dest + int k"
      by simp
    moreover have "vread e m (dest + int k) = m (dest + int k)"
      using assms(2) by (auto simp: vread_def dict_apart_def)
    ultimately show ?thesis by simp
  qed
  then show ?thesis by (rule bytes_at_natI)
qed

text \<open>A well-formed block after the history \<open>hist\<close>.\<close>

definition lz4_block :: "byte list \<Rightarrow> lz4_seq list \<Rightarrow> byte list \<Rightarrow> bool" where
  "lz4_block hist ss ls \<longleftrightarrow> seqs_ok hist ss \<and> end_ok ss ls"

lemma decompress_generic_complete:
  fixes source dest inputSize outputSize eoi tgt dct lowPfx dictStart dictSize
  defines "e \<equiv> dec_env_of source dest inputSize outputSize eoi full tgt dct lowPfx dictStart dictSize"
  assumes block: "lz4_block hist ss ls" and at: "bytes_at m source (ser_block ss 0 ls)"
    and inp: "eoi = endOnInputSize \<longrightarrow> inputSize = int (length (ser_block ss 0 ls))"
    and bufs: "buffers_ok e m source dest (int (length (ser_block ss 0 ls)))"
    and out: "int (block_size ss ls) \<le> outputSize" "eoi = endOnOutputSize \<longrightarrow> int (block_size ss ls) = outputSize"
    and small: "outputSize < 2 ^ 31" "int (length (ser_block ss 0 ls)) < 2 ^ 31"
    and hist: "hist_at e m dest hist" "dict_apart e dest (length hist)"
    and low: "checkOffset e \<longrightarrow> lowLimit e \<le> dest - int (min (length hist) 65535)"
  shows "\<exists>m'. LZ4_decompress_generic m source dest inputSize outputSize eoi full tgt dct lowPfx dictStart dictSize =
      Some (m', if eoi = endOnInputSize then int (block_size ss ls) else int (length (ser_block ss 0 ls))) \<and>
    same_dom m m' \<and> same_outside m m' dest (dest + outputSize) \<and> bytes_at m' dest (decode hist ss ls)"
proof -
  have e: "\<not> partialDecoding e" "oend e = dest + outputSize" "endOnInput e \<longleftrightarrow> eoi = endOnInputSize"
    "iend e = source + inputSize"
    by (simp_all add: e_def dec_env_of_def Let_def)
  have ok: "seqs_ok hist ss" "end_ok ss ls" using block by (simp_all add: lz4_block_def)
  note run = LZ4_decompress_generic_def [of m source dest inputSize outputSize eoi full tgt dct lowPfx
      dictStart dictSize, folded e_def, unfolded Let_def]
  show ?thesis
  proof (cases "outputSize = 0")
    case True
    then have nil: "ss = []" "ls = []" using block_size_0 [OF _ ok(1)] out(1) by simp_all
    then have "ser_block ss 0 ls = [0]"
      by (simp add: ser_block_def ser_last_def mk_token_def len_ext_def)
    then show ?thesis
      unfolding run using True at inp e nil
      by (intro exI [of _ m]) (cases eoi; simp add: decode_def block_size_def)
  next
    case False
    obtain m' where m': "LZ4_decode_loop e m source dest =
       Some (Break m' (source + int (length (ser_block ss 0 ls))) (dest + int (block_size ss ls)))"
     "same_dom m m'" "same_outside m m' dest (oend e)"
     "hist_at e m' (dest + int (block_size ss ls)) (foldl apply_seq hist ss @ ls)"
      using decode_loop_complete [OF e(1) at ok _ bufs _ _ hist low] inp out e
      by (cases eoi) auto
    have "bytes_at m' dest (decode hist ss ls)"
      using m'(4) hist(2) by (intro hist_at_decoded [of e _ _ _ hist]) (simp_all add: hist_decode)
    then show ?thesis
      unfolding run using m' False e small out(1)
      by (intro exI [of _ m']) (cases eoi; simp)
  qed
qed

section \<open>The entry points\<close>

text \<open>
  What a caller provides: \<open>n\<close> bytes of input at \<open>source\<close> and an accessible output buffer of \<open>k\<close>
  bytes at \<open>dest\<close>, apart from each other, in a 64-bit address space, sizes fitting an \<open>int\<close>.
\<close>

definition io_buffers :: "mem \<Rightarrow> addr \<Rightarrow> int \<Rightarrow> addr \<Rightarrow> int \<Rightarrow> bool" where
  "io_buffers m source n dest k \<longleftrightarrow>
     0 \<le> source \<and> source + n < 2 ^ 64 \<and> 0 \<le> dest \<and> dest + k < 2 ^ 64 \<and> n < 2 ^ 31 \<and> k < 2 ^ 31 \<and>
     mapped m dest (dest + k) \<and> (source + n \<le> dest \<or> dest + k \<le> source)"

lemma io_buffers_ok: "io_buffers m source n dest k \<Longrightarrow> oend e = dest + k \<Longrightarrow> buffers_ok e m source dest n"
  by (auto simp: io_buffers_def buffers_ok_def)

lemma hist_at_prefix:
  "bytes_at m (dest - int (length d)) d \<Longrightarrow> dict e \<noteq> usingExtDict \<Longrightarrow> hist_at e m dest d"
  by (simp add: hist_at_def vread_def bytes_at_natD)

lemma hist_at_extDict:
  assumes "bytes_at m dictStart d" "lowPrefix e = dest" "dictEnd e = dictStart + int (length d)"
    "dict e = usingExtDict"
  shows "hist_at e m dest d"
  unfolding hist_at_def
proof (intro allI impI)
  fix k assume k: "k < length d"
  have "dictEnd e - (lowPrefix e - (dest - int (length d) + int k)) = dictStart + int k"
    using assms by simp
  then show "vread e m (dest - int (length d) + int k) = Some (d ! k)"
    using assms k by (simp add: vread_def bytes_at_natD)
qed

lemmas dec_env_simps = dec_env_of_def Let_def dict_apart_def

text \<open>The safe variant with the history right before the output, and in an external dictionary.\<close>

definition decodes_to ::
  "(mem \<times> int) option \<Rightarrow> mem \<Rightarrow> addr \<Rightarrow> int \<Rightarrow> int \<Rightarrow> byte list \<Rightarrow> bool" where
  "decodes_to r m dest outputSize result xs \<longleftrightarrow>
     (\<exists>m'. r = Some (m', result) \<and> bytes_at m' dest xs \<and> same_outside m m' dest (dest + outputSize) \<and>
        same_dom m m')"

lemma decompress_safe_prefix:
  assumes "lz4_block hist ss ls" "bytes_at m source (ser_block ss 0 ls)"
    and "io_buffers m source (int (length (ser_block ss 0 ls))) dest outputSize"
    and "int (block_size ss ls) \<le> outputSize"
    and "bytes_at m (dest - int (length hist)) hist" "dct \<noteq> usingExtDict"
    and "lowPfx - dictSize \<le> dest - int (min (length hist) 65535) \<or> KB64 \<le> dictSize"
  shows "decodes_to (LZ4_decompress_generic m source dest (int (length (ser_block ss 0 ls))) outputSize
      endOnInputSize full tgt dct lowPfx dictStart dictSize)
    m dest outputSize (int (block_size ss ls)) (decode hist ss ls)"
proof -
  have "\<exists>m'. LZ4_decompress_generic m source dest (int (length (ser_block ss 0 ls))) outputSize
      endOnInputSize full tgt dct lowPfx dictStart dictSize =
      Some (m', if endOnInputSize = endOnInputSize then int (block_size ss ls)
                else int (length (ser_block ss 0 ls))) \<and>
    same_dom m m' \<and> same_outside m m' dest (dest + outputSize) \<and> bytes_at m' dest (decode hist ss ls)"
    using assms by (intro decompress_generic_complete io_buffers_ok hist_at_prefix)
      (auto simp: dec_env_simps io_buffers_def)
  then show ?thesis by (auto simp: decodes_to_def)
qed

lemma decompress_safe_extDict:
  assumes "lz4_block d ss ls" "bytes_at m source (ser_block ss 0 ls)"
    and "io_buffers m source (int (length (ser_block ss 0 ls))) dest outputSize"
    and "int (block_size ss ls) \<le> outputSize" "bytes_at m dictStart d"
    and "dictStart + int (length d) \<le> dest \<or> dest + outputSize \<le> dictStart"
  shows "decodes_to (LZ4_decompress_generic m source dest (int (length (ser_block ss 0 ls))) outputSize
      endOnInputSize full tgt usingExtDict dest dictStart (int (length d)))
    m dest outputSize (int (block_size ss ls)) (decode d ss ls)"
proof -
  have "\<exists>m'. LZ4_decompress_generic m source dest (int (length (ser_block ss 0 ls))) outputSize
      endOnInputSize full tgt usingExtDict dest dictStart (int (length d)) =
      Some (m', if endOnInputSize = endOnInputSize then int (block_size ss ls)
                else int (length (ser_block ss 0 ls))) \<and>
    same_dom m m' \<and> same_outside m m' dest (dest + outputSize) \<and> bytes_at m' dest (decode d ss ls)"
    using assms by (intro decompress_generic_complete io_buffers_ok hist_at_extDict [of _ dictStart])
      (auto simp: dec_env_simps io_buffers_def)
  then show ?thesis by (auto simp: decodes_to_def)
qed

text \<open>
  C7: \<open>LZ4_decompress_safe\<close>, given the bytes of a well-formed block and an output buffer that is
  large enough, returns the number of decoded bytes, leaves exactly the block's data at the
  start of the buffer and changes nothing outside the buffer.
\<close>

theorem LZ4_decompress_safe_decodes:
  assumes "lz4_block [] ss ls" "bytes_at m source (ser_block ss 0 ls)"
    and "io_buffers m source (int (length (ser_block ss 0 ls))) dest outputSize"
    and "int (block_size ss ls) \<le> outputSize"
  shows "\<exists>m'. LZ4_decompress_safe m source dest (int (length (ser_block ss 0 ls))) outputSize =
      Some (m', int (block_size ss ls)) \<and>
    bytes_at m' dest (decode [] ss ls) \<and> same_outside m m' dest (dest + outputSize)"
  using decompress_safe_prefix [OF assms, of noDict dest 0 0 0]
  by (auto simp: LZ4_decompress_safe_def decodes_to_def)

text \<open>
  C10: \<open>LZ4_decompress_fast\<close>, given the bytes of a well-formed block and the exact size of its
  data, returns the number of input bytes and leaves exactly the block's data at \<open>dest\<close>; the
  block may refer to the data \<open>hist\<close> that stands right before \<open>dest\<close>.
\<close>

theorem LZ4_decompress_fast_decodes:
  assumes "lz4_block hist ss ls" "bytes_at m source (ser_block ss 0 ls)"
    and "bytes_at m (dest - int (length hist)) hist"
    and "io_buffers m source (int (length (ser_block ss 0 ls))) dest (int (block_size ss ls))"
  shows "\<exists>m'. LZ4_decompress_fast m source dest (int (block_size ss ls)) =
      Some (m', int (length (ser_block ss 0 ls))) \<and>
    bytes_at m' dest (decode hist ss ls) \<and> same_outside m m' dest (dest + int (block_size ss ls))"
proof -
  have "\<exists>m'. LZ4_decompress_fast m source dest (int (block_size ss ls)) =
      Some (m', if endOnOutputSize = endOnInputSize then int (block_size ss ls)
                else int (length (ser_block ss 0 ls))) \<and>
    same_dom m m' \<and> same_outside m m' dest (dest + int (block_size ss ls)) \<and>
    bytes_at m' dest (decode hist ss ls)"
    unfolding LZ4_decompress_fast_def using assms
    by (intro decompress_generic_complete io_buffers_ok hist_at_prefix)
      (auto simp: dec_env_simps io_buffers_def)
  then show ?thesis by auto
qed

lemma usingDict_decodes:
  assumes "lz4_block d ss ls" "bytes_at m source (ser_block ss 0 ls)" "bytes_at m dictStart d"
    and "io_buffers m source (int (length (ser_block ss 0 ls))) dest outputSize"
    and "int (block_size ss ls) \<le> outputSize"
    and "dictStart + int (length d) \<le> dest \<or> dest + outputSize \<le> dictStart"
  shows "decodes_to (LZ4_decompress_safe_usingDict m source dest (int (length (ser_block ss 0 ls)))
      outputSize dictStart (int (length d))) m dest outputSize (int (block_size ss ls)) (decode d ss ls)"
proof (cases "d = [] \<or> dictStart + int (length d) = dest")
  case True
  then have "bytes_at m (dest - int (length d)) d" using assms(3) by auto
  note prefix = decompress_safe_prefix [OF assms(1,2,4,5) this]
  show ?thesis
    using True prefix [of noDict dest 0 0 0] prefix [of withPrefix64k "dest - KB64" 0 0 0]
      prefix [of noDict "dest - int (length d)" 0 0 0]
    by (auto simp: LZ4_decompress_safe_usingDict_def LZ4_decompress_usingDict_generic_def)
next
  case False
  then show ?thesis
    using decompress_safe_extDict [OF assms(1,2,4,5,3,6), of 0]
    by (simp add: LZ4_decompress_safe_usingDict_def LZ4_decompress_usingDict_generic_def)
qed

text \<open>
  C11: \<open>LZ4_decompress_safe_usingDict\<close> decodes a block that refers to a dictionary, whether the
  dictionary is empty, stands right before the output buffer, or lies anywhere else apart from it.
\<close>

theorem LZ4_decompress_safe_usingDict_decodes:
  assumes "lz4_block d ss ls" "bytes_at m source (ser_block ss 0 ls)" "bytes_at m dictStart d"
    and "io_buffers m source (int (length (ser_block ss 0 ls))) dest outputSize"
    and "int (block_size ss ls) \<le> outputSize"
    and "dictStart + int (length d) \<le> dest \<or> dest + outputSize \<le> dictStart"
  shows "\<exists>m'. LZ4_decompress_safe_usingDict m source dest (int (length (ser_block ss 0 ls))) outputSize
        dictStart (int (length d)) = Some (m', int (block_size ss ls)) \<and>
    bytes_at m' dest (decode d ss ls) \<and> same_outside m m' dest (dest + outputSize)"
  using usingDict_decodes [OF assms] by (auto simp: decodes_to_def)

text \<open>Examples: a block with one match, and memory that holds it next to an output buffer.\<close>

definition example_block :: "lz4_seq list \<times> byte list" where
  "example_block = ([\<lparr>lits = [1, 2, 3], moff = 5, mlen = 9\<rparr>], [4, 5, 6, 7, 8])"

definition example_mem :: "byte list \<Rightarrow> byte list \<Rightarrow> nat \<Rightarrow> mem" where
  "example_mem inp prefix n =
     written (written (\<lambda>_. None) 100 inp) 1000 (prefix @ replicate n 0)"

lemma example_mem_buffers:
  assumes "length inp = 12" "length prefix \<le> 100" "n \<le> 100"
  shows "io_buffers (example_mem inp prefix n) 100 12 (1000 + int (length prefix)) (int n)"
    "bytes_at (example_mem inp prefix n) 100 inp" "bytes_at (example_mem inp prefix n) 1000 prefix"
proof -
  have "bytes_at (example_mem inp prefix n) 1000 (prefix @ replicate n 0)"
    by (simp add: example_mem_def)
  then show "bytes_at (example_mem inp prefix n) 1000 prefix"
    by (simp add: bytes_at_append)
  have "mapped (example_mem inp prefix n) 1000 (1000 + (int (length prefix) + int n))"
    by (simp add: example_mem_def)
  then have "mapped (example_mem inp prefix n) (1000 + int (length prefix)) (1000 + int (length prefix) + int n)"
    by (rule mapped_subset) simp_all
  then show "io_buffers (example_mem inp prefix n) 100 12 (1000 + int (length prefix)) (int n)"
    using assms by (simp add: io_buffers_def)
  show "bytes_at (example_mem inp prefix n) 100 inp"
    unfolding example_mem_def using assms
    by (intro bytes_at_same [OF bytes_at_written same_outside_written]) simp
qed

lemma example_block_ok: "lz4_block [9, 8, 7] (fst example_block) (snd example_block)"
  by (simp add: lz4_block_def example_block_def seq_ok_def end_ok_def)

lemma example_block_values:
  "length (ser_block (fst example_block) 0 (snd example_block)) = 12"
  "block_size (fst example_block) (snd example_block) = 17"
  "decode [9, 8, 7] (fst example_block) (snd example_block) =
     [1, 2, 3, 8, 7, 1, 2, 3, 8, 7, 1, 2, 4, 5, 6, 7, 8]"
  by (code_simp)+

theorem LZ4_decompress_fast_decodes_witness:
  "\<exists>m'. LZ4_decompress_fast (example_mem (ser_block (fst example_block) 0 (snd example_block)) [9, 8, 7] 17)
       100 1003 17 = Some (m', 12) \<and>
     bytes_at m' 1003 [1, 2, 3, 8, 7, 1, 2, 3, 8, 7, 1, 2, 4, 5, 6, 7, 8]"
  using LZ4_decompress_fast_decodes [OF example_block_ok, of
      "example_mem (ser_block (fst example_block) 0 (snd example_block)) [9, 8, 7] 17" 100 1003]
    example_mem_buffers [of "ser_block (fst example_block) 0 (snd example_block)" "[9, 8, 7]" 17]
  by (auto simp: example_block_values)

theorem LZ4_decompress_safe_usingDict_decodes_witness:
  "\<exists>m'. LZ4_decompress_safe_usingDict
       (example_mem (ser_block (fst example_block) 0 (snd example_block)) [9, 8, 7] 40)
       100 1003 12 40 1000 3 = Some (m', 17) \<and>
     bytes_at m' 1003 [1, 2, 3, 8, 7, 1, 2, 3, 8, 7, 1, 2, 4, 5, 6, 7, 8]"
  using LZ4_decompress_safe_usingDict_decodes [OF example_block_ok, of
      "example_mem (ser_block (fst example_block) 0 (snd example_block)) [9, 8, 7] 40" 100 1000 1003 40]
    example_mem_buffers [of "ser_block (fst example_block) 0 (snd example_block)" "[9, 8, 7]" 40]
  by (auto simp: example_block_values)

definition example_block' :: "lz4_seq list \<times> byte list" where
  "example_block' = ([\<lparr>lits = [1, 2, 3], moff = 2, mlen = 9\<rparr>], [4, 5, 6, 7, 8])"

lemma example_block'_values:
  "length (ser_block (fst example_block') 0 (snd example_block')) = 12"
  "block_size (fst example_block') (snd example_block') = 17"
  "decode [] (fst example_block') (snd example_block') =
     [1, 2, 3, 2, 3, 2, 3, 2, 3, 2, 3, 2, 4, 5, 6, 7, 8]"
  "lz4_block [] (fst example_block') (snd example_block')"
     apply code_simp
    apply code_simp
   apply code_simp
  by (simp add: lz4_block_def example_block'_def seq_ok_def end_ok_def)

theorem LZ4_decompress_safe_decodes_witness:
  "\<exists>m'. LZ4_decompress_safe (example_mem (ser_block (fst example_block') 0 (snd example_block')) [] 40)
       100 1000 12 40 = Some (m', 17) \<and>
     bytes_at m' 1000 [1, 2, 3, 2, 3, 2, 3, 2, 3, 2, 3, 2, 4, 5, 6, 7, 8]"
  using LZ4_decompress_safe_decodes [OF example_block'_values(4), of
      "example_mem (ser_block (fst example_block') 0 (snd example_block')) [] 40" 100 1000 40]
    example_mem_buffers [of "ser_block (fst example_block') 0 (snd example_block')" "[]" 40]
  by (auto simp: example_block'_values)

end
