(* ===== verification/LZ4_Decompress_Safe.thy ===== *)
theory LZ4_Decompress_Safe
  imports LZ4_Decompress_Correct
begin

text \<open>
  The safe variants of the decoder on arbitrary, possibly hostile input: they end, access only
  the buffers they were given, and write only inside the output buffer; and what they accept is
  a block of the format, decoded as the format says.
\<close>

section \<open>Arbitrary input: one match\<close>

text \<open>The history the decoder may read is accessible down to the limit it checks.\<close>

definition history_ok :: "dec_env \<Rightarrow> mem \<Rightarrow> addr \<Rightarrow> bool" where
  "history_ok e m dest \<longleftrightarrow> lowPrefix e \<le> dest \<and> mapped m (max (lowPrefix e) (dest - 65535)) (oend e) \<and>
     (if dict e = usingExtDict
      then (checkOffset e \<or> lowLimit e \<le> lowPrefix e - 65535) \<and>
           mapped m (dictEnd e - (lowPrefix e - lowLimit e)) (dictEnd e)
      else checkOffset e \<and> lowPrefix e \<le> lowLimit e \<or> lowPrefix e \<le> dest - 65535)"

lemma history_ok_dom: "history_ok e m dest \<Longrightarrow> same_dom m m' \<Longrightarrow> history_ok e m' dest"
  by (auto simp: history_ok_def mapped_same_dom)

lemma history_ready:
  assumes "history_ok e m dest" "dest \<le> op" "off \<le> 65535" "checkOffset e \<longrightarrow> lowLimit e \<le> op - off"
  shows "match_ready e m op off"
proof (cases "dict e = usingExtDict \<and> op - off < lowPrefix e")
  case True
  moreover from this have "max (lowPrefix e) (dest - 65535) = lowPrefix e" using assms(2,3) by auto
  ultimately have h: "lowPrefix e \<le> dest" "mapped m (lowPrefix e) (oend e)"
    "checkOffset e \<or> lowLimit e \<le> lowPrefix e - 65535"
    "mapped m (dictEnd e - (lowPrefix e - lowLimit e)) (dictEnd e)"
    using assms(1) by (auto simp: history_ok_def)
  have "lowLimit e \<le> op - off" using h(1,3) assms(2-4) by auto
  then have "mapped m (dictEnd e - (lowPrefix e - (op - off))) (dictEnd e)"
    by (intro mapped_subset [OF h(4)]) auto
  then show ?thesis using True h assms(2) by (simp add: match_ready_def)
next
  case False
  have "max (lowPrefix e) (dest - 65535) \<le> op - off"
    using assms False by (auto simp: history_ok_def split: if_splits)
  moreover have "mapped m (max (lowPrefix e) (dest - 65535)) (oend e)"
    using assms(1) by (simp add: history_ok_def)
  ultimately have "mapped m (op - off) (oend e)" by (auto elim: mapped_subset)
  then show ?thesis using False by (auto simp: match_ready_def)
qed

lemma readLE16_total:
  assumes "mapped m p (p + 2)"
  shows "\<exists>off. LZ4_readLE16 m p = Some (of_nat off) \<and> off \<le> 65535 \<and>
    bytes_at m p (le_bytes 2 (of_nat off :: u16))"
proof -
  obtain bs where bs: "load_bytes m p 2 = Some bs"
    using load_bytes_mapped [of m p 2] assms by auto
  define w :: u16 where "w = word_of_le bs"
  have "le_bytes 2 w = bs"
    unfolding w_def by (rule le_bytes_word_of_le) (use bs in \<open>auto simp: load_bytes_bytes_at\<close>)
  moreover have "LZ4_readLE16 m p = Some w"
    using bs by (simp add: LZ4_readLE16_def LZ4_read16_def LZ4_isLittleEndian_def w_def)
  moreover have "unat w < 65536" by (rule order_less_le_trans [OF unsigned_less]) simp
  ultimately show ?thesis
    using bs by (intro exI [of _ "unat w"]) (auto simp: load_bytes_bytes_at)
qed

lemma decode_match_total:
  assumes e: "endOnInput e" and hist: "history_ok e m dest" "dest \<le> op" and op: "op + 8 \<le> oend e"
    and inp: "mapped m ip (iend e)" "ip \<le> iend e - 8" "iend e - ip < 2 ^ 32"
  shows "(\<exists>m' ip'. LZ4_decode_match e m ip op token = Some (Output_error m' ip') \<and>
      same_dom m m' \<and> same_outside m m' op (oend e) \<and> ip \<le> ip' \<and> ip' \<le> iend e) \<or>
    (\<exists>m' off n. LZ4_decode_match e m ip op token =
        Some (Continue m' (ip + 2 + int (length (len_ext (n - 4)))) (op + int n)) \<and>
      same_dom m m' \<and> same_outside m m' op (oend e) \<and>
      bytes_at m ip (le_bytes 2 (of_nat off :: u16) @ len_ext (n - 4)) \<and>
      uint (token AND 15) = int (min (n - 4) 15) \<and> off \<le> 65535 \<and> 4 \<le> n \<and>
      op + int n \<le> oend e - 5 \<and> ip + 2 + int (length (len_ext (n - 4))) \<le> iend e - 4 \<and>
      (checkOffset e \<longrightarrow> lowLimit e \<le> op - int off) \<and>
      (1 \<le> off \<longrightarrow> match_result e m m' (int off) op (int n)))"
    (is "?err \<or> ?cont")
proof -
  have "mapped m ip (ip + 2)" using inp(2) by (intro mapped_subset [OF inp(1)]) auto
  from readLE16_total [OF this] obtain off where off: "LZ4_readLE16 m ip = Some (of_nat off)"
    "off \<le> 65535" "bytes_at m ip (le_bytes 2 (of_nat off :: u16))"
    by blast
  have u: "uint (of_nat off :: u16) = int off"
    using off(2) by (simp add: unsigned_of_nat take_bit_nat_eq_self_iff)
  note run = LZ4_decode_match_def [of e m ip op token, unfolded off(1) Let_def bind.bind_lunit u]
  show ?thesis
  proof (cases "checkOffset e \<and> op - int off < lowLimit e")
    case True
    then have "LZ4_decode_match e m ip op token = Some (Output_error m (ip + 2))"
      by (simp add: run)
    then show ?thesis using inp(2) by (intro disjI1 exI [of _ m] exI [of _ "ip + 2"]) simp
  next
    case False
    have ready: "match_ready e m op (int off)"
      using False off(2) by (intro history_ready [OF hist]) auto
    have "mapped m (ip + 2) (iend e)" by (rule mapped_subset [OF inp(1)]) simp_all
    then consider ip' where "LZ4_get_matchLength e m (ip + 2) op token = Some (Inl ip')"
        "ip + 2 \<le> ip'" "ip' \<le> iend e"
      | ml where "LZ4_get_matchLength e m (ip + 2) op token =
          Some (Inr (ip + 2 + int (length (len_ext ml)), int ml + 4))"
        "bytes_at m (ip + 2) (len_ext ml)" "uint (token AND 15) = int (min ml 15)"
        "ip + 2 + int (length (len_ext ml)) \<le> iend e - 4"
      using get_matchLength_total [OF e, of m "ip + 2" op token] inp by auto
    then show ?thesis
    proof cases
      case (1 ip')
      then have "LZ4_decode_match e m ip op token = Some (Output_error m ip')"
        using False by (auto simp: run)
      then show ?thesis using 1 by (intro disjI1 exI [of _ m] exI [of _ ip']) simp
    next
      case (2 ml)
      let ?ip = "ip + 2 + int (length (len_ext ml))"
      have step: "LZ4_decode_match e m ip op token =
          LZ4_copy_sequence e m ?ip op (op - int off) (int ml + 4)"
        using False 2(1) by (auto simp: run)
      obtain m' where m': "LZ4_copy_sequence e m ?ip op (op - int off) (int ml + 4) =
          Some (if oend e - 5 < op + (int ml + 4) then Output_error m' ?ip
                else Continue m' ?ip (op + (int ml + 4)))"
        "same_dom m m'" "same_outside m m' op (oend e)"
        "op + (int ml + 4) \<le> oend e - 5 \<and> 1 \<le> int off \<longrightarrow> match_result e m m' (int off) op (int ml + 4)"
        using LZ4_copy_sequence_spec [OF _ _ op ready, of "int ml + 4"] by force
      show ?thesis
      proof (cases "oend e - 5 < op + (int ml + 4)")
        case True
        then show ?thesis
          using step m' 2(4) by (intro disjI1 exI [of _ m'] exI [of _ ?ip]) simp
      next
        case ok: False
        have ml: "ml + 4 - 4 = ml" "int (ml + 4) = int ml + 4" by simp_all
        show ?thesis
          by (rule disjI2, intro exI [of _ m'] exI [of _ off] exI [of _ "ml + 4"], unfold ml)
            (use step m' 2 ok off False in \<open>auto simp: bytes_at_append\<close>)
      qed
    qed
  qed
qed

section \<open>Arbitrary input: one sequence\<close>

lemma wildCopy_literals_total:
  assumes w: "w = max 8 (int (length ls) + 7)"
    and map: "mapped m ip (ip + w)" "mapped m op (op + w)" and lits: "bytes_at m ip ls"
  shows "\<exists>m'. LZ4_wildCopy m op ip (op + int (length ls)) = Some m' \<and> same_dom m m' \<and>
    same_outside m m' op (op + w) \<and> (ip + w \<le> op \<or> op + w \<le> ip \<longrightarrow> bytes_at m' op ls)"
proof -
  define D where "D = op - ip"
  have D: "op - D = ip" "op + w - D = ip + w" by (simp_all add: D_def)
  have max: "max (op + 8) (op + int (length ls) + 7) = op + w" using w by simp
  have "mapped m op (max (op + 8) (op + int (length ls) + 7))"
    "mapped m (op - D) (max (op + 8) (op + int (length ls) + 7) - D)"
    unfolding max using map by (simp_all add: D)
  from LZ4_wildCopy_spec [OF this] obtain m' K where
    m': "LZ4_wildCopy m op ip (op + int (length ls)) = Some m'"
      "op + K \<le> op + w" "same_dom m m'" "same_outside m m' op (op + K)"
    unfolding max D by blast
  have "same_outside m m' op (op + w)"
    using m'(2) by (intro same_outside_mono [OF m'(4)]) auto
  then show ?thesis
    using m' wildCopy_literals [OF lits w map] by auto
qed

text \<open>Where one turn of the loop leaves the memory and the pointers.\<close>

definition step_safe :: "dec_env \<Rightarrow> mem \<Rightarrow> addr \<Rightarrow> addr \<Rightarrow> dec_outcome \<Rightarrow> bool" where
  "step_safe e m ip op r \<longleftrightarrow> (case r of
       Continue m' ip' op' \<Rightarrow> same_dom m m' \<and> same_outside m m' op (oend e) \<and>
         ip < ip' \<and> ip' \<le> iend e - 4 \<and> op \<le> op' \<and> op' \<le> oend e
     | Break m' ip' op' \<Rightarrow> same_dom m m' \<and> same_outside m m' op (oend e) \<and>
         ip \<le> ip' \<and> ip' \<le> iend e \<and> op \<le> op' \<and> op' \<le> oend e
     | Output_error m' ip' \<Rightarrow> same_dom m m' \<and> same_outside m m' op (oend e) \<and> ip \<le> ip' \<and> ip' \<le> iend e)"

text \<open>What it has read and decoded, if it did not fail.\<close>

definition step_sound :: "dec_env \<Rightarrow> mem \<Rightarrow> addr \<Rightarrow> addr \<Rightarrow> dec_outcome \<Rightarrow> bool" where
  "step_sound e m ip op r \<longleftrightarrow> (case r of
       Continue m' ip' op' \<Rightarrow> \<exists>s. bytes_at m ip (ser_seq s) \<and>
         ip' = ip + int (length (ser_seq s)) \<and> op' = op + int (seq_size s) \<and>
         moff s \<le> 65535 \<and> 4 \<le> mlen s \<and>
         (checkOffset e \<longrightarrow> lowLimit e \<le> op + int (length (lits s)) - int (moff s)) \<and>
         (\<forall>out. seq_ok out s \<and> hist_at e m op out \<and> dict_apart e op (length out) \<longrightarrow>
            hist_at e m' op' (apply_seq out s))
     | Break m' ip' op' \<Rightarrow> \<exists>t ls. bytes_at m ip (ser_last t ls) \<and> iend e = ip + int (length (ser_last t ls)) \<and>
         op' = op + int (length ls) \<and>
         (\<forall>out. hist_at e m op out \<and> dict_apart e op (length out) \<longrightarrow> hist_at e m' op' (out @ ls))
     | Output_error m' ip' \<Rightarrow> True)"

lemma last_literals_total:
  assumes e: "endOnInput e" and ip1: "ip < ip1" "ip1 \<le> iend e" and op: "op \<le> oend e"
    and map: "mapped m ip (iend e)" "mapped m op (oend e)"
    and parsed: "m ip = Some token" "bytes_at m (ip + 1) (len_ext ll) \<and> ip1 = ip + 1 + int (length (len_ext ll)) \<and>
        uint (drop_bit 4 token) = int (min ll 15) \<or> iend e < ip1 + int ll"
  shows "\<exists>r. LZ4_last_literals e m ip1 op (int ll) = Some r \<and> step_safe e m ip op r \<and>
    (\<not> partialDecoding e \<longrightarrow> step_sound e m ip op r)"
proof (cases "(if partialDecoding e then op + int ll > oend e \<or> ip1 + int ll > iend e
    else ip1 + int ll \<noteq> iend e \<or> op + int ll > oend e)")
  case True
  then have "LZ4_last_literals e m ip1 op (int ll) = Some (Output_error m ip1)"
    using e by (auto simp: LZ4_last_literals_def Let_def)
  then show ?thesis using ip1 by (simp add: step_safe_def step_sound_def)
next
  case False
  then have fits: "op + int ll \<le> oend e" "ip1 + int ll \<le> iend e" "\<not> partialDecoding e \<longrightarrow> ip1 + int ll = iend e"
    by (auto split: if_splits)
  have src: "mapped m ip1 (ip1 + int ll)" and dst: "mapped m op (op + int ll)"
    using ip1 fits by (auto intro: mapped_subset [OF map(1)] mapped_subset [OF map(2)])
  let ?m = "copied m op ip1 (int ll)"
  have run: "LZ4_last_literals e m ip1 op (int ll) = Some (Break ?m (ip1 + int ll) (op + int ll))"
    using False e src dst by (auto simp: LZ4_last_literals_def Let_def mem_simps)
  have out: "same_outside m ?m op (oend e)"
    using fits(1) by (intro same_outside_mono [OF same_outside_copied]) auto
  obtain ls where ls: "length ls = ll" "bytes_at m ip1 ls"
    using load_bytes_mapped [OF src] by (auto simp: load_bytes_bytes_at)
  obtain t where "uint (token AND 15) = int t"
    by (rule nonneg_int_cases [of "uint (token AND 15)"]) simp_all
  then have t: "uint (token AND 15) = int (min t 15)"
    using token_low_less [of token] by auto
  have "step_sound e m ip op (Break ?m (ip1 + int ll) (op + int ll))" if "\<not> partialDecoding e"
  proof -
    have p: "bytes_at m (ip + 1) (len_ext ll)" "ip1 = ip + 1 + int (length (len_ext ll))"
      "token = mk_token ll t"
      using parsed(2) fits(2) t by (auto intro: token_eqI)
    have "bytes_at m ip (ser_last t ls)"
      using parsed(1) p ls by (simp add: ser_last_def bytes_at_append add.assoc)
    moreover have "iend e = ip + int (length (ser_last t ls))"
      using fits(3) that p(2) ls(1) by (simp add: length_ser_last)
    moreover have "hist_at e ?m (op + int ll) (out @ ls)" if "hist_at e m op out" "dict_apart e op (length out)" for out
      using hist_at_bytes [OF that(1) out that(2), of ls] bytes_at_copied [OF ls(2), of "int ll" op] ls(1)
      by simp
    ultimately show ?thesis using ls(1) by (auto simp: step_sound_def)
  qed
  then show ?thesis
    using run out same_dom_copied [OF src dst] ip1 fits by (simp add: step_safe_def)
qed

lemma sequence_sound:
  assumes token: "m ip = Some token" and lit: "bytes_at m (ip + 1) (len_ext ll)"
      "ip1 = ip + 1 + int (length (len_ext ll))" "uint (drop_bit 4 token) = int (min ll 15)"
    and ls: "length ls = ll" "bytes_at m ip1 ls" and n: "uint (token AND 15) = int (min (n - 4) 15)"
      "off \<le> 65535" "4 \<le> n" "checkOffset e \<longrightarrow> lowLimit e \<le> op + int ll - int off"
    and m1: "same_outside m m1 op (oend e)" "bytes_at m1 op ls"
    and at: "bytes_at m (ip1 + int ll) (le_bytes 2 (of_nat off :: u16) @ len_ext (n - 4))"
    and m2: "same_outside m1 m2 (op + int ll) (oend e)"
      "1 \<le> off \<longrightarrow> match_result e m1 m2 (int off) (op + int ll) (int n)"
  shows "step_sound e m ip op
    (Continue m2 (ip1 + int ll + 2 + int (length (len_ext (n - 4)))) (op + int ll + int n))"
proof -
  define s where "s = \<lparr>lits = ls, moff = off, mlen = n\<rparr>"
  have s: "lits s = ls" "moff s = off" "mlen s = n" by (simp_all add: s_def)
  have "token = mk_token ll (n - 4)" using lit(3) n(1) by (rule token_eqI)
  then have at_s: "bytes_at m ip (ser_seq s)"
    using token lit ls at by (simp add: ser_seq_def s bytes_at_append add.assoc)
  have ip: "ip1 + int ll + 2 + int (length (len_ext (n - 4))) = ip + int (length (ser_seq s))"
    using lit(2) ls(1) by (simp add: length_ser_seq s)
  have op: "op + int ll + int n = op + int (seq_size s)" using ls(1) by (simp add: seq_size_def s)
  have hist: "hist_at e m2 (op + int (seq_size s)) (apply_seq out s)"
    if h: "seq_ok out s" "hist_at e m op out" "dict_apart e op (length out)" for out
  proof -
    have "hist_at e m1 (op + int ll) (out @ ls)"
      using hist_at_bytes [OF h(2) m1(1) h(3) m1(2)] ls(1) by simp
    moreover have "dict_apart e (op + int ll) (length (out @ ls))"
      using dict_apart_step [OF h(3), of ll] ls(1) by simp
    ultimately have "hist_at e m2 (op + int ll + int n) (apply_seq out s)"
      using hist_at_match [OF _ m2(1), of "out @ ls" off n] m2(2) h(1) ls(1)
      by (simp add: seq_ok_def s apply_seq_def)
    then show ?thesis by (simp only: op)
  qed
  show ?thesis
    unfolding ip op step_sound_def dec_outcome.case
    using at_s n hist by (intro exI [of _ s]) (simp add: s ls(1))
qed

lemma decode_sequence_total:
  assumes e: "endOnInput e" "partialDecoding e \<longrightarrow> oexit e \<le> oend e - 12"
    and hist: "history_ok e m dest" "dest \<le> op" "op \<le> oend e"
    and inp: "mapped m ip (iend e)" "ip < iend e" "iend e - ip < 2 ^ 31"
    and first: "ip + 1 < iend e \<or> (\<exists>b. m ip = Some b \<and> uint (drop_bit 4 b) \<noteq> 15)"
  shows "\<exists>r. LZ4_decode_sequence e m ip op = Some r \<and> step_safe e m ip op r \<and>
    (\<not> partialDecoding e \<and> (iend e \<le> op \<or> oend e \<le> ip) \<longrightarrow> step_sound e m ip op r)"
proof -
  obtain token where token: "m ip = Some token" using inp by (auto simp: mapped_def)
  have mapo: "mapped m op (oend e)"
    using hist by (auto simp: history_ok_def elim: mapped_subset)
  have mapi: "mapped m (ip + 1) (iend e)" by (rule mapped_subset [OF inp(1)]) simp_all
  have "ip + 1 < iend e \<or> uint (drop_bit 4 token) \<noteq> 15" using first token by auto
  then consider (err) ip' where "LZ4_get_literalLength e m (ip + 1) op token = Some (Inl ip')"
      "ip + 1 \<le> ip'" "ip' \<le> iend e"
    | (ok) ip1 ll where "LZ4_get_literalLength e m (ip + 1) op token = Some (Inr (ip1, int ll))"
      "ip + 1 \<le> ip1" "ip1 \<le> iend e"
      "bytes_at m (ip + 1) (len_ext ll) \<and> ip1 = ip + 1 + int (length (len_ext ll)) \<and>
          uint (drop_bit 4 token) = int (min ll 15) \<or> iend e < ip1 + int ll"
    using get_literalLength_total [OF e(1) mapi, of token op] inp by auto
  then show ?thesis
  proof cases
    case err
    then have "LZ4_decode_sequence e m ip op = Some (Output_error m ip')"
      using token by (simp add: LZ4_decode_sequence_def)
    then show ?thesis using err by (simp add: step_safe_def step_sound_def)
  next
    case ok
    let ?last = "op + int ll > (if partialDecoding e then oexit e else oend e - 12) \<or> ip1 + int ll > iend e - 8"
    show ?thesis
    proof (cases ?last)
      case True
      then have "LZ4_decode_sequence e m ip op = LZ4_last_literals e m ip1 op (int ll)"
        using e token ok(1) by (auto simp: LZ4_decode_sequence_def Let_def)
      then show ?thesis
        using last_literals_total [OF e(1) _ ok(3) hist(3) inp(1) mapo token ok(4)] ok(2) by auto
    next
      case False
      have lit: "bytes_at m (ip + 1) (len_ext ll)" "ip1 = ip + 1 + int (length (len_ext ll))"
        "uint (drop_bit 4 token) = int (min ll 15)"
        using ok(4) False by auto
      have fits: "op + int ll + 12 \<le> oend e" "ip1 + int ll + 8 \<le> iend e"
        using False e(2) by (auto split: if_splits)
      have "mapped m ip1 (ip1 + int ll)"
        using ok(2) fits by (intro mapped_subset [OF inp(1)]) auto
      then obtain ls where ls: "length ls = ll" "bytes_at m ip1 ls"
        using load_bytes_mapped [of m ip1 ll] by (auto simp: load_bytes_bytes_at)
      have "mapped m ip1 (ip1 + max 8 (int (length ls) + 7))"
        using ok(2) fits ls by (intro mapped_subset [OF inp(1)]) auto
      moreover have "mapped m op (op + max 8 (int (length ls) + 7))"
        using fits ls by (intro mapped_subset [OF mapo]) auto
      ultimately
      obtain m1 where m1: "LZ4_wildCopy m op ip1 (op + int ll) = Some m1" "same_dom m m1"
        "same_outside m m1 op (op + max 8 (int ll + 7))"
        "ip1 + max 8 (int ll + 7) \<le> op \<or> op + max 8 (int ll + 7) \<le> ip1 \<longrightarrow> bytes_at m1 op ls"
        using wildCopy_literals_total [OF refl _ _ ls(2)] unfolding ls(1) by blast
      have out1: "same_outside m m1 op (oend e)"
        using fits(1) by (intro same_outside_mono [OF m1(3)]) auto
      have run: "LZ4_decode_sequence e m ip op = LZ4_decode_match e m1 (ip1 + int ll) (op + int ll) token"
        using False e token ok(1) m1(1) by (auto simp: LZ4_decode_sequence_def Let_def)
      have "mapped m1 (ip1 + int ll) (iend e)"
        using ok(2) by (intro mapped_dom [OF mapped_subset [OF inp(1)] m1(2)]) auto
      then consider (stop) m2 ip2 where "LZ4_decode_sequence e m ip op = Some (Output_error m2 ip2)"
          "same_dom m1 m2" "same_outside m1 m2 (op + int ll) (oend e)" "ip1 + int ll \<le> ip2" "ip2 \<le> iend e"
        | (go) m2 off n where "LZ4_decode_sequence e m ip op =
            Some (Continue m2 (ip1 + int ll + 2 + int (length (len_ext (n - 4)))) (op + int ll + int n))"
          "same_dom m1 m2" "same_outside m1 m2 (op + int ll) (oend e)"
          "bytes_at m1 (ip1 + int ll) (le_bytes 2 (of_nat off :: u16) @ len_ext (n - 4))"
          "uint (token AND 15) = int (min (n - 4) 15)" "off \<le> 65535" "4 \<le> n"
          "op + int ll + int n \<le> oend e - 5"
          "ip1 + int ll + 2 + int (length (len_ext (n - 4))) \<le> iend e - 4"
          "checkOffset e \<longrightarrow> lowLimit e \<le> op + int ll - int off"
          "1 \<le> off \<longrightarrow> match_result e m1 m2 (int off) (op + int ll) (int n)"
        using decode_match_total [OF e(1) history_ok_dom [OF hist(1) m1(2)], of "op + int ll" "ip1 + int ll" token]
          hist fits inp ok(2) run by auto
      then show ?thesis
      proof cases
        case stop
        have "same_outside m m2 op (oend e)"
          by (rule same_outside_union [OF out1 stop(3)]) auto
        then show ?thesis
          using stop ok(2) same_dom_trans [OF m1(2) stop(2)] by (simp add: step_safe_def step_sound_def)
      next
        case go
        have out2: "same_outside m m2 op (oend e)"
          by (rule same_outside_union [OF out1 go(3)]) auto
        have "step_sound e m ip op
            (Continue m2 (ip1 + int ll + 2 + int (length (len_ext (n - 4)))) (op + int ll + int n))"
          if apart: "iend e \<le> op \<or> oend e \<le> ip"
        proof (rule sequence_sound [OF token lit ls go(5-7,10) out1 _ _ go(3,11)])
          show "bytes_at m1 op ls" using m1(4) apart fits ok(2) by auto
          show "bytes_at m (ip1 + int ll) (le_bytes 2 (of_nat off :: u16) @ len_ext (n - 4))"
            unfolding bytes_at_iff
          proof (intro allI impI)
            fix i assume i: "ip1 + int ll \<le> i \<and>
              i < ip1 + int ll + int (length (le_bytes 2 (of_nat off :: u16) @ len_ext (n - 4)))"
            then have "m1 i = m i"
              using apart go(9) ok(2) by (intro same_outsideD [OF out1]) auto
            then show "m i = Some ((le_bytes 2 (of_nat off :: u16) @ len_ext (n - 4)) ! nat (i - (ip1 + int ll)))"
              using go(4) i by (simp add: bytes_at_iff)
          qed
        qed
        then show ?thesis
          using go out2 same_dom_trans [OF m1(2) go(2)] ok(2) by (simp add: step_safe_def)
      qed
    qed
  qed
qed

section \<open>Arbitrary input: the whole block\<close>

definition loop_sound :: "dec_env \<Rightarrow> mem \<Rightarrow> addr \<Rightarrow> addr \<Rightarrow> mem \<Rightarrow> addr \<Rightarrow> bool" where
  "loop_sound e m ip op m' op' \<longleftrightarrow> (\<exists>ss t ls. bytes_at m ip (ser_block ss t ls) \<and>
     iend e = ip + int (length (ser_block ss t ls)) \<and> op' = op + int (block_size ss ls) \<and>
     (\<forall>out. (\<forall>s \<in> set ss. 1 \<le> moff s) \<and> checkOffset e \<and> lowLimit e = op - int (length out) \<and>
        hist_at e m op out \<and> dict_apart e op (length out) \<longrightarrow>
        seqs_ok out ss \<and> hist_at e m' op' (foldl apply_seq out ss @ ls)))"

definition loop_safe :: "dec_env \<Rightarrow> mem \<Rightarrow> addr \<Rightarrow> addr \<Rightarrow> dec_outcome \<Rightarrow> bool" where
  "loop_safe e m ip op r \<longleftrightarrow> (case r of
       Continue m' ip' op' \<Rightarrow> False
     | Break m' ip' op' \<Rightarrow> same_dom m m' \<and> same_outside m m' op (oend e) \<and>
         ip \<le> ip' \<and> ip' \<le> iend e \<and> op \<le> op' \<and> op' \<le> oend e \<and>
         (\<not> partialDecoding e \<and> (iend e \<le> op \<or> oend e \<le> ip) \<longrightarrow> loop_sound e m ip op m' op')
     | Output_error m' ip' \<Rightarrow> same_dom m m' \<and> same_outside m m' op (oend e) \<and> ip \<le> ip' \<and> ip' \<le> iend e)"

lemma loop_sound_last:
  assumes "step_sound e m ip op (Break m' ip' op')"
  shows "loop_sound e m ip op m' op'"
proof -
  from assms obtain t ls where "bytes_at m ip (ser_last t ls)" "iend e = ip + int (length (ser_last t ls))"
    "op' = op + int (length ls)"
    "\<forall>out. hist_at e m op out \<and> dict_apart e op (length out) \<longrightarrow> hist_at e m' op' (out @ ls)"
    by (auto simp: step_sound_def)
  then show ?thesis
    unfolding loop_sound_def
    by (intro exI [of _ "[]"] exI [of _ t] exI [of _ ls]) (simp add: ser_block_Nil block_size_def)
qed

lemma loop_sound_step:
  assumes step: "step_sound e m ip op (Continue m1 ip1 op1)" and sound: "loop_sound e m1 ip1 op1 m' op'"
    and out: "same_outside m m1 op (oend e)" and apart: "iend e \<le> op \<or> oend e \<le> ip"
  shows "loop_sound e m ip op m' op'"
proof -
  from step obtain s where s: "bytes_at m ip (ser_seq s)" "ip1 = ip + int (length (ser_seq s))"
    "op1 = op + int (seq_size s)" "moff s \<le> 65535" "4 \<le> mlen s"
    "checkOffset e \<longrightarrow> lowLimit e \<le> op + int (length (lits s)) - int (moff s)"
    "\<And>out. seq_ok out s \<Longrightarrow> hist_at e m op out \<Longrightarrow> dict_apart e op (length out) \<Longrightarrow>
        hist_at e m1 op1 (apply_seq out s)"
    by (auto simp: step_sound_def)
  from sound obtain ss t ls where ss: "bytes_at m1 ip1 (ser_block ss t ls)"
    "iend e = ip1 + int (length (ser_block ss t ls))" "op' = op1 + int (block_size ss ls)"
    "\<And>out. \<lbrakk>\<forall>s \<in> set ss. 1 \<le> moff s; checkOffset e; lowLimit e = op1 - int (length out);
        hist_at e m1 op1 out; dict_apart e op1 (length out)\<rbrakk> \<Longrightarrow>
        seqs_ok out ss \<and> hist_at e m' op' (foldl apply_seq out ss @ ls)"
    unfolding loop_sound_def by auto
  have "bytes_at m ip1 (ser_block ss t ls)"
    using apart ss(2) s(2) by (intro bytes_at_same [OF ss(1) same_outside_sym [OF out]]) auto
  then have "bytes_at m ip (ser_block (s # ss) t ls)"
    using s(1,2) by (simp add: ser_block_Cons bytes_at_append)
  moreover have "seqs_ok out (s # ss) \<and> hist_at e m' op' (foldl apply_seq out (s # ss) @ ls)"
    if h: "\<forall>s \<in> set (s # ss). 1 \<le> moff s" "checkOffset e" "lowLimit e = op - int (length out)"
      "hist_at e m op out" "dict_apart e op (length out)" for out
  proof -
    have ok: "seq_ok out s" using s(4,5,6) h(1,2,3) by (simp add: seq_ok_def)
    have "dict_apart e op1 (length (apply_seq out s))"
      using dict_apart_step [OF h(5), of "seq_size s"] s(3) by simp
    then show ?thesis
      using ss(4) [of "apply_seq out s"] s(3,7) h ok by simp
  qed
  ultimately show ?thesis
    unfolding loop_sound_def using s(2,3) ss(2,3)
    by (intro exI [of _ "s # ss"] exI [of _ t] exI [of _ ls])
      (simp add: ser_block_Cons block_size_Cons)
qed

lemma decode_loop_total:
  assumes e: "endOnInput e" "partialDecoding e \<longrightarrow> oexit e \<le> oend e - 12"
  shows "history_ok e m dest \<Longrightarrow> dest \<le> op \<Longrightarrow> op \<le> oend e \<Longrightarrow> mapped m ip (iend e) \<Longrightarrow> ip < iend e \<Longrightarrow>
    iend e - ip < 2 ^ 31 \<Longrightarrow> (ip + 1 < iend e \<or> (\<exists>b. m ip = Some b \<and> uint (drop_bit 4 b) \<noteq> 15)) \<Longrightarrow>
    \<exists>r. LZ4_decode_loop e m ip op = Some r \<and> loop_safe e m ip op r"
proof (induction "nat (iend e - ip)" arbitrary: m ip op rule: less_induct)
  case less
  obtain r where r: "LZ4_decode_sequence e m ip op = Some r" "step_safe e m ip op r"
    "\<not> partialDecoding e \<and> (iend e \<le> op \<or> oend e \<le> ip) \<longrightarrow> step_sound e m ip op r"
    using decode_sequence_total [OF e less.prems] by blast
  show ?case
  proof (cases r)
    case (Output_error m' ip')
    then show ?thesis
      using r by (simp add: LZ4_decode_loop.simps [of e m ip op] loop_safe_def step_safe_def)
  next
    case (Break m' ip' op')
    then show ?thesis
      using r loop_sound_last [of e m ip op m' ip' op']
      by (simp add: LZ4_decode_loop.simps [of e m ip op] loop_safe_def step_safe_def)
  next
    case (Continue m1 ip1 op1)
    then have s: "same_dom m m1" "same_outside m m1 op (oend e)" "ip < ip1" "ip1 \<le> iend e - 4"
      "op \<le> op1" "op1 \<le> oend e"
      using r(2) by (simp_all add: step_safe_def)
    have "mapped m1 ip1 (iend e)"
      using s(3) by (intro mapped_dom [OF mapped_subset [OF less.prems(4)] s(1)]) auto
    then obtain r' where r': "LZ4_decode_loop e m1 ip1 op1 = Some r'" "loop_safe e m1 ip1 op1 r'"
      using less.hyps [of ip1 m1 op1] history_ok_dom [OF less.prems(1) s(1)] less.prems s by auto
    have run: "LZ4_decode_loop e m ip op = Some r'"
      using r(1) Continue r'(1) by (simp add: LZ4_decode_loop.simps [of e m ip op])
    have out: "same_outside m m' op (oend e)" if "same_outside m1 m' op1 (oend e)" for m'
      by (rule same_outside_union [OF s(2) that]) (use s(5) in auto)
    have sound: "loop_sound e m ip op m' op'"
      if "loop_sound e m1 ip1 op1 m' op'" "\<not> partialDecoding e" "iend e \<le> op \<or> oend e \<le> ip" for m' op'
      using loop_sound_step [OF _ that(1) s(2) that(3)] r(3) that Continue by simp
    have "loop_safe e m ip op r'"
      using r'(2) s out sound by (cases r') (auto simp: loop_safe_def intro: same_dom_trans)
    then show ?thesis using run by blast
  qed
qed

section \<open>The entry points\<close>

lemma decompress_generic_total:
  fixes source dest inputSize outputSize part tgt dct lowPfx dictStart dictSize
  defines "e \<equiv> dec_env_of source dest inputSize outputSize endOnInputSize part tgt dct lowPfx dictStart dictSize"
  assumes sizes: "0 \<le> inputSize" "inputSize < 2 ^ 31" "0 \<le> outputSize" "outputSize < 2 ^ 31"
    and inp: "mapped m source (source + inputSize)" and hist: "history_ok e m dest"
    and first: "outputSize = 0 \<or> 2 \<le> inputSize \<or>
      inputSize = 1 \<and> (\<exists>b. m source = Some b \<and> uint (drop_bit 4 b) \<noteq> 15)"
  shows "\<exists>m' r. LZ4_decompress_generic m source dest inputSize outputSize endOnInputSize part tgt dct
        lowPfx dictStart dictSize = Some (m', r) \<and>
    same_dom m m' \<and> same_outside m m' dest (dest + outputSize) \<and> - inputSize - 1 \<le> r \<and> r \<le> outputSize \<and>
    (0 \<le> r \<and> 0 < outputSize \<and> part = full \<and> (source + inputSize \<le> dest \<or> dest + outputSize \<le> source) \<longrightarrow>
       loop_sound e m source dest m' (dest + r))"
proof -
  have e: "endOnInput e" "partialDecoding e \<longrightarrow> oexit e \<le> oend e - 12" "oend e = dest + outputSize"
    "iend e = source + inputSize" "partialDecoding e \<longleftrightarrow> part = partial"
    by (simp_all add: e_def dec_env_of_def Let_def)
  note run = LZ4_decompress_generic_def [of m source dest inputSize outputSize endOnInputSize part tgt
      dct lowPfx dictStart dictSize, folded e_def, unfolded Let_def]
  show ?thesis
  proof (cases "outputSize = 0")
    case True
    show ?thesis
    proof (cases "inputSize = 1")
      case one: True
      then obtain b where "m source = Some b" using inp by (auto simp: mapped_def)
      then show ?thesis unfolding run using True one e by simp
    next
      case False
      then show ?thesis unfolding run using True sizes e by simp
    qed
  next
    case False
    obtain r where r: "LZ4_decode_loop e m source dest = Some r" "loop_safe e m source dest r"
      using decode_loop_total [OF e(1,2) hist, of dest source] inp first False sizes e(3,4) by auto
    show ?thesis
    proof (cases r)
      case (Break m' ip' op')
      then have "0 \<le> op' - dest" "op' - dest \<le> outputSize" "same_dom m m'"
        "same_outside m m' dest (dest + outputSize)"
        "\<not> partialDecoding e \<and> (iend e \<le> dest \<or> oend e \<le> source) \<longrightarrow> loop_sound e m source dest m' op'"
        using r(2) e(3) by (simp_all add: loop_safe_def)
      then show ?thesis
        unfolding run using r(1) Break False sizes e by (cases part) auto
    next
      case (Output_error m' ip')
      then have "0 \<le> ip' - source" "ip' - source \<le> inputSize" "same_dom m m'"
        "same_outside m m' dest (dest + outputSize)"
        using r(2) e(3,4) by (simp_all add: loop_safe_def)
      then show ?thesis
        unfolding run using r(1) Output_error False sizes e by auto
    next
      case (Continue m' ip' op')
      then show ?thesis using r(2) by (simp add: loop_safe_def)
    qed
  qed
qed

text \<open>
  C8: on any input of at least two bytes (or of one byte whose token announces no long run, or
  with an empty output buffer) \<open>LZ4_decompress_safe\<close> ends, reads nothing outside the two
  buffers, writes nothing outside the output buffer, and returns a value between the negated
  input size minus one and the output size.
\<close>

theorem LZ4_decompress_safe_total:
  assumes "0 \<le> inputSize" "inputSize < 2 ^ 31" "0 \<le> outputSize" "outputSize < 2 ^ 31"
    and "mapped m source (source + inputSize)" "mapped m dest (dest + outputSize)"
    and "outputSize = 0 \<or> 2 \<le> inputSize \<or>
      inputSize = 1 \<and> (\<exists>b. m source = Some b \<and> uint (drop_bit 4 b) \<noteq> 15)"
  shows "\<exists>m' r. LZ4_decompress_safe m source dest inputSize outputSize = Some (m', r) \<and>
    same_outside m m' dest (dest + outputSize) \<and> - inputSize - 1 \<le> r \<and> r \<le> outputSize"
  unfolding LZ4_decompress_safe_def
  using decompress_generic_total [OF assms(1-5) _ assms(7), of dest full 0 noDict dest 0 0] assms(6)
  by (auto simp: history_ok_def dec_env_simps max_def)

text \<open>
  C13: the same for \<open>LZ4_decompress_safe_partial\<close>, whatever target size is asked for: on any input of at
  least two bytes (or of one byte whose token announces no long run, or with an empty output buffer) it
  ends, reads nothing outside the two buffers, writes nothing outside the output buffer, and returns a
  value between the negated input size minus one and the output size.
\<close>

theorem LZ4_decompress_safe_partial_total:
  assumes "0 \<le> inputSize" "inputSize < 2 ^ 31" "0 \<le> outputSize" "outputSize < 2 ^ 31"
    and "mapped m source (source + inputSize)" "mapped m dest (dest + outputSize)"
    and "outputSize = 0 \<or> 2 \<le> inputSize \<or>
      inputSize = 1 \<and> (\<exists>b. m source = Some b \<and> uint (drop_bit 4 b) \<noteq> 15)"
  shows "\<exists>m' r. LZ4_decompress_safe_partial m source dest inputSize targetOutputSize outputSize = Some (m', r) \<and>
    same_outside m m' dest (dest + outputSize) \<and> - inputSize - 1 \<le> r \<and> r \<le> outputSize"
  unfolding LZ4_decompress_safe_partial_def
  using decompress_generic_total [OF assms(1-5) _ assms(7), of dest partial targetOutputSize noDict dest 0 0]
    assms(6)
  by (auto simp: history_ok_def dec_env_simps max_def)

text \<open>
  C12: the same for \<open>LZ4_decompress_safe_usingDict\<close>, for a dictionary of any size at any place: on any
  input of at least two bytes (or of one byte whose token announces no long run, or with an empty output
  buffer) it ends, reads nothing outside the two buffers and the dictionary, writes nothing outside the
  output buffer, and returns a value between the negated input size minus one and the output size.
\<close>

theorem LZ4_decompress_safe_usingDict_total:
  assumes "0 \<le> inputSize" "inputSize < 2 ^ 31" "0 \<le> outputSize" "outputSize < 2 ^ 31"
    and "mapped m source (source + inputSize)" "mapped m dest (dest + outputSize)"
    and "outputSize = 0 \<or> 2 \<le> inputSize \<or>
      inputSize = 1 \<and> (\<exists>b. m source = Some b \<and> uint (drop_bit 4 b) \<noteq> 15)"
    and "0 \<le> dictSize" "mapped m dictStart (dictStart + dictSize)"
  shows "\<exists>m' r. LZ4_decompress_safe_usingDict m source dest inputSize outputSize dictStart dictSize = Some (m', r) \<and>
    same_outside m m' dest (dest + outputSize) \<and> - inputSize - 1 \<le> r \<and> r \<le> outputSize"
proof -
  note total = decompress_generic_total [OF assms(1-5) _ assms(7), of dest full 0]
  consider "dictSize = 0" | "dictSize > 0" "dictStart + dictSize = dest" "KB64 - 1 \<le> dictSize"
    | "dictSize > 0" "dictStart + dictSize = dest" "dictSize < KB64 - 1"
    | "dictSize > 0" "dictStart + dictSize \<noteq> dest"
    using assms(8) by linarith
  then show ?thesis
  proof cases
    case 1
    then show ?thesis
      using total [of noDict dest 0 0] assms(6)
      by (auto simp: LZ4_decompress_safe_usingDict_def LZ4_decompress_usingDict_generic_def
          history_ok_def dec_env_simps max_def)
  next
    case 2
    have "mapped m (dest - 65535) (dest + outputSize)"
      using 2 mapped_union [OF assms(9), of "dest + outputSize"] assms(6)
      by (auto elim!: mapped_subset)
    then show ?thesis
      using 2 total [of withPrefix64k "dest - KB64" 0 0]
      by (auto simp: LZ4_decompress_safe_usingDict_def LZ4_decompress_usingDict_generic_def
          history_ok_def dec_env_simps max_def)
  next
    case 3
    have "mapped m (dest - dictSize) (dest + outputSize)"
      using 3 mapped_union [OF assms(9), of "dest + outputSize"] assms(6) by auto
    then show ?thesis
      using 3 total [of noDict "dest - dictSize" 0 0]
      by (auto simp: LZ4_decompress_safe_usingDict_def LZ4_decompress_usingDict_generic_def
          history_ok_def dec_env_simps max_def elim!: mapped_subset)
  next
    case 4
    have "dictSize < KB64 \<or> 65535 \<le> dictSize" by linarith
    then show ?thesis
      using 4 total [of usingExtDict dest dictStart dictSize] assms(6,9)
      by (auto simp: LZ4_decompress_safe_usingDict_def LZ4_decompress_usingDict_generic_def
          history_ok_def dec_env_simps max_def)
  qed
qed

text \<open>
  C9: what \<open>LZ4_decompress_safe\<close> accepts is a block of the format: if it returns a non-negative
  value, the whole input is the encoding of some sequences and last literals, the value is the
  size of their data, and, if no offset is zero, the sequences are well formed and the output
  buffer starts with exactly the data they stand for.
\<close>

theorem LZ4_decompress_safe_sound:
  assumes inp: "bytes_at m source inp" "int (length inp) < 2 ^ 31"
    and out: "mapped m dest (dest + outputSize)" "0 < outputSize" "outputSize < 2 ^ 31"
    and apart: "source + int (length inp) \<le> dest \<or> dest + outputSize \<le> source"
    and run: "LZ4_decompress_safe m source dest (int (length inp)) outputSize = Some (m', r)" "0 \<le> r"
    and first: "2 \<le> length inp \<or> length inp = 1 \<and> uint (drop_bit 4 (inp ! 0)) \<noteq> 15"
  shows "\<exists>ss t ls. inp = ser_block ss t ls \<and> r = int (block_size ss ls) \<and>
    ((\<forall>s \<in> set ss. 1 \<le> moff s) \<longrightarrow> seqs_ok [] ss \<and> bytes_at m' dest (decode [] ss ls))"
proof -
  let ?e = "dec_env_of source dest (int (length inp)) outputSize endOnInputSize full 0 noDict dest 0 0"
  have e: "iend ?e = source + int (length inp)" "lowLimit ?e = dest" "checkOffset ?e" "dict ?e = noDict"
    by (simp_all add: dec_env_of_def Let_def)
  have "history_ok ?e m dest"
    using out(1) by (simp add: history_ok_def dec_env_simps max_def)
  moreover have "2 \<le> int (length inp) \<or> int (length inp) = 1 \<and>
      (\<exists>b. m source = Some b \<and> uint (drop_bit 4 b) \<noteq> 15)"
    using first bytes_at_natD [OF inp(1), of 0] by (cases inp) auto
  ultimately have "loop_sound ?e m source dest m' (dest + r)"
    using decompress_generic_total [of "int (length inp)" outputSize m source dest full 0 noDict dest 0 0]
      inp out apart run bytes_at_mapped [OF inp(1)] by (auto simp: LZ4_decompress_safe_def)
  then obtain ss t ls where b: "bytes_at m source (ser_block ss t ls)"
    "iend ?e = source + int (length (ser_block ss t ls))" "dest + r = dest + int (block_size ss ls)"
    and sound: "\<forall>out. (\<forall>s \<in> set ss. 1 \<le> moff s) \<and> checkOffset ?e \<and> lowLimit ?e = dest - int (length out) \<and>
        hist_at ?e m dest out \<and> dict_apart ?e dest (length out) \<longrightarrow>
        seqs_ok out ss \<and> hist_at ?e m' (dest + r) (foldl apply_seq out ss @ ls)"
    unfolding loop_sound_def by blast
  have len: "length inp = length (ser_block ss t ls)" and r: "r = int (block_size ss ls)"
    using b(2,3) e(1) by simp_all
  have "inp = ser_block ss t ls" using inp(1) b(1) len by (rule bytes_at_unique)
  moreover have "seqs_ok [] ss \<and> bytes_at m' dest (decode [] ss ls)" if "\<forall>s \<in> set ss. 1 \<le> moff s"
  proof -
    have apart': "dict_apart ?e dest 0" by (simp add: dict_apart_def e)
    moreover have "hist_at ?e m dest []" by (simp add: hist_at_def)
    ultimately have "seqs_ok [] ss" "hist_at ?e m' (dest + r) (foldl apply_seq [] ss @ ls)"
      using sound [rule_format, of "[]"] that e by simp_all
    then show ?thesis
      using hist_at_decoded [OF _ apart', of m' "decode [] ss ls" "[]"] hist_decode [of "[]" ss ls] r
      by simp
  qed
  ultimately show ?thesis using r by blast
qed

section \<open>Reads past the end of the input\<close>

text \<open>
  C20: the checks of \<open>LZ4_decompress_safe\<close> come too late for the first bytes: with an output
  buffer that is not empty it reads the first input byte even if the input is empty, and if the
  input is the single byte \<open>0xF0\<close> or larger it reads the byte after it. If these bytes are not
  accessible the call faults.
\<close>

theorem LZ4_decompress_safe_overread:
  assumes "0 < outputSize"
  shows "(m source = None \<longrightarrow> LZ4_decompress_safe m source dest 0 outputSize = None) \<and>
    (m source = Some b \<and> uint (drop_bit 4 b) = 15 \<and> m (source + 1) = None \<longrightarrow>
      LZ4_decompress_safe m source dest 1 outputSize = None)"
  using assms
  by (simp add: LZ4_decompress_safe_def LZ4_decompress_generic_def Let_def dec_env_of_def
      LZ4_decode_loop.simps [of _ m source dest] LZ4_decode_sequence_def LZ4_get_literalLength_def
      LZ4_literalLength_loop.simps [of _ m "source + 1"])

theorem LZ4_decompress_safe_overread_witness:
  "LZ4_decompress_safe (\<lambda>i. if i = 0 then Some 0xFF else None) 0 100 1 50 = None"
  using LZ4_decompress_safe_overread [of 50 "\<lambda>i. if i = 0 then Some 0xFF else None" 0 100 "0xFF"]
  by simp

section \<open>Examples\<close>

theorem LZ4_decompress_safe_total_witness:
  "\<exists>m' r. LZ4_decompress_safe (\<lambda>_. Some 0xFF) 0 100 10 20 = Some (m', r) \<and>
    same_outside (\<lambda>_. Some 0xFF) m' 100 120 \<and> - 11 \<le> r \<and> r \<le> 20"
  using LZ4_decompress_safe_total [of 10 20 "\<lambda>_. Some 0xFF" 0 100] by (simp add: mapped_def)

theorem LZ4_decompress_safe_partial_total_witness:
  "\<exists>m' r. LZ4_decompress_safe_partial (\<lambda>_. Some 0x12) 0 100 10 7 20 = Some (m', r) \<and>
    same_outside (\<lambda>_. Some 0x12) m' 100 120 \<and> - 11 \<le> r \<and> r \<le> 20"
  using LZ4_decompress_safe_partial_total [of 10 20 "\<lambda>_. Some 0x12" 0 100 7] by (simp add: mapped_def)

theorem LZ4_decompress_safe_usingDict_total_witness:
  "\<exists>m' r. LZ4_decompress_safe_usingDict (\<lambda>_. Some 0x12) 0 100 10 20 500 70000 = Some (m', r) \<and>
    same_outside (\<lambda>_. Some 0x12) m' 100 120 \<and> - 11 \<le> r \<and> r \<le> 20"
  using LZ4_decompress_safe_usingDict_total [of 10 20 "\<lambda>_. Some 0x12" 0 100 70000 500]
  by (simp add: mapped_def)

theorem LZ4_decompress_safe_sound_witness:
  "\<exists>ss t ls. ser_block (fst example_block') 0 (snd example_block') = ser_block ss t ls \<and> block_size ss ls = 17"
proof -
  let ?inp = "ser_block (fst example_block') 0 (snd example_block')"
  let ?m = "example_mem ?inp [] 40"
  note bufs = example_mem_buffers [of ?inp "[]" 40, simplified example_block'_values, simplified]
  obtain m' where "LZ4_decompress_safe ?m 100 1000 (int (length ?inp)) 40 = Some (m', 17)"
    using decompress_safe_prefix [OF example_block'_values(4), of ?m 100 1000 40 noDict 1000 0 0 0] bufs
    by (auto simp: LZ4_decompress_safe_def decodes_to_def example_block'_values)
  then show ?thesis
    using LZ4_decompress_safe_sound [of ?m 100 ?inp 1000 40 m' 17] bufs
    by (auto simp: example_block'_values io_buffers_def)
qed

end
