(* ===== verification/LZ4_Compress.thy ===== *)
theory LZ4_Compress
  imports LZ4_Decompress
begin

text \<open>
  The compressor of \<^verbatim>\<open>lz4/lib/lz4.c\<close>: the hash table, \<open>LZ4_compress_generic\<close> with all its
  directives, cut into one definition per part, and the one-shot functions that call it. The
  hash table is a function from slots to values; what a value means depends on the table type.
\<close>

section \<open>State\<close>

datatype limitedOutput_directive = notLimited | limitedOutput
datatype tableType_t = byPtr | byU32 | byU16
datatype dictIssue_directive = noDictIssue | dictSmall

type_synonym hashtable = "nat \<Rightarrow> int"

record LZ4_stream_t_internal =
  hashTable :: hashtable
  currentOffset :: int
  initCheck :: int
  dictionary :: addr
  bufferStart :: addr
  dictSize :: int

definition LZ4_resetStream :: LZ4_stream_t_internal where
  "LZ4_resetStream = \<lparr>hashTable = (\<lambda>_. 0), currentOffset = 0, initCheck = 0, dictionary = 0,
     bufferStart = 0, dictSize = 0\<rparr>"

abbreviation (input) LZ4_MEMORY_USAGE :: nat where "LZ4_MEMORY_USAGE \<equiv> 14"
abbreviation (input) LZ4_HASHLOG :: nat where "LZ4_HASHLOG \<equiv> 12"
abbreviation (input) LZ4_MAX_INPUT_SIZE :: int where "LZ4_MAX_INPUT_SIZE \<equiv> 0x7E000000"
abbreviation (input) LZ4_64Klimit :: int where "LZ4_64Klimit \<equiv> 65547"
abbreviation (input) LZ4_skipTrigger :: nat where "LZ4_skipTrigger \<equiv> 6"

text \<open>The number of slots of the hash table: \<open>HASHTABLESIZE\<close> bytes, of two or four each.\<close>

definition HASH_SIZE :: "tableType_t \<Rightarrow> nat" where
  "HASH_SIZE tt = (if tt = byU16 then 2 ^ LZ4_MEMORY_USAGE div 2 else 2 ^ LZ4_MEMORY_USAGE div 4)"

definition LZ4_compressBound :: "int \<Rightarrow> int" where
  "LZ4_compressBound isize =
     (if cast_u32 isize > LZ4_MAX_INPUT_SIZE then 0 else isize + isize div 255 + 16)"

section \<open>The hash table\<close>

definition LZ4_hashSequence :: "u32 \<Rightarrow> tableType_t \<Rightarrow> nat" where
  "LZ4_hashSequence sequence tableType =
     (if tableType = byU16 then unat (drop_bit (32 - (LZ4_HASHLOG + 1)) (sequence * 2654435761))
      else unat (drop_bit (32 - LZ4_HASHLOG) (sequence * 2654435761)))"

definition prime5bytes :: u64 where "prime5bytes = 889523592379"

definition LZ4_hashSequence64 :: "u64 \<Rightarrow> tableType_t \<Rightarrow> nat" where
  "LZ4_hashSequence64 sequence tableType =
     (let hashLog = (if tableType = byU16 then LZ4_HASHLOG + 1 else LZ4_HASHLOG);
          hashMask = push_bit hashLog 1 - 1
      in unat (drop_bit (40 - hashLog) (sequence * prime5bytes) AND hashMask))"

definition LZ4_hashSequenceT :: "u64 \<Rightarrow> tableType_t \<Rightarrow> nat" where
  "LZ4_hashSequenceT sequence tableType =
     (if LZ4_64bits then LZ4_hashSequence64 sequence tableType
      else LZ4_hashSequence (ucast sequence) tableType)"

definition LZ4_hashPosition :: "mem \<Rightarrow> addr \<Rightarrow> tableType_t \<Rightarrow> nat option" where
  "LZ4_hashPosition m p tableType =
     do { sequence \<leftarrow> LZ4_read_ARCH m p; Some (LZ4_hashSequenceT sequence tableType) }"

definition LZ4_putPositionOnHash :: "addr \<Rightarrow> nat \<Rightarrow> hashtable \<Rightarrow> tableType_t \<Rightarrow> addr \<Rightarrow> hashtable" where
  "LZ4_putPositionOnHash p h table tableType srcBase =
     (case tableType of
        byPtr \<Rightarrow> table(h := p)
      | byU32 \<Rightarrow> table(h := cast_u32 (p - srcBase))
      | byU16 \<Rightarrow> table(h := cast_u16 (p - srcBase)))"

definition LZ4_putPosition :: "mem \<Rightarrow> addr \<Rightarrow> hashtable \<Rightarrow> tableType_t \<Rightarrow> addr \<Rightarrow> hashtable option" where
  "LZ4_putPosition m p table tableType srcBase =
     do { h \<leftarrow> LZ4_hashPosition m p tableType;
          Some (LZ4_putPositionOnHash p h table tableType srcBase) }"

definition LZ4_getPositionOnHash :: "nat \<Rightarrow> hashtable \<Rightarrow> tableType_t \<Rightarrow> addr \<Rightarrow> addr" where
  "LZ4_getPositionOnHash h table tableType srcBase =
     (if tableType = byPtr then table h else table h + srcBase)"

definition LZ4_getPosition :: "mem \<Rightarrow> addr \<Rightarrow> hashtable \<Rightarrow> tableType_t \<Rightarrow> addr \<Rightarrow> addr option" where
  "LZ4_getPosition m p table tableType srcBase =
     do { h \<leftarrow> LZ4_hashPosition m p tableType;
          Some (LZ4_getPositionOnHash h table tableType srcBase) }"

section \<open>Writing lengths\<close>

text \<open>\<open>for(; len >= 255 ; len-=255) *op++ = 255; *op++ = (BYTE)len;\<close>\<close>

partial_function (option) LZ4_put_length :: "mem \<Rightarrow> addr \<Rightarrow> int \<Rightarrow> (mem \<times> addr) option" where
  "LZ4_put_length m op len =
     (if len \<ge> 255
      then do { m \<leftarrow> store m op 255; LZ4_put_length m (op + 1) (len - 255) }
      else do { m \<leftarrow> store m op (cast_byte len); Some (m, op + 1) })"

text \<open>The same for match lengths, two bytes at a time.\<close>

partial_function (option) LZ4_put_matchLength :: "mem \<Rightarrow> addr \<Rightarrow> int \<Rightarrow> (mem \<times> addr) option" where
  "LZ4_put_matchLength m op matchLength =
     (if matchLength \<ge> 510
      then do { m \<leftarrow> store m op 255;
                m \<leftarrow> store m (op + 1) 255;
                LZ4_put_matchLength m (op + 2) (matchLength - 510) }
      else if matchLength \<ge> 255
      then do { m \<leftarrow> store m op 255;
                m \<leftarrow> store m (op + 1) (cast_byte (matchLength - 255));
                Some (m, op + 2) }
      else do { m \<leftarrow> store m op (cast_byte matchLength); Some (m, op + 1) })"

text \<open>The token with its high half, and the extension bytes of the literal length.\<close>

definition LZ4_put_token :: "mem \<Rightarrow> addr \<Rightarrow> int \<Rightarrow> (mem \<times> addr) option" where
  "LZ4_put_token m token n =
     (if n \<ge> RUN_MASK
      then do { m \<leftarrow> store m token (cast_byte (push_bit ML_BITS RUN_MASK));
                LZ4_put_length m (token + 1) (n - RUN_MASK) }
      else do { m \<leftarrow> store m token (cast_byte (push_bit ML_BITS n));
                Some (m, token + 1) })"

section \<open>The compressor\<close>

text \<open>The constants of one run of \<open>LZ4_compress_generic\<close>.\<close>

record cmp_env =
  c_source :: addr
  c_dest :: addr
  c_maxOutputSize :: int
  outputLimited :: limitedOutput_directive
  tableType :: tableType_t
  c_dict :: dict_directive
  dictIssue :: dictIssue_directive
  acceleration :: int
  base :: addr
  lowRefLimit :: addr
  c_dictionary :: addr
  c_dictEnd :: addr
  dictDelta :: int
  c_iend :: addr
  mflimit :: addr
  matchlimit :: addr
  olimit :: addr

text \<open>
  In external dictionary mode, where a match position lies: the distance from its place in the
  virtual history to the dictionary, and how far down it may be extended.
\<close>

definition LZ4_select_dict :: "cmp_env \<Rightarrow> addr \<Rightarrow> int \<times> addr \<Rightarrow> int \<times> addr" where
  "LZ4_select_dict c match cur =
     (if c_dict c = usingExtDict
      then if match < c_source c then (dictDelta c, c_dictionary c) else (0, c_source c)
      else cur)"

text \<open>
  \<open>Find a match\<close>. \<open>Inl\<close> is the jump to \<open>_last_literals\<close>; otherwise the result is the position
  \<open>ip\<close>, the match, and the current \<open>refDelta\<close> and \<open>lowLimit\<close>.
\<close>

partial_function (option) LZ4_find_match ::
  "cmp_env \<Rightarrow> mem \<Rightarrow> hashtable \<Rightarrow> addr \<Rightarrow> nat \<Rightarrow> int \<Rightarrow> int \<Rightarrow> int \<times> addr \<Rightarrow>
   (hashtable + hashtable \<times> addr \<times> addr \<times> int \<times> addr) option" where
  "LZ4_find_match c m table forwardIp forwardH step searchMatchNb cur =
     (let h = forwardH;
          ip = forwardIp;
          forwardIp = forwardIp + step;
          step = drop_bit LZ4_skipTrigger searchMatchNb;
          searchMatchNb = cast_u32 (searchMatchNb + 1)
      in if forwardIp > mflimit c then Some (Inl table)
         else
           let match = LZ4_getPositionOnHash h table (tableType c) (base c);
               cur = LZ4_select_dict c match cur
           in do {
             forwardH \<leftarrow> LZ4_hashPosition m forwardIp (tableType c);
             let table = LZ4_putPositionOnHash ip h table (tableType c) (base c);
             retry \<leftarrow> (if dictIssue c = dictSmall \<and> match < lowRefLimit c then Some True
                       else if tableType c \<noteq> byU16 \<and> match + MAX_DISTANCE < ip then Some True
                       else do { a \<leftarrow> LZ4_read32 m (match + fst cur);
                                 b \<leftarrow> LZ4_read32 m ip;
                                 Some (a \<noteq> b) });
             if retry then LZ4_find_match c m table forwardIp forwardH step searchMatchNb cur
             else Some (Inr (table, ip, match, cur)) })"

text \<open>\<open>Catch up\<close>.\<close>

partial_function (option) LZ4_catch_up ::
  "mem \<Rightarrow> addr \<Rightarrow> int \<times> addr \<Rightarrow> addr \<Rightarrow> addr \<Rightarrow> (addr \<times> addr) option" where
  "LZ4_catch_up m anchor cur ip match =
     (if ip > anchor \<and> match + fst cur > snd cur
      then do { a \<leftarrow> m (ip - 1);
                b \<leftarrow> m (match + fst cur - 1);
                if a = b then LZ4_catch_up m anchor cur (ip - 1) (match - 1) else Some (ip, match) }
      else Some (ip, match))"

text \<open>\<open>Encode Literal length\<close> and \<open>Copy Literals\<close>; \<open>Inl\<close> is \<open>return 0\<close>.\<close>

definition LZ4_encode_literals ::
  "cmp_env \<Rightarrow> mem \<Rightarrow> addr \<Rightarrow> addr \<Rightarrow> addr \<Rightarrow> (mem + mem \<times> addr) option" where
  "LZ4_encode_literals c m op anchor ip =
     (let litLength = ip - anchor;
          token = op;
          op = op + 1
      in if outputLimited c = limitedOutput \<and>
            op + litLength + (2 + 1 + LASTLITERALS) + litLength div 255 > olimit c
         then Some (Inl m)
         else do {
           (m, op) \<leftarrow> LZ4_put_token m token litLength;
           m \<leftarrow> LZ4_wildCopy m op anchor (op + litLength);
           Some (Inr (m, op + litLength)) })"

text \<open>The match length of \<open>Encode MatchLength\<close>.\<close>

definition LZ4_match_length ::
  "cmp_env \<Rightarrow> mem \<Rightarrow> addr \<Rightarrow> addr \<Rightarrow> int \<times> addr \<Rightarrow> (int \<times> addr) option" where
  "LZ4_match_length c m ip match cur =
     (if c_dict c = usingExtDict \<and> snd cur = c_dictionary c
      then
        let match = match + fst cur;
            limit = ip + (c_dictEnd c - match);
            limit = (if limit > matchlimit c then matchlimit c else limit)
        in do { matchLength \<leftarrow> LZ4_count m (ip + MINMATCH) (match + MINMATCH) limit;
                let ip = ip + MINMATCH + matchLength;
                if ip = limit
                then do { more \<leftarrow> LZ4_count m ip (c_source c) (matchlimit c);
                          Some (cast_u32 (matchLength + more), ip + more) }
                else Some (matchLength, ip) }
      else do { matchLength \<leftarrow> LZ4_count m (ip + MINMATCH) (match + MINMATCH) (matchlimit c);
                Some (matchLength, ip + MINMATCH + matchLength) })"

definition LZ4_encode_matchLength :: "mem \<Rightarrow> addr \<Rightarrow> addr \<Rightarrow> int \<Rightarrow> (mem \<times> addr) option" where
  "LZ4_encode_matchLength m token op matchLength =
     do { t \<leftarrow> m token;
          if matchLength \<ge> ML_MASK
          then do { m \<leftarrow> store m token (t + cast_byte ML_MASK);
                    LZ4_put_matchLength m op (matchLength - ML_MASK) }
          else do { m \<leftarrow> store m token (t + cast_byte matchLength); Some (m, op) } }"

text \<open>
  How the part from \<open>_next_match\<close> on is left: \<open>return 0\<close>, \<open>break\<close> at the end of the chunk, or the
  next turn of the main loop.
\<close>

datatype cmp_outcome =
    Return0 mem hashtable
  | End_chunk mem hashtable addr addr
  | Next_loop mem hashtable addr addr addr nat "int \<times> addr"

partial_function (option) LZ4_next_match ::
  "cmp_env \<Rightarrow> mem \<Rightarrow> hashtable \<Rightarrow> addr \<Rightarrow> addr \<Rightarrow> addr \<Rightarrow> addr \<Rightarrow> int \<times> addr \<Rightarrow> cmp_outcome option" where
  "LZ4_next_match c m table ip match token op cur =
     do { m \<leftarrow> LZ4_writeLE16 m op (word_of_int (ip - match));
          let op = op + 2;
          (matchLength, ip) \<leftarrow> LZ4_match_length c m ip match cur;
          if outputLimited c = limitedOutput \<and>
             op + (1 + LASTLITERALS) + drop_bit 8 matchLength > olimit c
          then Some (Return0 m table)
          else do {
            (m, op) \<leftarrow> LZ4_encode_matchLength m token op matchLength;
            let anchor = ip;
            if ip > mflimit c then Some (End_chunk m table anchor op)
            else do {
              table \<leftarrow> LZ4_putPosition m (ip - 2) table (tableType c) (base c);
              match \<leftarrow> LZ4_getPosition m ip table (tableType c) (base c);
              let cur = LZ4_select_dict c match cur;
              table \<leftarrow> LZ4_putPosition m ip table (tableType c) (base c);
              again \<leftarrow> (if (dictIssue c = dictSmall \<longrightarrow> match \<ge> lowRefLimit c) \<and>
                           match + MAX_DISTANCE \<ge> ip
                        then do { a \<leftarrow> LZ4_read32 m (match + fst cur);
                                  b \<leftarrow> LZ4_read32 m ip;
                                  Some (a = b) }
                        else Some False);
              if again
              then do { let token = op;
                        m \<leftarrow> store m token 0;
                        LZ4_next_match c m table ip match token (op + 1) cur }
              else do { forwardH \<leftarrow> LZ4_hashPosition m (ip + 1) (tableType c);
                        Some (Next_loop m table (ip + 1) anchor op forwardH cur) } } } }"

text \<open>\<open>_last_literals\<close>; the result is the value the function returns.\<close>

definition LZ4_encode_last :: "cmp_env \<Rightarrow> mem \<Rightarrow> addr \<Rightarrow> addr \<Rightarrow> (mem \<times> int) option" where
  "LZ4_encode_last c m anchor op =
     (let lastRun = c_iend c - anchor in
      if outputLimited c = limitedOutput \<and>
         (op - c_dest c) + lastRun + 1 + (lastRun + 255 - RUN_MASK) div 255 > cast_u32 (c_maxOutputSize c)
      then Some (m, 0)
      else do {
        (m, op) \<leftarrow> LZ4_put_token m op lastRun;
        m \<leftarrow> memcpy m op anchor lastRun;
        Some (m, cast_int (op + lastRun - c_dest c)) })"

partial_function (option) LZ4_main_loop ::
  "cmp_env \<Rightarrow> mem \<Rightarrow> hashtable \<Rightarrow> addr \<Rightarrow> addr \<Rightarrow> addr \<Rightarrow> nat \<Rightarrow> int \<times> addr \<Rightarrow>
   (mem \<times> hashtable \<times> int) option" where
  "LZ4_main_loop c m table ip anchor op forwardH cur =
     do { found \<leftarrow> LZ4_find_match c m table ip forwardH 1
                     (cast_u32 (push_bit LZ4_skipTrigger (acceleration c))) cur;
          case found of
            Inl table \<Rightarrow> do { (m, r) \<leftarrow> LZ4_encode_last c m anchor op; Some (m, table, r) }
          | Inr (table, ip, match, cur) \<Rightarrow>
              do { (ip, match) \<leftarrow> LZ4_catch_up m anchor cur ip match;
                   let token = op;
                   lits \<leftarrow> LZ4_encode_literals c m op anchor ip;
                   case lits of
                     Inl m \<Rightarrow> Some (m, table, 0)
                   | Inr (m, op) \<Rightarrow>
                       do { r \<leftarrow> LZ4_next_match c m table ip match token op cur;
                            case r of
                              Return0 m table \<Rightarrow> Some (m, table, 0)
                            | End_chunk m table anchor op \<Rightarrow>
                                do { (m, r) \<leftarrow> LZ4_encode_last c m anchor op; Some (m, table, r) }
                            | Next_loop m table ip anchor op forwardH cur \<Rightarrow>
                                LZ4_main_loop c m table ip anchor op forwardH cur } } }"

definition cmp_env_of ::
  "LZ4_stream_t_internal \<Rightarrow> addr \<Rightarrow> addr \<Rightarrow> int \<Rightarrow> int \<Rightarrow> limitedOutput_directive \<Rightarrow> tableType_t \<Rightarrow>
   dict_directive \<Rightarrow> dictIssue_directive \<Rightarrow> int \<Rightarrow> cmp_env" where
  "cmp_env_of ctx source dest inputSize maxOutputSize limited tt dct issue accel =
     \<lparr>c_source = source, c_dest = dest, c_maxOutputSize = maxOutputSize, outputLimited = limited,
      tableType = tt, c_dict = dct, dictIssue = issue, acceleration = accel,
      base = (case dct of noDict \<Rightarrow> source | withPrefix64k \<Rightarrow> source - currentOffset ctx
                | usingExtDict \<Rightarrow> source - currentOffset ctx),
      lowRefLimit = source - dictSize ctx, c_dictionary = dictionary ctx,
      c_dictEnd = dictionary ctx + dictSize ctx,
      dictDelta = dictionary ctx + dictSize ctx - source,
      c_iend = source + inputSize, mflimit = source + inputSize - MFLIMIT,
      matchlimit = source + inputSize - LASTLITERALS, olimit = dest + maxOutputSize\<rparr>"

definition LZ4_compress_generic ::
  "mem \<Rightarrow> LZ4_stream_t_internal \<Rightarrow> addr \<Rightarrow> addr \<Rightarrow> int \<Rightarrow> int \<Rightarrow> limitedOutput_directive \<Rightarrow> tableType_t \<Rightarrow>
   dict_directive \<Rightarrow> dictIssue_directive \<Rightarrow> int \<Rightarrow> (mem \<times> LZ4_stream_t_internal \<times> int) option" where
  "LZ4_compress_generic m ctx source dest inputSize maxOutputSize limited tt dct issue accel =
     (let c = cmp_env_of ctx source dest inputSize maxOutputSize limited tt dct issue accel;
          lowLimit = (case dct of noDict \<Rightarrow> source | withPrefix64k \<Rightarrow> source - dictSize ctx
                        | usingExtDict \<Rightarrow> source)
      in if cast_u32 inputSize > LZ4_MAX_INPUT_SIZE then Some (m, ctx, 0)
         else if tt = byU16 \<and> inputSize \<ge> LZ4_64Klimit then Some (m, ctx, 0)
         else if inputSize < LZ4_minLength
         then do { (m, r) \<leftarrow> LZ4_encode_last c m source dest; Some (m, ctx, r) }
         else do { table \<leftarrow> LZ4_putPosition m source (hashTable ctx) tt (base c);
                   forwardH \<leftarrow> LZ4_hashPosition m (source + 1) tt;
                   (m, table, r) \<leftarrow> LZ4_main_loop c m table (source + 1) source dest forwardH (0, lowLimit);
                   Some (m, ctx\<lparr>hashTable := table\<rparr>, r) })"

declare LZ4_put_length.simps [code] LZ4_put_matchLength.simps [code] LZ4_find_match.simps [code]
  LZ4_catch_up.simps [code] LZ4_next_match.simps [code] LZ4_main_loop.simps [code]

section \<open>One-shot compression\<close>

definition LZ4_compress_fast_extState ::
  "mem \<Rightarrow> addr \<Rightarrow> addr \<Rightarrow> int \<Rightarrow> int \<Rightarrow> int \<Rightarrow> (mem \<times> LZ4_stream_t_internal \<times> int) option" where
  "LZ4_compress_fast_extState m source dest inputSize maxOutputSize accel =
     (let state = LZ4_resetStream;
          accel = (if accel < 1 then 1 else accel)
      in if maxOutputSize \<ge> LZ4_compressBound inputSize
         then if inputSize < LZ4_64Klimit
              then LZ4_compress_generic m state source dest inputSize 0 notLimited byU16
                     noDict noDictIssue accel
              else LZ4_compress_generic m state source dest inputSize 0 notLimited
                     (if LZ4_64bits then byU32 else byPtr) noDict noDictIssue accel
         else if inputSize < LZ4_64Klimit
              then LZ4_compress_generic m state source dest inputSize maxOutputSize limitedOutput byU16
                     noDict noDictIssue accel
              else LZ4_compress_generic m state source dest inputSize maxOutputSize limitedOutput
                     (if LZ4_64bits then byU32 else byPtr) noDict noDictIssue accel)"

definition LZ4_compress_fast ::
  "mem \<Rightarrow> addr \<Rightarrow> addr \<Rightarrow> int \<Rightarrow> int \<Rightarrow> int \<Rightarrow> (mem \<times> int) option" where
  "LZ4_compress_fast m source dest inputSize maxOutputSize accel =
     do { (m, ctx, result) \<leftarrow> LZ4_compress_fast_extState m source dest inputSize maxOutputSize accel;
          Some (m, result) }"

definition LZ4_compress_default :: "mem \<Rightarrow> addr \<Rightarrow> addr \<Rightarrow> int \<Rightarrow> int \<Rightarrow> (mem \<times> int) option" where
  "LZ4_compress_default m source dest inputSize maxOutputSize =
     LZ4_compress_fast m source dest inputSize maxOutputSize 1"

definition LZ4_compress_fast_force ::
  "mem \<Rightarrow> addr \<Rightarrow> addr \<Rightarrow> int \<Rightarrow> int \<Rightarrow> int \<Rightarrow> (mem \<times> int) option" where
  "LZ4_compress_fast_force m source dest inputSize maxOutputSize accel =
     do { (m, ctx, result) \<leftarrow>
            (if inputSize < LZ4_64Klimit
             then LZ4_compress_generic m LZ4_resetStream source dest inputSize maxOutputSize limitedOutput
                    byU16 noDict noDictIssue accel
             else LZ4_compress_generic m LZ4_resetStream source dest inputSize maxOutputSize limitedOutput
                    (if LZ4_64bits then byU32 else byPtr) noDict noDictIssue accel);
          Some (m, result) }"

definition LZ4_compress_limitedOutput :: "mem \<Rightarrow> addr \<Rightarrow> addr \<Rightarrow> int \<Rightarrow> int \<Rightarrow> (mem \<times> int) option" where
  "LZ4_compress_limitedOutput m source dest inputSize maxOutputSize =
     LZ4_compress_default m source dest inputSize maxOutputSize"

definition LZ4_compress :: "mem \<Rightarrow> addr \<Rightarrow> addr \<Rightarrow> int \<Rightarrow> (mem \<times> int) option" where
  "LZ4_compress m source dest inputSize =
     LZ4_compress_default m source dest inputSize (LZ4_compressBound inputSize)"

end
