(* ===== verification/LZ4_Emit.thy ===== *)
theory LZ4_Emit
  imports LZ4_Compress LZ4_Decompress_Lengths
begin

text \<open>
  Writing a block: what the compressor's output steps (tokens, lengths, literals, offsets) put
  into memory, and how long the serialised sequences are.
\<close>

section \<open>Writing at the end of the output\<close>

text \<open>
  From \<open>m\<close> to \<open>m'\<close> the bytes \<open>bs\<close> are written at \<open>a\<close>; between \<open>a\<close> and \<open>lim\<close> anything else may
  have changed too, outside nothing.
\<close>

definition emits :: "mem \<Rightarrow> mem \<Rightarrow> addr \<Rightarrow> byte list \<Rightarrow> addr \<Rightarrow> bool" where
  "emits m m' a bs lim \<longleftrightarrow> bytes_at m' a bs \<and> same_dom m m' \<and> same_outside m m' a lim"

lemma emits_Nil [simp]: "emits m m a [] lim"
  by (simp add: emits_def)

lemma emits_append:
  assumes "emits m m1 a xs lim" "emits m1 m2 (a + int (length xs)) ys lim"
  shows "emits m m2 a (xs @ ys) lim"
proof -
  have "bytes_at m2 a xs"
    using assms by (auto simp: emits_def intro: bytes_at_same)
  then show ?thesis
    using assms by (auto simp: emits_def bytes_at_append intro: same_dom_trans same_outside_union)
qed

lemma emits_dom: "emits m m' a bs lim \<Longrightarrow> same_dom m m'"
  by (simp add: emits_def)

lemma emits_outside: "emits m m' a bs lim \<Longrightarrow> lo \<le> a \<Longrightarrow> same_outside m m' lo lim"
  by (auto simp: emits_def intro: same_outside_mono)

lemma emits_mapped: "emits m m' a bs lim \<Longrightarrow> mapped m lo hi \<Longrightarrow> mapped m' lo hi"
  by (auto simp: emits_def intro: mapped_dom)

lemma emits_store:
  assumes "mapped m a lim" "a < lim"
  shows "store m a b = Some (m(a \<mapsto> b))" "emits m (m(a \<mapsto> b)) a [b] lim"
proof -
  have "m a \<noteq> None" using assms by (simp add: mapped_def)
  then show "store m a b = Some (m(a \<mapsto> b))" "emits m (m(a \<mapsto> b)) a [b] lim"
    using assms by (auto simp: store_mapped emits_def same_dom_def same_outside_def)
qed

lemma emits_store_bytes:
  assumes "mapped m a lim" "a + int (length bs) \<le> lim"
  shows "\<exists>m'. store_bytes m a bs = Some m' \<and> emits m m' a bs lim"
proof -
  have map: "mapped m a (a + int (length bs))"
    using assms by (auto intro: mapped_subset)
  have "same_outside m (written m a bs) a lim"
    using same_outside_written [of m a bs] assms(2) by (auto intro: same_outside_mono)
  then show ?thesis
    using store_bytes_mapped [OF map] same_dom_written [OF map]
    by (simp add: emits_def)
qed

text \<open>Changing the first byte of what has been written.\<close>

lemma emits_update:
  assumes "emits m m' a (b # bs) lim" "a < lim"
  shows "store m' a b' = Some (m'(a \<mapsto> b'))" "emits m (m'(a \<mapsto> b')) a (b' # bs) lim"
proof -
  have at: "m' a = Some b" "bytes_at m' (a + 1) bs"
    using assms(1) by (auto simp: emits_def)
  show "store m' a b' = Some (m'(a \<mapsto> b'))"
    using at(1) by (simp add: store_def)
  have "m a \<noteq> None"
    using assms(1) at(1) unfolding emits_def same_dom_def by (metis option.distinct(1))
  then have dom: "same_dom m (m'(a \<mapsto> b'))"
    using assms(1) by (auto simp: emits_def same_dom_def)
  have "bytes_at (m'(a \<mapsto> b')) (a + 1) bs"
    using at(2) by (auto simp: bytes_at_iff)
  moreover have "same_outside m (m'(a \<mapsto> b')) a lim"
    using assms by (auto simp: emits_def same_outside_def)
  ultimately show "emits m (m'(a \<mapsto> b')) a (b' # bs) lim"
    using dom by (simp add: emits_def)
qed

section \<open>Lengths\<close>

lemma cast_byte_nat: "(word_of_int (int n) :: byte) = of_nat n"
  by simp

lemma put_length_emits:
  assumes "mapped m op lim" "op + int (n div 255) + 1 \<le> lim"
  shows "\<exists>m'. LZ4_put_length m op (int n) = Some (m', op + int (n div 255) + 1) \<and>
    emits m m' op (ext_len n) lim"
  using assms
proof (induction n arbitrary: m op rule: less_induct)
  case (less n)
  show ?case
  proof (cases "255 \<le> n")
    case False
    then show ?thesis
      using emits_store [OF less.prems(1)] less.prems(2)
      by (simp add: LZ4_put_length.simps [of m op] ext_len_short)
  next
    case True
    then have lt: "n - 255 < n" by simp
    have op: "op < lim" using less.prems(2) by simp
    note st = emits_store [OF less.prems(1) op, where b = 255]
    have "mapped (m(op \<mapsto> 255)) (op + 1) lim"
      using emits_mapped [OF st(2) less.prems(1)] by (rule mapped_subset) simp_all
    moreover have "op + 1 + int ((n - 255) div 255) + 1 \<le> lim"
      using less.prems(2) div_255_step [OF True] by simp
    ultimately obtain m' where
      "LZ4_put_length (m(op \<mapsto> 255)) (op + 1) (int (n - 255)) =
         Some (m', op + 1 + int ((n - 255) div 255) + 1)"
      "emits (m(op \<mapsto> 255)) m' (op + 1) (ext_len (n - 255)) lim"
      using less.IH [of "n - 255" "m(op \<mapsto> 255)" "op + 1"] lt by blast
    then show ?thesis
      using emits_append [OF st(2), of m' "ext_len (n - 255)"] True div_255_step [OF True]
      by (simp add: LZ4_put_length.simps [of m op] ext_len_long st of_nat_diff)
  qed
qed

text \<open>The loop that writes two bytes at a time writes the same.\<close>

lemma put_matchLength_eq:
  "0 \<le> n \<Longrightarrow> LZ4_put_matchLength m op n = LZ4_put_length m op n"
proof (induction "nat n" arbitrary: m op n rule: less_induct)
  case less
  have IH: "510 \<le> n \<Longrightarrow> LZ4_put_matchLength m' (op + 2) (n - 510) = LZ4_put_length m' (op + 2) (n - 510)"
    for m' using less.hyps [of "n - 510" m' "op + 2"] less.prems by simp
  consider "510 \<le> n" | "255 \<le> n" "n < 510" | "n < 255" by linarith
  then show ?case
  proof cases
    case 1
    then show ?thesis
      by (simp add: LZ4_put_matchLength.simps [of m op n] IH LZ4_put_length.simps [of m op n]
          LZ4_put_length.simps [of _ "op + 1"] add.assoc cong: bind_option_cong)
  next
    case 2
    then show ?thesis
      by (simp add: LZ4_put_matchLength.simps [of m op n] LZ4_put_length.simps [of m op n]
          LZ4_put_length.simps [of _ "op + 1"] add.assoc cong: bind_option_cong)
  next
    case 3
    then show ?thesis
      by (simp add: LZ4_put_matchLength.simps [of m op n] LZ4_put_length.simps [of m op n])
  qed
qed

lemma le_div_255: "Suc ((n - 15) div 255) = (n + 240) div 255" if "15 \<le> n" for n :: nat
proof -
  obtain k where "n = k + 15" using \<open>15 \<le> n\<close> by (metis add.commute le_iff_add)
  then show ?thesis by simp
qed

lemma length_len_ext_div: "length (len_ext n) = (n + 240) div 255"
  by (simp add: length_len_ext le_div_255)

section \<open>Token and literals\<close>

lemma mk_token_small: "n < 15 \<Longrightarrow> mk_token n 0 = cast_byte (push_bit 4 (int n))"
  by (simp add: mk_token_def push_bit_eq_mult mult.commute)

lemma mk_token_15: "15 \<le> n \<Longrightarrow> mk_token n 0 = 240"
  by (simp add: mk_token_def min.absorb2)

lemma put_token_emits:
  assumes "mapped m token lim" "token + 1 + int (length (len_ext n)) \<le> lim"
  shows "\<exists>m'. LZ4_put_token m token (int n) = Some (m', token + 1 + int (length (len_ext n))) \<and>
    emits m m' token (mk_token n 0 # len_ext n) lim"
proof -
  have tok: "token < lim" using assms(2) by simp
  note st = emits_store [OF assms(1) tok, where b = "mk_token n 0"]
  show ?thesis
  proof (cases "15 \<le> n")
    case False
    then show ?thesis
      using st by (simp add: LZ4_put_token_def len_ext_def mk_token_small)
  next
    case True
    let ?m = "m(token \<mapsto> mk_token n 0)"
    have "mapped ?m (token + 1) lim"
      using emits_mapped [OF st(2) assms(1)] by (rule mapped_subset) simp_all
    then obtain m' where
      "LZ4_put_length ?m (token + 1) (int (n - 15)) = Some (m', token + 1 + int ((n - 15) div 255) + 1)"
      "emits ?m m' (token + 1) (ext_len (n - 15)) lim"
      using put_length_emits [of ?m "token + 1" lim "n - 15"] assms(2) True
      by (auto simp: length_len_ext)
    then show ?thesis
      using emits_append [OF st(2), of m' "ext_len (n - 15)"] True st(1)
      by (simp add: LZ4_put_token_def len_ext_def mk_token_15 of_nat_diff)
  qed
qed

section \<open>Sizes of serialised sequences\<close>

lemma length_ser_seq_le:
  assumes "4 \<le> mlen s"
  shows "length (ser_seq s) \<le> seq_size s + seq_size s div 255"
proof -
  have "3 + (a + 240) div 255 + a + (b - 4 + 240) div 255 \<le> a + b + (a + b) div 255"
    if "4 \<le> b" for a b :: nat
  proof -
    define q r k where "q = (a + 240) div 255" and "r = (a + b) div 255" and "k = (b - 4 + 240) div 255"
    have "255 * q \<le> a + 240" "a + b < 255 * r + 255" "255 * k \<le> b - 4 + 240"
      unfolding q_def r_def k_def by simp_all
    then have "q \<le> r + 1" "k = 0 \<or> k + 4 \<le> b" using that by linarith+
    then have "3 + q + a + k \<le> a + b + r" using that by linarith
    then show ?thesis by (simp add: q_def r_def k_def)
  qed
  then show ?thesis
    using assms by (simp add: length_ser_seq length_len_ext_div seq_size_def)
qed

lemma div_add_le: "(a :: nat) div c + b div c \<le> (a + b) div c"
proof (cases "c = 0")
  case False
  have "(a div c + b div c) * c \<le> a + b"
    unfolding add_mult_distrib by (intro add_mono div_times_less_eq_dividend)
  then show ?thesis using False by (simp add: less_eq_div_iff_mult_less_eq)
qed simp

lemma length_ser_seqs_le:
  assumes "\<forall>s \<in> set ss. 4 \<le> mlen s"
  shows "length (concat (map ser_seq ss)) \<le>
    sum_list (map seq_size ss) + sum_list (map seq_size ss) div 255"
  using assms
proof (induction ss)
  case (Cons s ss)
  then show ?case
    using length_ser_seq_le [of s] div_add_le [of "seq_size s" 255 "sum_list (map seq_size ss)"]
    by simp
qed simp

lemma seqs_ok_mlen: "seqs_ok hist ss \<Longrightarrow> \<forall>s \<in> set ss. 4 \<le> mlen s"
  by (induction ss arbitrary: hist) (auto simp: seq_ok_def)

lemma seqs_ok_snoc: "seqs_ok hist (ss @ [s]) \<longleftrightarrow> seqs_ok hist ss \<and> seq_ok (foldl apply_seq hist ss) s"
  by (induction ss arbitrary: hist) auto

section \<open>Matches in the data\<close>

text \<open>
  If the bytes from \<open>p\<close> on equal the ones \<open>off\<close> below, then the match of offset \<open>off\<close> and length
  \<open>n\<close> after the first \<open>p\<close> bytes yields the next \<open>n\<close>.
\<close>

lemma periodic_nth:
  assumes eq: "\<And>k. k < n \<Longrightarrow> xs ! (p + k) = xs ! (p - off + k)" and "1 \<le> off" "off \<le> p" "k < n"
  shows "xs ! (p + k) = xs ! (p - off + k mod off)"
  using \<open>k < n\<close>
proof (induction k rule: less_induct)
  case (less k)
  show ?case
  proof (cases "k < off")
    case True
    then show ?thesis using eq [OF less.prems] by simp
  next
    case False
    then have "xs ! (p + k) = xs ! (p + (k - off))"
      using eq [OF less.prems] assms(3) by simp
    also have "\<dots> = xs ! (p - off + (k - off) mod off)"
      using less.IH [of "k - off"] less.prems False assms(2) by simp
    also have "(k - off) mod off = k mod off"
      using False by (simp add: le_mod_geq)
    finally show ?thesis .
  qed
qed

lemma match_bytes_data:
  assumes "\<And>k. k < n \<Longrightarrow> xs ! (p + k) = xs ! (p - off + k)" "1 \<le> off" "off \<le> p" "p + n \<le> length xs"
  shows "match_bytes (take p xs) off n = take n (drop p xs)"
proof (rule nth_equalityI)
  show "length (match_bytes (take p xs) off n) = length (take n (drop p xs))"
    using assms(4) by simp
  fix k assume "k < length (match_bytes (take p xs) off n)"
  then have k: "k < n" by simp
  have len: "length (take p xs) = p" using assms(4) by simp
  have "k mod off < off" using assms(2) by simp
  then have "p - off + k mod off < p" using assms(3) by linarith
  then show "match_bytes (take p xs) off n ! k = take n (drop p xs) ! k"
    using periodic_nth [of n xs p off k] assms k
    by (simp add: match_bytes_def len)
qed

end
