(* ===== verification/LZ4_Match_Find.thy ===== *)
theory LZ4_Match_Find
  imports LZ4_Emit
begin

text \<open>
  The reading half of the compressor: the search for a match, its extension in both
  directions, and the invariant of the hash table that makes them safe. Positions are taken in
  the virtual history, where the dictionary stands right before the source.
\<close>

section \<open>The input\<close>

definition cvread :: "cmp_env \<Rightarrow> mem \<Rightarrow> addr \<Rightarrow> byte option" where
  "cvread c m a = (if c_dict c = usingExtDict \<and> a < c_source c then m (a + dictDelta c) else m a)"

text \<open>
  The environment of a run on the input \<open>src\<close> with the history \<open>hist\<close>: both are in memory, the
  limits are as \<open>LZ4_compress_generic\<close> computes them, and table entries do not wrap around.
\<close>

definition cmp_input :: "cmp_env \<Rightarrow> mem \<Rightarrow> byte list \<Rightarrow> byte list \<Rightarrow> bool" where
  "cmp_input c m hist src \<longleftrightarrow>
     c_iend c = c_source c + int (length src) \<and> mflimit c = c_iend c - 12 \<and> matchlimit c = c_iend c - 5 \<and>
     (\<forall>k < length (hist @ src). cvread c m (c_source c - int (length hist) + int k) = Some ((hist @ src) ! k)) \<and>
     int (length src) \<le> LZ4_MAX_INPUT_SIZE \<and>
     (c_dict c = noDict \<longrightarrow> hist = []) \<and> lowRefLimit c = c_source c - int (length hist) \<and>
     (c_dict c = usingExtDict \<longrightarrow> c_dictEnd c = c_dictionary c + int (length hist) \<and>
        dictDelta c = c_dictEnd c - c_source c \<and> c_dictionary c \<noteq> c_source c) \<and>
     tableType c \<noteq> byPtr \<and>
     (tableType c = byU16 \<longrightarrow> c_dict c = noDict \<and> base c = c_source c \<and> length src < 65547) \<and>
     base c \<le> c_source c \<and> c_iend c - base c < 2 ^ 32"

lemma cmp_input_limits:
  assumes "cmp_input c m hist src"
  shows "c_iend c = c_source c + int (length src)" "mflimit c = c_iend c - 12" "matchlimit c = c_iend c - 5"
    "c_source c \<le> c_iend c" "c_iend c - c_source c < 2 ^ 31" "base c \<le> c_source c"
    "c_iend c - base c < 2 ^ 32"
  using assms by (auto simp: cmp_input_def)

lemma cmp_input_at:
  assumes "cmp_input c m hist src" "c_source c - int (length hist) \<le> a" "a < c_iend c"
  shows "cvread c m a = Some ((hist @ src) ! nat (a - (c_source c - int (length hist))))"
proof -
  let ?k = "nat (a - (c_source c - int (length hist)))"
  have "?k < length (hist @ src)" "c_source c - int (length hist) + int ?k = a"
    using assms by (auto simp: cmp_input_def)
  then show ?thesis
    using assms(1) unfolding cmp_input_def by metis
qed

lemma cvread_source: "c_source c \<le> a \<Longrightarrow> cvread c m a = m a"
  by (simp add: cvread_def)

lemma cmp_input_source:
  assumes "cmp_input c m hist src"
  shows "bytes_at m (c_source c) src"
proof (rule bytes_at_natI)
  fix k assume k: "k < length src"
  have "cvread c m (c_source c + int k) = Some (src ! k)"
    using cmp_input_at [OF assms, of "c_source c + int k"] cmp_input_limits(1) [OF assms] k
    by (simp add: nat_add_distrib nth_append)
  then show "m (c_source c + int k) = Some (src ! k)"
    by (simp add: cvread_source)
qed

lemma cmp_input_mapped:
  assumes "cmp_input c m hist src"
  shows "mapped m (c_source c) (c_iend c)"
  using bytes_at_mapped [OF cmp_input_source [OF assms]] cmp_input_limits(1) [OF assms] by simp

definition vdelta :: "cmp_env \<Rightarrow> addr \<Rightarrow> int" where
  "vdelta c v = (if c_dict c = usingExtDict \<and> v < c_source c then dictDelta c else 0)"

lemma cvread_vdelta: "cvread c m v = m (v + vdelta c v)"
  by (simp add: cvread_def vdelta_def)

lemma mapped_virtual:
  assumes "cmp_input c m hist src" "c_source c - int (length hist) \<le> v" "v + n \<le> c_iend c"
    "c_dict c = usingExtDict \<Longrightarrow> v < c_source c \<Longrightarrow> v + n \<le> c_source c"
  shows "mapped m (v + vdelta c v) (v + vdelta c v + n)"
  unfolding mapped_def
proof (intro allI impI)
  fix i assume i: "v + vdelta c v \<le> i \<and> i < v + vdelta c v + n"
  define a where "a = i - vdelta c v"
  have a: "v \<le> a" "a < v + n" using i by (simp_all add: a_def)
  have "vdelta c a = vdelta c v"
    using a assms(4) by (auto simp: vdelta_def)
  then have "m i = cvread c m a"
    by (simp add: cvread_vdelta a_def)
  then show "m i \<noteq> None"
    using cmp_input_at [OF assms(1), of a] a assms(2,3) by simp
qed

section \<open>Matches\<close>

text \<open>The \<open>n\<close> bytes at \<open>ip\<close> repeat the ones at the virtual position \<open>v\<close>.\<close>

definition vmatch :: "cmp_env \<Rightarrow> mem \<Rightarrow> byte list \<Rightarrow> addr \<Rightarrow> addr \<Rightarrow> int \<Rightarrow> bool" where
  "vmatch c m hist ip v n \<longleftrightarrow>
     c_source c - int (length hist) \<le> v \<and> v < ip \<and> ip - v \<le> 65535 \<and>
     (c_dict c = usingExtDict \<longrightarrow> v < c_source c \<longrightarrow> v + 4 \<le> c_source c) \<and>
     (\<forall>i. 0 \<le> i \<and> i < n \<longrightarrow> cvread c m (v + i) = m (ip + i))"

lemma agree_virtual:
  assumes "c_dict c = usingExtDict \<Longrightarrow> v < c_source c \<Longrightarrow> v + n \<le> c_source c"
  shows "agree m ip (v + vdelta c v) n \<longleftrightarrow> (\<forall>i. 0 \<le> i \<and> i < n \<longrightarrow> cvread c m (v + i) = m (ip + i))"
proof -
  have "m (v + vdelta c v + i) = cvread c m (v + i)" if "0 \<le> i" "i < n" for i
  proof -
    have "vdelta c (v + i) = vdelta c v"
      using assms that by (auto simp: vdelta_def)
    then show ?thesis by (simp add: cvread_vdelta algebra_simps)
  qed
  then show ?thesis by (auto simp: agree_def)
qed

lemma read32_virtual:
  assumes "cmp_input c m hist src" "c_source c - int (length hist) \<le> v" "v < ip" "c_source c \<le> ip"
    "ip + 4 \<le> c_iend c" "c_dict c = usingExtDict \<Longrightarrow> v < c_source c \<Longrightarrow> v + 4 \<le> c_source c"
  shows "\<exists>a b. LZ4_read32 m (v + vdelta c v) = Some a \<and> LZ4_read32 m ip = Some b \<and>
    (a = b \<longleftrightarrow> (\<forall>i. 0 \<le> i \<and> i < 4 \<longrightarrow> cvread c m (v + i) = m (ip + i)))"
proof -
  have "mapped m (v + vdelta c v) (v + vdelta c v + 4)"
    using mapped_virtual [OF assms(1,2), of 4] assms(3-6) by simp
  moreover have "mapped m ip (ip + 4)"
    using cmp_input_mapped [OF assms(1)] assms(4,5) by (auto intro: mapped_subset)
  ultimately obtain a b where ab: "LZ4_read32 m (v + vdelta c v) = Some a" "LZ4_read32 m ip = Some b"
    using LZ4_read32_mapped by blast
  then show ?thesis
    using LZ4_read32_agree [OF ab] agree_virtual [of c v 4 m ip] assms(6) by auto
qed

lemma hashSequence_less: "LZ4_hashSequence w tt < HASH_SIZE tt"
proof -
  have "unat (drop_bit k (w * 2654435761)) < 2 ^ (32 - k)" if "k \<le> 32" for k
  proof -
    have "unat (w * 2654435761) < 2 ^ 32" by (rule order_less_le_trans [OF unsigned_less]) simp
    then have "unat (w * 2654435761) < 2 ^ (32 - k) * 2 ^ k" using that by (simp flip: power_add)
    then have "drop_bit k (unat (w * 2654435761)) < 2 ^ (32 - k)"
      by (simp add: drop_bit_eq_div less_mult_imp_div_less)
    then show ?thesis by (simp only: unat_drop_bit_eq)
  qed
  from this [of 19] this [of 20] show ?thesis
    by (simp add: LZ4_hashSequence_def HASH_SIZE_def)
qed

lemma hashSequence64_less: "LZ4_hashSequence64 w tt < HASH_SIZE tt"
proof -
  have "unat (x AND y) \<le> unat y" for x y :: u64
    using word_and_le1 [of x y] by (simp add: word_le_nat_alt)
  from this [of "drop_bit 28 (w * prime5bytes)" 4095] this [of "drop_bit 27 (w * prime5bytes)" 8191] show ?thesis
    by (simp add: LZ4_hashSequence64_def HASH_SIZE_def Let_def)
qed

lemma hashPosition_less: "LZ4_hashPosition m p tt = Some h \<Longrightarrow> h < HASH_SIZE tt"
  by (auto simp: LZ4_hashPosition_def LZ4_hashSequenceT_def hashSequence_less hashSequence64_less
      bind_eq_Some_conv)

lemma hashPosition_defined:
  assumes "cmp_input c m hist src" "c_source c \<le> p" "p + 8 \<le> c_iend c"
  shows "\<exists>h < HASH_SIZE tt. LZ4_hashPosition m p tt = Some h"
proof -
  have "mapped m p (p + 8)"
    using cmp_input_mapped [OF assms(1)] assms(2,3) by (auto intro: mapped_subset)
  from LZ4_read_ARCH_mapped [OF this] obtain h where "LZ4_hashPosition m p tt = Some h"
    by (auto simp: LZ4_hashPosition_def)
  then show ?thesis using hashPosition_less by blast
qed

section \<open>The hash table\<close>

text \<open>
  Every entry is a position below \<open>u\<close>. One before the usable history is refused by the distance
  or the dictionary test; one in the history has four bytes after it.
\<close>

definition entry_ok :: "cmp_env \<Rightarrow> byte list \<Rightarrow> addr \<Rightarrow> bool" where
  "entry_ok c hist v \<longleftrightarrow>
     (if v < c_source c - int (length hist) then dictIssue c = dictSmall \<or> v + 65535 < c_source c
      else v < c_source c \<longrightarrow> c_dict c = usingExtDict \<longrightarrow> v + 4 \<le> c_source c)"

definition table_ok :: "cmp_env \<Rightarrow> byte list \<Rightarrow> hashtable \<Rightarrow> addr \<Rightarrow> bool" where
  "table_ok c hist T u \<longleftrightarrow> 
     (\<forall>h < HASH_SIZE (tableType c). 0 \<le> T h \<and> base c + T h < u \<and> entry_ok c hist (base c + T h))"

lemma table_ok_mono: "table_ok c hist T u \<Longrightarrow> u \<le> u' \<Longrightarrow> table_ok c hist T u'"
  unfolding table_ok_def by (meson less_le_trans)

lemma table_ok_put:
  assumes "cmp_input c m hist src" "table_ok c hist T u" "c_source c \<le> p" "p \<le> mflimit c" "p < u'" "u \<le> u'"
  shows "table_ok c hist (LZ4_putPositionOnHash p h T (tableType c) (base c)) u'"
proof -
  note lims = cmp_input_limits [OF assms(1)]
  have "LZ4_putPositionOnHash p h T (tableType c) (base c) = T(h := p - base c)"
  proof (cases "tableType c")
    case byPtr
    then show ?thesis using assms(1) by (simp add: cmp_input_def)
  next
    case byU32
    then show ?thesis
      using assms(3,4) lims by (simp add: LZ4_putPositionOnHash_def)
  next
    case byU16
    then have "base c = c_source c" "int (length src) < 65547"
      using assms(1) by (auto simp: cmp_input_def)
    then show ?thesis
      using assms(3,4) lims byU16 by (simp add: LZ4_putPositionOnHash_def)
  qed
  moreover have "entry_ok c hist p"
    using assms(3) by (simp add: entry_ok_def)
  ultimately show ?thesis
    using table_ok_mono [OF assms(2,6)] assms(3,5) lims(6) by (auto simp: table_ok_def)
qed

lemma table_ok_get:
  assumes "cmp_input c m hist src" "table_ok c hist T u" "h < HASH_SIZE (tableType c)"
  shows "LZ4_getPositionOnHash h T (tableType c) (base c) < u"
    "entry_ok c hist (LZ4_getPositionOnHash h T (tableType c) (base c))"
    "tableType c = byU16 \<Longrightarrow> c_source c \<le> LZ4_getPositionOnHash h T (tableType c) (base c)"
proof -
  have "LZ4_getPositionOnHash h T (tableType c) (base c) = base c + T h"
    using assms(1) by (simp add: LZ4_getPositionOnHash_def cmp_input_def)
  then show "LZ4_getPositionOnHash h T (tableType c) (base c) < u"
    "entry_ok c hist (LZ4_getPositionOnHash h T (tableType c) (base c))"
    "tableType c = byU16 \<Longrightarrow> c_source c \<le> LZ4_getPositionOnHash h T (tableType c) (base c)"
    using assms by (auto simp: table_ok_def cmp_input_def)
qed

lemma table_ok_putPosition:
  assumes "cmp_input c m hist src" "table_ok c hist T u" "c_source c \<le> p" "p \<le> mflimit c" "p < u'" "u \<le> u'"
  shows "\<exists>T'. LZ4_putPosition m p T (tableType c) (base c) = Some T' \<and> table_ok c hist T' u'"
proof -
  obtain h where "LZ4_hashPosition m p (tableType c) = Some h"
    using hashPosition_defined [OF assms(1,3)] assms(4) cmp_input_limits [OF assms(1)] by fastforce
  then show ?thesis
    using table_ok_put [OF assms] by (simp add: LZ4_putPosition_def)
qed

section \<open>Where matches lie\<close>

text \<open>The pair \<open>(refDelta, lowLimit)\<close> that goes with a match at \<open>v\<close>.\<close>

definition cur_of :: "cmp_env \<Rightarrow> byte list \<Rightarrow> addr \<Rightarrow> int \<times> addr" where
  "cur_of c hist v =
     (vdelta c v, if c_dict c = usingExtDict then if v < c_source c then c_dictionary c else c_source c
                  else c_source c - int (length hist))"

definition cur_ok :: "cmp_env \<Rightarrow> byte list \<Rightarrow> int \<times> addr \<Rightarrow> bool" where
  "cur_ok c hist cur \<longleftrightarrow> (c_dict c \<noteq> usingExtDict \<longrightarrow> cur = (0, c_source c - int (length hist)))"

lemma select_dict_cur: "cur_ok c hist cur \<Longrightarrow> LZ4_select_dict c v cur = cur_of c hist v"
  by (auto simp: LZ4_select_dict_def cur_of_def cur_ok_def vdelta_def)

lemma cur_of_ok [simp]: "cur_ok c hist (cur_of c hist v)"
  by (simp add: cur_of_def cur_ok_def vdelta_def)

lemma fst_cur_of [simp]: "fst (cur_of c hist v) = vdelta c v"
  by (simp add: cur_of_def)

text \<open>The test both searches make on a candidate.\<close>

lemma candidate:
  assumes inp: "cmp_input c m hist src" and T: "v < ip" "entry_ok c hist v"
    and ip: "c_source c \<le> ip" "ip + 4 \<le> c_iend c"
    and low: "dictIssue c = dictSmall \<Longrightarrow> c_source c - int (length hist) \<le> v"
    and dist: "ip - v \<le> 65535"
  shows "\<exists>a b. LZ4_read32 m (v + vdelta c v) = Some a \<and> LZ4_read32 m ip = Some b \<and>
    (a = b \<longleftrightarrow> vmatch c m hist ip v 4)"
proof -
  have v: "c_source c - int (length hist) \<le> v"
    using T(2) low dist ip(1) by (auto simp: entry_ok_def split: if_splits)
  moreover have "c_dict c = usingExtDict \<Longrightarrow> v < c_source c \<Longrightarrow> v + 4 \<le> c_source c"
    using T(2) v by (auto simp: entry_ok_def split: if_splits)
  ultimately show ?thesis
    using read32_virtual [OF inp v T(1) ip] T(1) dist by (auto simp: vmatch_def)
qed

lemma u16_distance:
  assumes "cmp_input c m hist src" "tableType c = byU16" "c_source c \<le> v" "ip \<le> mflimit c"
  shows "ip - v \<le> 65535"
  using assms cmp_input_limits [OF assms(1)] by (auto simp: cmp_input_def)

section \<open>Searching\<close>

lemma find_match_spec:
  assumes inp: "cmp_input c m hist src"
    and "table_ok c hist T ip" "c_source c < ip" "ip \<le> mflimit c + 1" "cur_ok c hist cur"
    and "1 \<le> step" "64 \<le> nb" "nb + (c_iend c - ip) < 2 ^ 32" "h < HASH_SIZE (tableType c)"
  shows "\<exists>r. LZ4_find_match c m T ip h step nb cur = Some r \<and>
    (case r of Inl T' \<Rightarrow> table_ok c hist T' (mflimit c + 1)
     | Inr (T', ip', v, cur') \<Rightarrow> table_ok c hist T' (ip' + 1) \<and> ip \<le> ip' \<and> ip' < mflimit c \<and>
         vmatch c m hist ip' v 4 \<and> cur' = cur_of c hist v)"
  using assms(2-)
proof (induction "nat (c_iend c - ip)" arbitrary: T ip h step nb cur rule: less_induct)
  case less
  note lims = cmp_input_limits [OF inp]
  let ?v = "LZ4_getPositionOnHash h T (tableType c) (base c)"
  let ?T = "LZ4_putPositionOnHash ip h T (tableType c) (base c)"
  show ?case
  proof (cases "mflimit c < ip + step")
    case True
    then show ?thesis
      using less.prems(1,3) by (subst LZ4_find_match.simps) (auto simp: Let_def intro: table_ok_mono)
  next
    case False
    then have ip: "ip < mflimit c" "ip + step \<le> mflimit c" using less.prems(5) by simp_all
    note v = table_ok_get [OF inp less.prems(1,8)]
    have T: "table_ok c hist ?T (ip + 1)"
      using table_ok_put [OF inp less.prems(1)] less.prems(2) ip by simp
    obtain fh where fh: "LZ4_hashPosition m (ip + step) (tableType c) = Some fh" "fh < HASH_SIZE (tableType c)"
      using hashPosition_defined [OF inp, of "ip + step"] ip less.prems(2,5) lims by fastforce
    have step': "1 \<le> drop_bit 6 nb" "(nb + 1) mod 4294967296 = nb + 1"
      using less.prems(2,3,6,7) lims by (auto simp: drop_bit_eq_div)
    have "nat (c_iend c - (ip + step)) < nat (c_iend c - ip)" "table_ok c hist ?T (ip + step)"
      using ip less.prems(5) lims T by (auto intro: table_ok_mono)
    then have again: "\<exists>r. LZ4_find_match c m ?T (ip + step) fh (drop_bit 6 nb) (nb + 1) (cur_of c hist ?v) = Some r \<and>
      (case r of Inl T' \<Rightarrow> table_ok c hist T' (mflimit c + 1)
       | Inr (T', ip', v, cur') \<Rightarrow> table_ok c hist T' (ip' + 1) \<and> ip \<le> ip' \<and> ip' < mflimit c \<and>
           vmatch c m hist ip' v 4 \<and> cur' = cur_of c hist v)"
      using less.hyps [of "ip + step" ?T "cur_of c hist ?v" "drop_bit 6 nb" "nb + 1" fh]
        less.prems step' ip fh(2) by (fastforce split: sum.splits)
    show ?thesis
    proof (cases "dictIssue c = dictSmall \<and> ?v < lowRefLimit c \<or> tableType c \<noteq> byU16 \<and> ?v + 65535 < ip")
      case True
      then show ?thesis
        using False again fh step' less.prems(4)
        by (subst LZ4_find_match.simps) (auto simp: Let_def select_dict_cur)
    next
      case no_skip: False
      have "ip - ?v \<le> 65535"
        using no_skip u16_distance [OF inp, of ?v ip] v(3) ip by fastforce
      moreover have "dictIssue c = dictSmall \<Longrightarrow> c_source c - int (length hist) \<le> ?v"
        using no_skip inp by (auto simp: cmp_input_def)
      ultimately obtain a b where ab: "LZ4_read32 m (?v + vdelta c ?v) = Some a" "LZ4_read32 m ip = Some b"
        "a = b \<longleftrightarrow> vmatch c m hist ip ?v 4"
        using candidate [OF inp v(1,2)] less.prems(2) ip lims by auto
      have run: "LZ4_find_match c m T ip h step nb cur =
          (if a \<noteq> b then LZ4_find_match c m ?T (ip + step) fh (drop_bit 6 nb) (nb + 1) (cur_of c hist ?v)
           else Some (Inr (?T, ip, ?v, cur_of c hist ?v)))"
        using False no_skip ab(1,2) fh step' less.prems(4)
        by (subst LZ4_find_match.simps) (auto simp: Let_def select_dict_cur)
      show ?thesis
        using again ab(3) T ip(1) unfolding run by (cases "a = b") auto
    qed
  qed
qed

lemma catch_up_spec:
  assumes inp: "cmp_input c m hist src"
    and "vmatch c m hist ip v n" "c_source c \<le> anchor" "anchor \<le> ip" "ip < c_iend c"
    and "c_dict c = usingExtDict \<longrightarrow> (v < c_source c \<longleftrightarrow> v0 < c_source c)"
  shows "\<exists>k \<ge> 0. LZ4_catch_up m anchor (cur_of c hist v0) ip v = Some (ip - k, v - k) \<and>
    anchor \<le> ip - k \<and> vmatch c m hist (ip - k) (v - k) (n + k) \<and>
    (c_dict c = usingExtDict \<longrightarrow> (v - k < c_source c \<longleftrightarrow> v0 < c_source c))"
  using assms(2-)
proof (induction "nat (ip - anchor)" arbitrary: ip v n rule: less_induct)
  case less
  note vm = less.prems(1) [unfolded vmatch_def]
  have vd: "vdelta c v0 = vdelta c v" using less.prems(5) by (auto simp: vdelta_def)
  let ?g = "anchor < ip \<and> snd (cur_of c hist v0) < v + vdelta c v"
  show ?case
  proof (cases ?g)
    case False
    then show ?thesis
      using less.prems by (intro exI [of _ 0]) (auto simp: LZ4_catch_up.simps [of m anchor _ ip v] vd)
  next
    case True
    have side: "c_source c - int (length hist) \<le> v - 1" "c_dict c = usingExtDict \<longrightarrow> (v - 1 < c_source c \<longleftrightarrow> v0 < c_source c)"
      using True less.prems(5) inp by (auto simp: cur_of_def vdelta_def cmp_input_def split: if_splits)
    have vd1: "vdelta c (v - 1) = vdelta c v"
      using side(2) less.prems(5) by (auto simp: vdelta_def)
    have b: "m (v + vdelta c v - 1) = cvread c m (v - 1)"
      by (simp add: cvread_vdelta vd1 algebra_simps)
    obtain x y where xy: "m (ip - 1) = Some x" "cvread c m (v - 1) = Some y"
      using cmp_input_at [OF inp, of "v - 1"] cmp_input_mapped [OF inp] side(1) vm less.prems(2-4) True
      by (fastforce dest: mappedD [of m _ _ "ip - 1"])
    show ?thesis
    proof (cases "x = y")
      case False
      then show ?thesis
        using less.prems True xy
        by (intro exI [of _ 0]) (auto simp: LZ4_catch_up.simps [of m anchor _ ip v] vd b)
    next
      case eq: True
      have "cvread c m (v - 1 + i) = m (ip - 1 + i)" if "0 \<le> i" "i < n + 1" for i
      proof (cases "i = 0")
        case True
        then show ?thesis using xy eq by simp
      next
        case False
        then have "cvread c m (v + (i - 1)) = m (ip + (i - 1))"
          using vm that by auto
        then show ?thesis by (simp add: algebra_simps)
      qed
      then have "vmatch c m hist (ip - 1) (v - 1) (n + 1)"
        using vm side less.prems(5) by (auto simp: vmatch_def)
      then obtain k where k: "0 \<le> k" "LZ4_catch_up m anchor (cur_of c hist v0) (ip - 1) (v - 1) = Some (ip - 1 - k, v - 1 - k)"
        "anchor \<le> ip - 1 - k" "vmatch c m hist (ip - 1 - k) (v - 1 - k) (n + 1 + k)"
        "c_dict c = usingExtDict \<longrightarrow> (v - 1 - k < c_source c \<longleftrightarrow> v0 < c_source c)"
        using less.hyps [of "ip - 1" "v - 1" "n + 1"] True less.prems(2,4) side(2) by auto
      then show ?thesis
        using True xy eq
        by (intro exI [of _ "k + 1"])
          (auto simp: LZ4_catch_up.simps [of m anchor _ ip v] vd b algebra_simps)
    qed
  qed
qed

section \<open>Match lengths\<close>

lemma vmatch_less: "vmatch c m hist ip v n \<Longrightarrow> k \<le> n \<Longrightarrow> vmatch c m hist ip v k"
  by (simp add: vmatch_def)

lemma vmatch_extend:
  assumes "vmatch c m hist ip v n" "\<And>i. n \<le> i \<Longrightarrow> i < k \<Longrightarrow> cvread c m (v + i) = m (ip + i)"
  shows "vmatch c m hist ip v k"
  using assms unfolding vmatch_def by (meson not_le)

lemma vmatch_maximal:
  assumes "vmatch c m hist ip v n" "0 \<le> k" "k < n \<Longrightarrow> cvread c m (v + k) \<noteq> m (ip + k)"
  shows "n \<le> k"
  using assms by (meson not_le vmatch_def)

lemma agree_vmatch:
  assumes "vmatch c m hist ip v 4" "agree m (ip + 4) (v + vdelta c v + 4) k"
    "c_dict c = usingExtDict \<Longrightarrow> v < c_source c \<Longrightarrow> v + 4 + k \<le> c_source c"
  shows "vmatch c m hist ip v (4 + k)"
proof (rule vmatch_extend [OF assms(1)])
  fix i :: int assume i: "4 \<le> i" "i < 4 + k"
  then have "m (ip + 4 + (i - 4)) = m (v + vdelta c v + 4 + (i - 4))"
    by (intro agreeD [OF assms(2)]) linarith+
  moreover have "vdelta c (v + i) = vdelta c v"
    using assms(3) i by (auto simp: vdelta_def)
  ultimately show "cvread c m (v + i) = m (ip + i)"
    by (simp add: cvread_vdelta algebra_simps)
qed

lemma match_length_near:
  assumes inp: "cmp_input c m hist src" and vm: "vmatch c m hist ip v n" and n: "4 \<le> n"
    and ip: "c_source c \<le> ip" "ip + n \<le> matchlimit c" and near: "vdelta c v = 0" "\<not> (c_dict c = usingExtDict \<and> v < c_source c)"
  shows "\<exists>ml \<ge> 0. LZ4_count m (ip + 4) (v + 4) (matchlimit c) = Some ml \<and> n \<le> 4 + ml \<and>
    ip + 4 + ml \<le> matchlimit c \<and> vmatch c m hist ip v (4 + ml)"
proof -
  note lims = cmp_input_limits [OF inp]
  have v: "c_source c - int (length hist) \<le> v" "v < ip" using vm by (auto simp: vmatch_def)
  have "mapped m v (v + (matchlimit c - ip))"
    using mapped_virtual [OF inp v(1), of "matchlimit c - ip"] near v(2) lims ip(2) n by auto
  then have "mapped m (v + 4) (v + 4 + (matchlimit c - (ip + 4)))"
    by (rule mapped_subset) simp_all
  moreover have "mapped m (ip + 4) (matchlimit c)"
    using cmp_input_mapped [OF inp] ip(1) lims by (auto intro: mapped_subset)
  ultimately obtain k where k: "LZ4_count m (ip + 4) (v + 4) (matchlimit c) = Some k" "0 \<le> k"
    "k \<le> matchlimit c - (ip + 4)" "agree m (ip + 4) (v + 4) k"
    "k < matchlimit c - (ip + 4) \<longrightarrow> m (ip + 4 + k) \<noteq> m (v + 4 + k)"
    using LZ4_count_spec [of m "ip + 4" "matchlimit c" "v + 4"] ip n lims by auto
  have "vmatch c m hist ip v (4 + k)"
    using agree_vmatch [OF vmatch_less [OF vm n], of k] k(4) near by simp
  moreover have "n \<le> 4 + k"
  proof (rule vmatch_maximal [OF vm])
    assume "4 + k < n"
    then have "m (ip + 4 + k) \<noteq> m (v + 4 + k)" using k(5) ip(2) by simp
    then show "cvread c m (v + (4 + k)) \<noteq> m (ip + (4 + k))"
      using near(2) k(2) by (auto simp: cvread_def algebra_simps)
  qed (use k in simp)
  ultimately show ?thesis using k by auto
qed

lemma match_length_far:
  assumes inp: "cmp_input c m hist src" and vm: "vmatch c m hist ip v n" and n: "4 \<le> n"
    and ip: "c_source c \<le> ip" "ip + n \<le> matchlimit c"
    and ext: "c_dict c = usingExtDict" "v < c_source c"
  shows "\<exists>ml \<ge> 0. LZ4_match_length c m ip v (dictDelta c, c_dictionary c) = Some (ml, ip + 4 + ml) \<and>
    n \<le> 4 + ml \<and> ip + 4 + ml \<le> matchlimit c \<and> vmatch c m hist ip v (4 + ml)"
proof -
  note lims = cmp_input_limits [OF inp]
  have v: "c_source c - int (length hist) \<le> v" "v + 4 \<le> c_source c" and vd: "vdelta c v = dictDelta c"
    using vm ext by (auto simp: vmatch_def vdelta_def)
  have de: "c_dictEnd c - (v + dictDelta c) = c_source c - v"
    using inp ext(1) by (simp add: cmp_input_def)
  define lim where "lim = min (matchlimit c) (ip + (c_source c - v))"
  have lim: "ip + 4 \<le> lim" "lim \<le> matchlimit c" "lim - ip \<le> c_source c - v"
    using ip n v(2) by (auto simp: lim_def)
  have "mapped m (v + dictDelta c) (v + dictDelta c + (lim - ip))"
    using mapped_virtual [OF inp v(1), of "lim - ip"] vd lim ip lims by auto
  then have "mapped m (v + dictDelta c + 4) (v + dictDelta c + 4 + (lim - (ip + 4)))"
    by (rule mapped_subset) simp_all
  moreover have "mapped m (ip + 4) lim"
    using cmp_input_mapped [OF inp] ip(1) lims lim(2) by (auto intro: mapped_subset)
  ultimately obtain k where k: "LZ4_count m (ip + 4) (v + dictDelta c + 4) lim = Some k" "0 \<le> k"
    "k \<le> lim - (ip + 4)" "agree m (ip + 4) (v + dictDelta c + 4) k"
    "k < lim - (ip + 4) \<longrightarrow> m (ip + 4 + k) \<noteq> m (v + dictDelta c + 4 + k)"
    using LZ4_count_spec [of m "ip + 4" lim "v + dictDelta c + 4"] ip lim lims by auto
  have vk: "vmatch c m hist ip v (4 + k)"
    using agree_vmatch [OF vmatch_less [OF vm n], of k] k(3,4) lim(3) vd by simp
  have limdef: "(if ip + (c_source c - v) > matchlimit c then matchlimit c else ip + (c_source c - v)) = lim"
    by (auto simp: lim_def)
  have run: "LZ4_match_length c m ip v (dictDelta c, c_dictionary c) =
    (if ip + 4 + k = lim
     then do { more \<leftarrow> LZ4_count m (ip + 4 + k) (c_source c) (matchlimit c);
               Some ((k + more) mod 2 ^ 32, ip + 4 + k + more) }
     else Some (k, ip + 4 + k))"
    unfolding LZ4_match_length_def Let_def fst_conv snd_conv de limdef k(1) using ext(1) by simp
  show ?thesis
  proof (cases "ip + 4 + k = lim")
    case False
    have "n \<le> 4 + k"
    proof (rule vmatch_maximal [OF vm])
      assume "4 + k < n"
      have "m (ip + 4 + k) \<noteq> m (v + dictDelta c + 4 + k)" using k(3,5) False by simp
      then show "cvread c m (v + (4 + k)) \<noteq> m (ip + (4 + k))"
        using ext k(3) lim(3) False by (auto simp: cvread_def algebra_simps)
    qed (use k in simp)
    then show ?thesis
      using k(2,3) vk False lim(2) by (simp add: run)
  next
    case True
    have "mapped m (c_source c) (c_source c + (matchlimit c - lim))" "mapped m lim (matchlimit c)"
      using cmp_input_mapped [OF inp] ip lim lims by (auto intro: mapped_subset)
    then obtain j where j: "LZ4_count m lim (c_source c) (matchlimit c) = Some j" "0 \<le> j"
      "j \<le> matchlimit c - lim" "agree m lim (c_source c) j"
      "j < matchlimit c - lim \<longrightarrow> m (lim + j) \<noteq> m (c_source c + j)"
      using LZ4_count_spec [of m lim "matchlimit c" "c_source c"] ip lim lims by auto
    have at: "v + (4 + k) = c_source c" if "lim < matchlimit c"
      using that True by (auto simp: lim_def min_def split: if_splits)
    have "vmatch c m hist ip v (4 + k + j)"
    proof (rule vmatch_extend [OF vk])
      fix i assume i: "4 + k \<le> i" "i < 4 + k + j"
      then have "m (lim + (i - (4 + k))) = m (c_source c + (i - (4 + k)))"
        by (intro agreeD [OF j(4)]) linarith+
      moreover have "v + (4 + k) = c_source c" using i j(3) by (intro at) simp
      then have "c_source c + (i - (4 + k)) = v + i" "lim + (i - (4 + k)) = ip + i" "c_source c \<le> v + i"
        using True i(1) by linarith+
      ultimately show "cvread c m (v + i) = m (ip + i)"
        by (simp add: cvread_source)
    qed
    moreover have "n \<le> 4 + k + j"
    proof (rule vmatch_maximal [OF vm])
      assume "4 + k + j < n"
      then have lt: "j < matchlimit c - lim" using ip(2) True by simp
      then have "v + (4 + k) = c_source c" using j(2) by (intro at) simp
      then have eqs: "v + (4 + k + j) = c_source c + j" "ip + (4 + k + j) = lim + j"
        using True by linarith+
      show "cvread c m (v + (4 + k + j)) \<noteq> m (ip + (4 + k + j))"
        unfolding eqs using lt j(2,5) by (simp add: cvread_source)
    qed (use k j in simp)
    moreover have "k + j < 2 ^ 32" using k(3) j(3) ip(1) lim lims by simp
    ultimately show ?thesis
      using k(2) j(1-3) True
      by (intro exI [of _ "k + j"]) (auto simp: run algebra_simps)
  qed
qed

lemma match_length_spec:
  assumes inp: "cmp_input c m hist src" and vm: "vmatch c m hist ip v n" and n: "4 \<le> n"
    and ip: "c_source c \<le> ip" "ip + n \<le> matchlimit c"
    and side: "c_dict c = usingExtDict \<longrightarrow> (v < c_source c \<longleftrightarrow> v0 < c_source c)"
  shows "\<exists>ml \<ge> 0. LZ4_match_length c m ip v (cur_of c hist v0) = Some (ml, ip + 4 + ml) \<and>
    n \<le> 4 + ml \<and> ip + 4 + ml \<le> matchlimit c \<and> vmatch c m hist ip v (4 + ml)"
proof (cases "c_dict c = usingExtDict \<and> v < c_source c")
  case True
  then have "cur_of c hist v0 = (dictDelta c, c_dictionary c)"
    using side by (simp add: cur_of_def vdelta_def)
  then show ?thesis
    using match_length_far [OF inp vm n ip] True by simp
next
  case False
  moreover have "\<not> (c_dict c = usingExtDict \<and> snd (cur_of c hist v0) = c_dictionary c)"
    using False side inp by (auto simp: cur_of_def cmp_input_def)
  moreover have "vdelta c v = 0" using False by (auto simp: vdelta_def)
  ultimately show ?thesis
    using match_length_near [OF inp vm n ip] by (auto simp: LZ4_match_length_def)
qed

text \<open>A match stays one when the memory changes elsewhere.\<close>

lemma vmatch_same:
  assumes "cmp_input c m hist src" "cmp_input c m' hist src" "vmatch c m hist ip v n"
    and "c_source c \<le> ip" "ip + n \<le> c_iend c"
  shows "vmatch c m' hist ip v n"
proof -
  have "cvread c m' (v + i) = m' (ip + i)" if i: "0 \<le> i" "i < n" for i
  proof -
    have lo: "c_source c - int (length hist) \<le> v + i" "v + i < c_iend c" "c_source c \<le> ip + i" "ip + i < c_iend c"
      using assms(3-5) i by (auto simp: vmatch_def)
    have "cvread c m' (v + i) = cvread c m (v + i)" "cvread c m' (ip + i) = cvread c m (ip + i)"
      using cmp_input_at [OF assms(1)] cmp_input_at [OF assms(2)] lo by auto
    then show ?thesis
      using assms(3) i lo(3) by (auto simp: vmatch_def cvread_source)
  qed
  then show ?thesis using assms(3) by (simp add: vmatch_def)
qed

section \<open>After a match\<close>

text \<open>\<open>Fill table\<close> and \<open>Test next position\<close>.\<close>

lemma next_position:
  assumes inp: "cmp_input c m hist src" and T: "table_ok c hist T ip"
    and ip: "c_source c + 2 \<le> ip" "ip \<le> mflimit c"
  shows "\<exists>T1 v T2 fh again. LZ4_putPosition m (ip - 2) T (tableType c) (base c) = Some T1 \<and>
    LZ4_getPosition m ip T1 (tableType c) (base c) = Some v \<and>
    LZ4_putPosition m ip T1 (tableType c) (base c) = Some T2 \<and> table_ok c hist T2 (ip + 1) \<and>
    LZ4_hashPosition m (ip + 1) (tableType c) = Some fh \<and> fh < HASH_SIZE (tableType c) \<and>
    (if (dictIssue c = dictSmall \<longrightarrow> lowRefLimit c \<le> v) \<and> ip \<le> v + MAX_DISTANCE
     then do { a \<leftarrow> LZ4_read32 m (v + fst (cur_of c hist v)); b \<leftarrow> LZ4_read32 m ip; Some (a = b) }
     else Some False) = Some again \<and> (again \<longrightarrow> vmatch c m hist ip v 4)"
proof -
  note lims = cmp_input_limits [OF inp]
  obtain T1 where T1: "LZ4_putPosition m (ip - 2) T (tableType c) (base c) = Some T1" "table_ok c hist T1 ip"
    using table_ok_putPosition [OF inp T, of "ip - 2" ip] ip by auto
  obtain h where h: "LZ4_hashPosition m ip (tableType c) = Some h" "h < HASH_SIZE (tableType c)"
    using hashPosition_defined [OF inp, of ip "tableType c"] ip lims by auto
  define v where "v = LZ4_getPositionOnHash h T1 (tableType c) (base c)"
  have get: "LZ4_getPosition m ip T1 (tableType c) (base c) = Some v"
    by (simp add: LZ4_getPosition_def h v_def)
  note v = table_ok_get [OF inp T1(2) h(2), folded v_def]
  obtain T2 where T2: "LZ4_putPosition m ip T1 (tableType c) (base c) = Some T2" "table_ok c hist T2 (ip + 1)"
    using table_ok_putPosition [OF inp T1(2), of ip "ip + 1"] ip by auto
  obtain fh where fh: "LZ4_hashPosition m (ip + 1) (tableType c) = Some fh" "fh < HASH_SIZE (tableType c)"
    using hashPosition_defined [OF inp, of "ip + 1" "tableType c"] ip lims by auto
  define test where "test \<longleftrightarrow> (dictIssue c = dictSmall \<longrightarrow> lowRefLimit c \<le> v) \<and> ip \<le> v + 65535"
  have "\<exists>again. (if test then do { a \<leftarrow> LZ4_read32 m (v + fst (cur_of c hist v)); b \<leftarrow> LZ4_read32 m ip; Some (a = b) }
      else Some False) = Some again \<and> (again \<longrightarrow> vmatch c m hist ip v 4)"
  proof (cases test)
    case True
    then have "dictIssue c = dictSmall \<Longrightarrow> c_source c - int (length hist) \<le> v" "ip - v \<le> 65535"
      using inp by (auto simp: test_def cmp_input_def)
    then obtain a b where "LZ4_read32 m (v + vdelta c v) = Some a" "LZ4_read32 m ip = Some b"
      "a = b \<longleftrightarrow> vmatch c m hist ip v 4"
      using candidate [OF inp v(1,2)] ip lims by fastforce
    then show ?thesis using True by simp
  qed auto
  then show ?thesis using T1(1) get T2 fh unfolding test_def by blast
qed

end
