(* ===== verification/LZ4_Sequence.thy ===== *)
theory LZ4_Sequence
  imports LZ4_Emit LZ4_Decompress_Correct
begin

text \<open>
  What all compressors of the library share: writing the sequences of a block one after the other
  and the last literals at the end. \<open>emitted\<close> says how far a compressor has come; the lemmas
  say how each piece of output takes it further.
\<close>

section \<open>Input and output\<close>

definition src_input :: "cmp_env \<Rightarrow> mem \<Rightarrow> byte list \<Rightarrow> bool" where
  "src_input c m src \<longleftrightarrow>
     c_iend c = c_source c + int (length src) \<and> mflimit c = c_iend c - 12 \<and> matchlimit c = c_iend c - 5 \<and>
     bytes_at m (c_source c) src \<and> int (length src) \<le> LZ4_MAX_INPUT_SIZE"

text \<open>The output buffer, up to \<open>lim\<close>, is accessible and apart from the input.\<close>

definition src_apart :: "cmp_env \<Rightarrow> mem \<Rightarrow> addr \<Rightarrow> bool" where
  "src_apart c m lim \<longleftrightarrow> mapped m (c_dest c) lim \<and> (lim \<le> c_source c \<or> c_iend c \<le> c_dest c)"

lemma src_input_limits:
  assumes "src_input c m src"
  shows "c_iend c = c_source c + int (length src)" "mflimit c = c_iend c - 12" "matchlimit c = c_iend c - 5"
    "c_source c \<le> c_iend c"
  using assms by (auto simp: src_input_def)

lemma src_input_mapped: "src_input c m src \<Longrightarrow> mapped m (c_source c) (c_iend c)"
  by (auto simp: src_input_def dest: bytes_at_mapped)

lemma src_input_same:
  assumes "src_input c m src" "src_apart c m lim" "same_outside m m' (c_dest c) lim"
  shows "src_input c m' src"
proof -
  have "bytes_at m' (c_source c) src"
  proof (rule bytes_at_natI)
    fix k assume k: "k < length src"
    have "m' (c_source c + int k) = m (c_source c + int k)"
      using assms k by (intro same_outsideD [OF assms(3)]) (auto simp: src_input_def src_apart_def)
    then show "m' (c_source c + int k) = Some (src ! k)"
      using bytes_at_natD [OF _ k, of m "c_source c"] assms(1) by (simp add: src_input_def)
  qed
  then show ?thesis using assms(1) by (simp add: src_input_def)
qed

lemma src_apart_mapped: "src_apart c m lim \<Longrightarrow> c_dest c \<le> a \<Longrightarrow> mapped m a lim"
  by (auto simp: src_apart_def intro: mapped_subset)

lemma src_apart_dom: "src_apart c m lim \<Longrightarrow> same_dom m m' \<Longrightarrow> src_apart c m' lim"
  by (auto simp: src_apart_def intro: mapped_dom)

section \<open>Progress\<close>

text \<open>
  The sequences \<open>ss\<close> have been written for the input up to \<open>anchor\<close>; the run started in the
  memory \<open>m0\<close>.
\<close>

definition emitted ::
  "cmp_env \<Rightarrow> mem \<Rightarrow> mem \<Rightarrow> byte list \<Rightarrow> byte list \<Rightarrow> addr \<Rightarrow> addr \<Rightarrow> addr \<Rightarrow> lz4_seq list \<Rightarrow> bool" where
  "emitted c m0 m hist src lim anchor op ss \<longleftrightarrow>
     emits m0 m (c_dest c) (concat (map ser_seq ss)) lim \<and>
     op = c_dest c + int (length (concat (map ser_seq ss))) \<and> seqs_ok hist ss \<and>
     foldl apply_seq hist ss = hist @ take (nat (anchor - c_source c)) src \<and>
     c_source c \<le> anchor \<and> anchor \<le> c_iend c \<and>
     (ss \<noteq> [] \<longrightarrow> anchor \<le> matchlimit c \<and> anchor - int (mlen (last ss)) \<le> mflimit c)"

lemma emitted_init: "c_source c \<le> c_iend c \<Longrightarrow> emitted c m m hist src lim (c_source c) (c_dest c) []"
  by (simp add: emitted_def)

lemma emitted_size:
  assumes "src_input c m1 src" "emitted c m0 m hist src lim anchor op ss"
  shows "op - c_dest c \<le> (anchor - c_source c) + (anchor - c_source c) div 255" "c_dest c \<le> op"
proof -
  have "sum_list (map seq_size ss) = nat (anchor - c_source c)"
  proof -
    have "length (foldl apply_seq hist ss) = length hist + nat (anchor - c_source c)"
      using assms by (auto simp: emitted_def src_input_def)
    then show ?thesis by (simp add: length_foldl_apply)
  qed
  then have "length (concat (map ser_seq ss)) \<le> nat (anchor - c_source c) + nat (anchor - c_source c) div 255"
    using length_ser_seqs_le [OF seqs_ok_mlen, of hist ss] assms(2) unfolding emitted_def by simp
  then have "int (length (concat (map ser_seq ss))) \<le>
      int (nat (anchor - c_source c) + nat (anchor - c_source c) div 255)"
    by (simp only: of_nat_le_iff)
  also have "\<dots> = (anchor - c_source c) + (anchor - c_source c) div 255"
    using assms(2) by (simp add: emitted_def zdiv_int)
  finally show "op - c_dest c \<le> (anchor - c_source c) + (anchor - c_source c) div 255"
    using assms(2) by (simp add: emitted_def)
  show "c_dest c \<le> op" using assms(2) by (simp add: emitted_def)
qed

lemma emitted_same:
  "emitted c m0 m hist src lim anchor op ss \<Longrightarrow> same_dom m0 m \<and> same_outside m0 m (c_dest c) lim"
  by (simp add: emitted_def emits_def)

lemma emitted_src:
  assumes "src_input c m0 src" "src_apart c m0 lim" "emitted c m0 m hist src lim anchor op ss"
  shows "src_input c m src" "src_apart c m lim"
  using assms(3) src_input_same [OF assms(1,2)] src_apart_dom [OF assms(2)]
  by (simp_all add: emitted_def emits_def)

section \<open>Room\<close>

text \<open>With the room that \<open>LZ4_compressBound\<close> promises to be enough, everything fits.\<close>

definition bound_room :: "cmp_env \<Rightarrow> byte list \<Rightarrow> addr \<Rightarrow> bool" where
  "bound_room c src lim \<longleftrightarrow> c_dest c + int (length src) + int (length src) div 255 + 16 \<le> lim"

lemma len_ext_bound:
  "int (length (len_ext n)) = (int n + 240) div 255" "255 * int (length (len_ext n)) \<le> int n + 240"
  "n < 15 \<Longrightarrow> length (len_ext n) = 0"
  by (simp_all add: length_len_ext_div zdiv_int)

lemma emitted_bound:
  assumes inp: "src_input c m1 src" and em: "emitted c m0 m hist src lim anchor op ss" and bound: "bound_room c src e"
  obtains d where "op + int (length src) - (anchor - c_source c) + 16 \<le> e + d"
    "255 * d \<le> (anchor - c_source c) - int (length src) + 254"
    "c_source c \<le> anchor" "anchor \<le> c_source c + int (length src)"
proof
  define a s where "a = (anchor - c_source c) div 255" and "s = int (length src) div 255"
  have "255 * a \<le> anchor - c_source c" "int (length src) < 255 * s + 255" by (simp_all add: a_def s_def)
  then show "255 * (a - s) \<le> (anchor - c_source c) - int (length src) + 254" by simp
  have "op \<le> c_dest c + (anchor - c_source c) + a" using emitted_size(1) [OF inp em] by (simp add: a_def)
  moreover have "c_dest c + int (length src) + s + 16 \<le> e" using bound by (simp add: bound_room_def s_def)
  ultimately show "op + int (length src) - (anchor - c_source c) + 16 \<le> e + (a - s)" by simp
  show "c_source c \<le> anchor" "anchor \<le> c_source c + int (length src)"
    using em src_input_limits [OF inp] by (auto simp: emitted_def)
qed

lemma literals_bound:
  assumes inp: "src_input c m1 src" and em: "emitted c m0 m hist src lim anchor op ss" and bound: "bound_room c src lim"
    and ip: "anchor \<le> ip" "ip \<le> mflimit c"
  shows "op + 1 + int (length (len_ext (nat (ip - anchor)))) + max 8 (ip - anchor + 7) \<le> lim"
proof -
  obtain d where "op + int (length src) - (anchor - c_source c) + 16 \<le> lim + d"
    "255 * d \<le> (anchor - c_source c) - int (length src) + 254" "c_source c \<le> anchor"
    using emitted_bound [OF inp em bound] by blast
  then show ?thesis using len_ext_bound(2,3) [of "nat (ip - anchor)"] ip src_input_limits [OF inp] by linarith
qed

lemma last_bound:
  assumes inp: "src_input c m1 src" and em: "emitted c m0 m hist src lim anchor op ss" and bound: "bound_room c src e"
    and L: "L = nat (c_iend c - anchor)"
  shows "op + 1 + int (length (len_ext L)) + int L \<le> e"
proof -
  obtain d where "op + int (length src) - (anchor - c_source c) + 16 \<le> e + d"
    "255 * d \<le> (anchor - c_source c) - int (length src) + 254" "c_source c \<le> anchor" "anchor \<le> c_source c + int (length src)"
    using emitted_bound [OF inp em bound] by blast
  then show ?thesis using len_ext_bound(2) [of L] L src_input_limits [OF inp] by linarith
qed

section \<open>Literals\<close>

lemma wildCopy_emits:
  assumes "mapped m op lim" "mapped m s (max (s + 8) (s + int (length xs) + 7))" "bytes_at m s xs"
    and "max (op + 8) (op + int (length xs) + 7) \<le> lim"
    and "lim \<le> s \<or> max (s + 8) (s + int (length xs) + 7) \<le> op"
  shows "\<exists>m'. LZ4_wildCopy m op s (op + int (length xs)) = Some m' \<and> emits m m' op xs lim"
proof -
  let ?D = "op - s" and ?e = "op + int (length xs)"
  have s: "op - ?D = s" "max (op + 8) (?e + 7) - ?D = max (s + 8) (s + int (length xs) + 7)" by auto
  have "mapped m op (max (op + 8) (?e + 7))"
    using assms(1,4) by (auto intro: mapped_subset)
  moreover have "mapped m (op - ?D) (max (op + 8) (?e + 7) - ?D)"
    unfolding s by (rule assms(2))
  ultimately obtain m' K where w: "LZ4_wildCopy m op (op - ?D) ?e = Some m'" "8 \<le> K" "?e \<le> op + K"
    "op + K \<le> max (op + 8) (?e + 7)" "same_dom m m'" "same_outside m m' op (op + K)"
    "8 \<le> ?D \<or> K \<le> - ?D \<Longrightarrow> \<forall>i. op \<le> i \<and> i < op + K \<longrightarrow> m' i = m' (i - ?D)"
    using LZ4_wildCopy_spec [of m op ?e ?D] by blast
  have apart: "s + K \<le> op \<or> op + K \<le> s"
    using assms(4,5) w(2,4) by auto
  then have "8 \<le> ?D \<or> K \<le> - ?D" using w(2) by auto
  note eq = w(7) [OF this, rule_format]
  have "bytes_at m' op xs"
  proof (rule bytes_at_natI)
    fix k assume k: "k < length xs"
    have "m' (op + int k) = m' (s + int k)" using eq [of "op + int k"] k w(3) by (simp add: add.commute)
    also have "\<dots> = m (s + int k)" using apart k w(3) by (intro same_outsideD [OF w(6)]) auto
    also have "\<dots> = Some (xs ! k)" using assms(3) k by (rule bytes_at_natD)
    finally show "m' (op + int k) = Some (xs ! k)" .
  qed
  moreover have "same_outside m m' op lim"
    using w(4,6) assms(4) by (auto intro: same_outside_mono)
  ultimately show ?thesis using w(1,5) by (simp add: emits_def)
qed

lemma bytes_at_slice:
  assumes "bytes_at m a xs" "k + n \<le> length xs"
  shows "bytes_at m (a + int k) (take n (drop k xs))"
proof (rule bytes_at_natI)
  fix i assume "i < length (take n (drop k xs))"
  then show "m (a + int k + int i) = Some (take n (drop k xs) ! i)"
    using bytes_at_natD [OF assms(1), of "k + i"] assms(2) by (simp add: add.assoc)
qed

text \<open>The token of a new sequence and its literals have been written.\<close>

definition pending ::
  "cmp_env \<Rightarrow> mem \<Rightarrow> mem \<Rightarrow> byte list \<Rightarrow> byte list \<Rightarrow> addr \<Rightarrow> addr \<Rightarrow> addr \<Rightarrow> addr \<Rightarrow> addr \<Rightarrow> lz4_seq list \<Rightarrow> bool" where
  "pending c m0 m hist src lim anchor ip token op ss \<longleftrightarrow>
     (\<exists>m1. emitted c m0 m1 hist src lim anchor token ss \<and> anchor \<le> ip \<and> ip \<le> mflimit c \<and>
       (let L = nat (ip - anchor);
            bs = mk_token L 0 # len_ext L @ take L (drop (nat (anchor - c_source c)) src)
        in emits m1 m token bs lim \<and> op = token + int (length bs)) \<and> op + 2 \<le> lim)"

lemma put_literals_spec:
  assumes inp: "src_input c m src" and apart: "src_apart c m lim"
    and em: "emitted c m0 m hist src lim anchor op ss" and ip: "anchor \<le> ip" "ip \<le> mflimit c"
    and rm: "op + 1 + int (length (len_ext (nat (ip - anchor)))) + max 8 (ip - anchor + 7) \<le> lim"
  shows "\<exists>m1 op1 m2. LZ4_put_token m op (ip - anchor) = Some (m1, op1) \<and>
    LZ4_wildCopy m1 op1 anchor (op1 + (ip - anchor)) = Some m2 \<and>
    pending c m0 m2 hist src lim anchor ip op (op1 + (ip - anchor)) ss"
proof -
  define L xs where "L = nat (ip - anchor)" and "xs = take L (drop (nat (anchor - c_source c)) src)"
  note lims = src_input_limits [OF inp]
  have an: "c_source c \<le> anchor" using em by (simp add: emitted_def)
  have L: "int L = ip - anchor" "length xs = L"
    using ip an lims by (auto simp: L_def xs_def)
  have rm: "op + 1 + int (length (len_ext L)) + max 8 (int L + 7) \<le> lim"
    using rm ip(1) by (simp add: L_def)
  have dest: "c_dest c \<le> op" by (rule emitted_size(2) [OF inp em])
  have map: "mapped m op lim" by (rule src_apart_mapped [OF apart dest])
  have fit: "op + 1 + int (length (len_ext L)) \<le> lim" using rm by linarith
  obtain m1 where m1: "LZ4_put_token m op (int L) = Some (m1, op + 1 + int (length (len_ext L)))"
    "emits m m1 op (mk_token L 0 # len_ext L) lim"
    using put_token_emits [OF map fit] by blast
  have inp1: "src_input c m1 src"
    using src_input_same [OF inp apart] emits_outside [OF m1(2) dest] by blast
  have xs: "bytes_at m1 anchor xs"
    using bytes_at_slice [of m1 "c_source c" src "nat (anchor - c_source c)" L] an ip lims inp1
    by (simp add: xs_def L_def src_input_def)
  let ?op = "op + 1 + int (length (len_ext L))"
  have "mapped m1 ?op lim"
    using emits_mapped [OF m1(2) map] by (rule mapped_subset) simp_all
  moreover have "mapped m1 anchor (max (anchor + 8) (anchor + int (length xs) + 7))"
    using src_input_mapped [OF inp1] an ip lims L by (auto intro: mapped_subset)
  moreover have "lim \<le> anchor \<or> max (anchor + 8) (anchor + int (length xs) + 7) \<le> ?op"
    using apart an ip lims L dest by (auto simp: src_apart_def)
  moreover have "max (?op + 8) (?op + int (length xs) + 7) \<le> lim"
    using rm L by linarith
  ultimately obtain m2 where m2: "LZ4_wildCopy m1 ?op anchor (?op + int L) = Some m2" "emits m1 m2 ?op xs lim"
    using wildCopy_emits [of m1 ?op lim anchor xs] xs unfolding L(2) by blast
  have "emits m m2 op ((mk_token L 0 # len_ext L) @ xs) lim"
    using emits_append [OF m1(2), of m2 xs] m2(2) by (simp add: add.assoc)
  then have "pending c m0 m2 hist src lim anchor ip op (?op + int L) ss"
    unfolding pending_def Let_def L_def [symmetric] xs_def [symmetric]
    using em ip rm L by (intro exI [of _ m]) auto
  then show ?thesis using m1(1) m2(1) L(1) by auto
qed

lemma pending_src:
  assumes "src_input c m0 src" "src_apart c m0 lim" "pending c m0 m hist src lim anchor ip token op ss"
  shows "src_input c m src" "src_apart c m lim" "same_dom m0 m" "same_outside m0 m (c_dest c) lim" "c_dest c \<le> op"
proof -
  obtain m1 bs where em: "emitted c m0 m1 hist src lim anchor token ss" and tk: "emits m1 m token bs lim"
    and op: "op = token + int (length bs)"
    using assms(3) by (auto simp: pending_def Let_def)
  note m1 = emitted_src [OF assms(1,2) em]
  have dest: "c_dest c \<le> token" by (rule emitted_size(2) [OF m1(1) em])
  then show "c_dest c \<le> op" using op by simp
  have so: "same_outside m1 m (c_dest c) lim" "same_dom m1 m"
    using emits_outside [OF tk dest] emits_dom [OF tk] by auto
  then show "src_input c m src" "src_apart c m lim"
    using src_input_same [OF m1] src_apart_dom [OF m1(2)] by auto
  show "same_dom m0 m" "same_outside m0 m (c_dest c) lim"
    using so emitted_same [OF em] by (auto intro: same_dom_trans same_outside_trans)
qed

lemma pending_op:
  assumes "src_input c m1 src" "pending c m0 m hist src lim anchor ip token op ss"
  shows "op = token + 1 + int (length (len_ext (nat (ip - anchor)))) + (ip - anchor)" "anchor \<le> ip" "ip \<le> mflimit c"
    "\<exists>m2. emitted c m0 m2 hist src lim anchor token ss"
proof -
  obtain m2 where em: "emitted c m0 m2 hist src lim anchor token ss" "anchor \<le> ip" "ip \<le> mflimit c"
    "op = token + 1 + int (length (len_ext (nat (ip - anchor)))) +
      int (length (take (nat (ip - anchor)) (drop (nat (anchor - c_source c)) src)))"
    using assms(2) by (auto simp: pending_def Let_def)
  then show "anchor \<le> ip" "ip \<le> mflimit c" "\<exists>m2. emitted c m0 m2 hist src lim anchor token ss" by auto
  have "int (length (take (nat (ip - anchor)) (drop (nat (anchor - c_source c)) src))) = ip - anchor"
    using em src_input_limits [OF assms(1)] by (auto simp: emitted_def)
  then show "op = token + 1 + int (length (len_ext (nat (ip - anchor)))) + (ip - anchor)" using em(4) by simp
qed

lemma match_bound:
  assumes inp: "src_input c m1 src" and pe: "pending c m0 m hist src lim anchor ip token op ss" and bound: "bound_room c src lim"
    and ml: "ip + 4 + int ml \<le> matchlimit c"
  shows "op + 2 + int (length (len_ext ml)) + 3 \<le> lim"
proof -
  obtain m2 where em: "emitted c m0 m2 hist src lim anchor token ss" using pending_op(4) [OF inp pe] by blast
  obtain d where "token + int (length src) - (anchor - c_source c) + 16 \<le> lim + d"
    "255 * d \<le> (anchor - c_source c) - int (length src) + 254" "c_source c \<le> anchor"
    using emitted_bound [OF inp em bound] by blast
  then show ?thesis
    using pending_op(1-3) [OF inp pe] len_ext_bound(2,3) [of "nat (ip - anchor)"]
      len_ext_bound(2,3) [of ml] ml src_input_limits [OF inp] by linarith
qed

lemma pending_empty:
  assumes "emitted c m0 m hist src lim anchor op ss" "anchor \<le> mflimit c" "mapped m op lim" "op + 3 \<le> lim"
  shows "store m op 0 = Some (m(op \<mapsto> 0))"
    "pending c m0 (m(op \<mapsto> 0)) hist src lim anchor anchor op (op + 1) ss"
proof -
  note st = emits_store [OF assms(3), of 0]
  show "store m op 0 = Some (m(op \<mapsto> 0))" using st assms(4) by simp
  have "mk_token 0 0 # len_ext 0 = [0]" by (simp add: mk_token_def len_ext_def)
  then show "pending c m0 (m(op \<mapsto> 0)) hist src lim anchor anchor op (op + 1) ss"
    using assms st(2) unfolding pending_def by (intro exI [of _ m]) (simp add: Let_def)
qed

section \<open>Matches\<close>

lemma writeLE16_emits:
  assumes "mapped m op lim" "op + 2 \<le> lim"
  shows "\<exists>m'. LZ4_writeLE16 m op w = Some m' \<and> emits m m' op (le_bytes 2 w) lim"
  using emits_store_bytes [OF assms(1), of "le_bytes 2 w"] assms(2)
  by (simp add: LZ4_writeLE16_def LZ4_isLittleEndian_def)

lemma token_add: "mk_token L 0 + of_nat (min ml 15) = mk_token L ml"
  by (simp add: mk_token_def)

lemma encode_matchLength_emits:
  assumes em: "emits m m1 token (mk_token L 0 # bs) lim" and op: "op = token + 1 + int (length bs)"
    and map: "mapped m token lim" and room: "op + int (length (len_ext ml)) \<le> lim" "token < lim"
  shows "\<exists>m2. LZ4_encode_matchLength m1 token op (int ml) = Some (m2, op + int (length (len_ext ml))) \<and>
    emits m m2 token (mk_token L ml # bs @ len_ext ml) lim"
proof -
  have tok: "m1 token = Some (mk_token L 0)" using em by (simp add: emits_def)
  note up = emits_update [OF em room(2), of "mk_token L ml"]
  show ?thesis
  proof (cases "15 \<le> ml")
    case False
    then have "mk_token L 0 + of_nat ml = mk_token L ml" using token_add [of L ml] by simp
    then show ?thesis
      using False up by (simp add: LZ4_encode_matchLength_def tok len_ext_def)
  next
    case True
    then have t: "mk_token L 0 + 15 = mk_token L ml" using token_add [of L ml] by (simp add: min.absorb2)
    let ?m = "m1(token \<mapsto> mk_token L ml)"
    have "mapped ?m op lim"
      using emits_mapped [OF up(2) map] by (rule mapped_subset) (simp_all add: op)
    moreover have "op + int ((ml - 15) div 255) + 1 \<le> lim"
      using room(1) True by (simp add: length_len_ext)
    ultimately obtain m2 where m2: "LZ4_put_length ?m op (int (ml - 15)) = Some (m2, op + int ((ml - 15) div 255) + 1)"
      "emits ?m m2 op (ext_len (ml - 15)) lim"
      using put_length_emits by blast
    have "emits m m2 token ((mk_token L ml # bs) @ ext_len (ml - 15)) lim"
      using emits_append [OF up(2), of m2] m2(2) by (simp add: op add.assoc)
    then show ?thesis
      using True m2(1) up(1) t
      by (simp add: LZ4_encode_matchLength_def tok len_ext_def put_matchLength_eq of_nat_diff add.assoc)
  qed
qed

text \<open>
  In the data \<open>W\<close>, the \<open>n\<close> bytes from position \<open>p\<close> on repeat the ones \<open>off\<close> before.
\<close>

definition rmatch :: "byte list \<Rightarrow> nat \<Rightarrow> nat \<Rightarrow> nat \<Rightarrow> bool" where
  "rmatch W p off n \<longleftrightarrow> 1 \<le> off \<and> off \<le> 65535 \<and> off \<le> p \<and> p + n \<le> length W \<and>
     (\<forall>k < n. W ! (p + k) = W ! (p - off + k))"

lemma rmatch_less: "rmatch W p off n \<Longrightarrow> k \<le> n \<Longrightarrow> rmatch W p off k"
  by (auto simp: rmatch_def)

lemma rmatch_shift:
  assumes "rmatch W p off n" "k \<le> n"
  shows "rmatch W (p + k) off (n - k)"
proof -
  have "W ! (p + k + i) = W ! (p + k - off + i)" if "i < n - k" for i
  proof -
    have "k + i < n" using that by simp
    then have "W ! (p + (k + i)) = W ! (p - off + (k + i))" using assms(1) by (simp only: rmatch_def)
    moreover have "p + k - off + i = p - off + (k + i)" using assms(1) by (auto simp: rmatch_def)
    ultimately show ?thesis by (simp add: add.assoc)
  qed
  then show ?thesis using assms by (auto simp: rmatch_def)
qed

text \<open>The sequence that a match adds.\<close>

lemma sequence_data:
  assumes rm: "rmatch W p off n" and A: "A \<le> p" and n: "4 \<le> n"
  defines "s \<equiv> \<lparr>lits = take (p - A) (drop A W), moff = off, mlen = n\<rparr>"
  shows "seq_ok (take A W) s" "apply_seq (take A W) s = take (p + n) W"
proof -
  have pn: "p + n \<le> length W" "1 \<le> off" "off \<le> p" "off \<le> 65535" using rm by (auto simp: rmatch_def)
  have out: "take A W @ lits s = take p W"
    using A by (simp add: s_def flip: take_add)
  have "match_bytes (take p W) off n = take n (drop p W)"
    using rm pn by (intro match_bytes_data) (auto simp: rmatch_def)
  then show "apply_seq (take A W) s = take (p + n) W"
    using out by (simp add: apply_seq_def s_def take_add flip: append_assoc)
  have "length (take A W) + length (lits s) = p"
    using arg_cong [OF out, of length] pn by simp
  then show "seq_ok (take A W) s" using pn n by (simp add: seq_ok_def s_def)
qed

lemma write_offset_spec:
  assumes inp: "src_input c m0 src" and apart: "src_apart c m0 lim"
    and pe: "pending c m0 m hist src lim anchor ip token op ss"
  shows "\<exists>m1. LZ4_writeLE16 m op w = Some m1 \<and> emits m m1 op (le_bytes 2 w) lim \<and>
    src_input c m1 src \<and> src_apart c m1 lim \<and> same_dom m0 m1 \<and> same_outside m0 m1 (c_dest c) lim"
proof -
  note pm = pending_src [OF inp apart pe]
  have "op + 2 \<le> lim" using pe by (auto simp: pending_def)
  then obtain m1 where m1: "LZ4_writeLE16 m op w = Some m1" "emits m m1 op (le_bytes 2 w) lim"
    using writeLE16_emits [OF src_apart_mapped [OF pm(2,5)]] by blast
  have so: "same_outside m m1 (c_dest c) lim" using emits_outside [OF m1(2) pm(5)] .
  show ?thesis
    using m1 src_input_same [OF pm(1,2) so] src_apart_dom [OF pm(2) emits_dom [OF m1(2)]]
      same_dom_trans [OF pm(3) emits_dom [OF m1(2)]] same_outside_trans [OF pm(4) so] by blast
qed

lemma write_matchLength_spec:
  assumes inp: "src_input c m0 src" and apart: "src_apart c m0 lim"
    and pe: "pending c m0 m hist src lim anchor ip token op ss"
    and m1: "emits m m1 op (le_bytes 2 (word_of_int (ip - v) :: u16)) lim"
    and rm: "rmatch (hist @ src) (length hist + nat (ip - c_source c)) (nat (ip - v)) (4 + ml)"
    and end_match: "ip + 4 + int ml \<le> matchlimit c" and room: "op + 2 + int (length (len_ext ml)) \<le> lim"
  shows "\<exists>m2 s. LZ4_encode_matchLength m1 token (op + 2) (int ml) = Some (m2, op + 2 + int (length (len_ext ml))) \<and>
    mlen s = 4 + ml \<and> emitted c m0 m2 hist src lim (ip + 4 + int ml) (op + 2 + int (length (len_ext ml))) (ss @ [s])"
proof -
  define A L where "A = nat (anchor - c_source c)" and "L = nat (ip - anchor)"
  define xs where "xs = take L (drop A src)"
  define w where "w = (word_of_int (ip - v) :: u16)"
  obtain mt where em: "emitted c m0 mt hist src lim anchor token ss" and ip: "anchor \<le> ip" "ip \<le> mflimit c"
    and tk: "emits mt m token (mk_token L 0 # len_ext L @ xs) lim"
    and op: "op = token + int (length (mk_token L 0 # len_ext L @ xs))" "op + 2 \<le> lim"
    using pe by (auto simp: pending_def Let_def A_def L_def xs_def)
  note lims = src_input_limits [OF inp] and mt = emitted_src [OF inp apart em]
  have an: "c_source c \<le> anchor" using em by (simp add: emitted_def)
  have dest: "c_dest c \<le> token" "token < lim" using emitted_size(2) [OF inp em] op by auto
  have mapt: "mapped mt token lim" by (rule src_apart_mapped [OF mt(2) dest(1)])
  have tk1: "emits mt m1 token (mk_token L 0 # len_ext L @ xs @ le_bytes 2 w) lim"
    using emits_append [OF tk, of m1] m1 op(1) by (simp add: w_def)
  have op2: "op + 2 = token + 1 + int (length (len_ext L @ xs @ le_bytes 2 w))"
    using op(1) by simp
  obtain m2 where m2: "LZ4_encode_matchLength m1 token (op + 2) (int ml) = Some (m2, op + 2 + int (length (len_ext ml)))"
    "emits mt m2 token (mk_token L ml # (len_ext L @ xs @ le_bytes 2 w) @ len_ext ml) lim"
    using encode_matchLength_emits [OF tk1 op2 mapt _ dest(2), of ml] room by auto
  define s where "s = \<lparr>lits = xs, moff = nat (ip - v), mlen = 4 + ml\<rparr>"
  have p: "length hist + nat (ip - c_source c) = length hist + A + L" using an ip by (simp add: A_def L_def)
  have e: "nat (ip + 4 + int ml - c_source c) = A + L + (4 + ml)" using an ip by (simp add: A_def L_def)
  have "take (length hist + A + L - (length hist + A)) (drop (length hist + A) (hist @ src)) = xs"
    by (simp add: xs_def)
  then have seq: "seq_ok (hist @ take A src) s"
      "apply_seq (hist @ take A src) s = hist @ take (nat (ip + 4 + int ml - c_source c)) src"
    using sequence_data [OF rm [unfolded p], of "length hist + A"]
    unfolding e s_def by (simp_all add: add.assoc)
  have len: "length xs = L" using ip an lims by (auto simp: xs_def A_def L_def)
  have "1 \<le> nat (ip - v)" using rm unfolding rmatch_def by blast
  then have "0 \<le> ip - v" by linarith
  then have "w = of_nat (nat (ip - v))" by (simp add: w_def)
  then have ser: "mk_token L ml # (len_ext L @ xs @ le_bytes 2 w) @ len_ext ml = ser_seq s"
    using len by (simp add: s_def ser_seq_def)
  have tok: "token = c_dest c + int (length (concat (map ser_seq ss)))"
    and fold: "foldl apply_seq hist ss = hist @ take A src"
    using em by (simp_all add: emitted_def A_def)
  have "emits m0 m2 (c_dest c) (concat (map ser_seq (ss @ [s]))) lim"
    using emits_append [of m0 mt "c_dest c" "concat (map ser_seq ss)" lim m2 "ser_seq s"] em m2(2) ser tok
    by (simp add: emitted_def)
  moreover have "op + 2 + int (length (len_ext ml)) = c_dest c + int (length (concat (map ser_seq (ss @ [s]))))"
    using op2 tok by (simp add: ser [symmetric])
  ultimately have "emitted c m0 m2 hist src lim (ip + 4 + int ml) (op + 2 + int (length (len_ext ml))) (ss @ [s])"
    using em seq fold end_match an ip lims by (auto simp: emitted_def seqs_ok_snoc s_def)
  moreover have "mlen s = 4 + ml" by (simp add: s_def)
  ultimately show ?thesis using m2(1) by blast
qed

section \<open>Last literals\<close>

text \<open>The output is a block for \<open>src\<close> after \<open>hist\<close>, and its length is the result.\<close>

definition compressed_to :: "mem \<Rightarrow> mem \<Rightarrow> addr \<Rightarrow> addr \<Rightarrow> byte list \<Rightarrow> byte list \<Rightarrow> int \<Rightarrow> bool" where
  "compressed_to m m' dest lim hist src r \<longleftrightarrow>
     (\<exists>ss ls. lz4_block hist ss ls \<and> decode hist ss ls = src \<and> emits m m' dest (ser_block ss 0 ls) lim \<and>
        r = int (length (ser_block ss 0 ls)) \<and> dest + r \<le> lim)"

lemma length_ser_block_le:
  assumes "seqs_ok hist ss"
  shows "length (ser_block ss t ls) \<le> block_size ss ls + block_size ss ls div 255 + 2"
proof -
  define a b where "a = sum_list (map seq_size ss)" and "b = length ls"
  have "length (concat (map ser_seq ss)) \<le> a + a div 255"
    using length_ser_seqs_le [OF seqs_ok_mlen [OF assms]] by (simp add: a_def)
  moreover have "length (ser_last t ls) = 1 + (b + 240) div 255 + b"
    by (simp add: length_ser_last length_len_ext_div b_def)
  moreover have "(b + 240) div 255 \<le> b div 255 + 1" by linarith
  moreover have "a div 255 + b div 255 \<le> (a + b) div 255" by (rule div_add_le)
  ultimately show ?thesis
    by (simp add: ser_block_def block_size_def a_def b_def)
qed

lemma compressed_to_bound:
  assumes "compressed_to m m' dest lim hist src r"
  shows "0 < r" "r \<le> int (length src) + int (length src) div 255 + 2" "dest + r \<le> lim"
proof -
  obtain ss ls where b: "lz4_block hist ss ls" "decode hist ss ls = src" "r = int (length (ser_block ss 0 ls))"
    and "dest + r \<le> lim"
    using assms by (auto simp: compressed_to_def)
  then show "dest + r \<le> lim" by simp
  have "block_size ss ls = length src" using length_decode [of hist ss ls] b(2) by simp
  then have "length (ser_block ss 0 ls) \<le> length src + length src div 255 + 2"
    using length_ser_block_le [of hist ss 0 ls] b(1) by (simp add: lz4_block_def)
  then have "r \<le> int (length src + length src div 255 + 2)" using b(3) by (simp only: of_nat_le_iff)
  then show "r \<le> int (length src) + int (length src) div 255 + 2" by (simp add: zdiv_int)
  show "0 < r" using b(3) length_ser_block_ge [of ls ss 0] by linarith
qed

lemma copied_emits:
  assumes "bytes_at m s xs" "mapped m d lim" "d + int (length xs) \<le> lim"
  shows "\<exists>m'. memcpy m d s (int (length xs)) = Some m' \<and> emits m m' d xs lim"
proof -
  have map: "mapped m s (s + int (length xs))" "mapped m d (d + int (length xs))"
    using assms by (auto intro: bytes_at_mapped mapped_subset)
  then have "memcpy m d s (int (length xs)) = Some (copied m d s (int (length xs)))"
    by (intro memmove_mapped) simp_all
  moreover have "same_outside m (copied m d s (int (length xs))) d lim"
    by (rule same_outside_mono [OF same_outside_copied]) (use assms(3) in simp_all)
  ultimately show ?thesis
    using bytes_at_copied [OF assms(1) refl] same_dom_copied [OF map] by (simp add: emits_def)
qed

text \<open>The last literals end the block; \<open>LZ4_compress_destSize\<close> may stop short of the input's end.\<close>

lemma put_last_spec:
  assumes inp: "src_input c m0 src" and apart: "src_apart c m0 lim"
    and em: "emitted c m0 m hist src lim anchor op ss"
    and L: "anchor + int L \<le> c_iend c" and fin: "ss \<noteq> [] \<Longrightarrow> 5 \<le> L \<and> 12 \<le> mlen (last ss) + L"
    and rm: "op + 1 + int (length (len_ext L)) + int L \<le> lim"
  shows "\<exists>m1 op1 m2. LZ4_put_token m op (int L) = Some (m1, op1) \<and> memcpy m1 op1 anchor (int L) = Some m2 \<and>
    op1 + int L - c_dest c < 2 ^ 31 \<and> op1 = op + 1 + int (length (len_ext L)) \<and>
    compressed_to m0 m2 (c_dest c) lim hist (take (nat (anchor - c_source c) + L) src) (op1 + int L - c_dest c)"
proof -
  note inpm = emitted_src [OF inp apart em] and lims = src_input_limits [OF inp]
  define A where "A = nat (anchor - c_source c)"
  define ls where "ls = take L (drop A src)"
  have L: "length ls = L" "A + L \<le> length src"
    using em lims L by (auto simp: emitted_def A_def ls_def)
  have dest: "c_dest c \<le> op" by (rule emitted_size(2) [OF inp em])
  have map: "mapped m op lim" by (rule src_apart_mapped [OF inpm(2) dest])
  have fit: "op + 1 + int (length (len_ext L)) \<le> lim" using rm by linarith
  obtain m1 where m1: "LZ4_put_token m op (int L) = Some (m1, op + 1 + int (length (len_ext L)))"
    "emits m m1 op (mk_token L 0 # len_ext L) lim"
    using put_token_emits [OF map fit] by blast
  have "src_input c m1 src"
    using src_input_same [OF inpm] emits_outside [OF m1(2) dest] by blast
  then have at: "bytes_at m1 anchor ls"
    using bytes_at_slice [of m1 "c_source c" src A L] em L by (auto simp: ls_def A_def emitted_def src_input_def)
  let ?op = "op + 1 + int (length (len_ext L))"
  have "mapped m1 ?op lim" using emits_mapped [OF m1(2) map] by (rule mapped_subset) simp_all
  from copied_emits [OF at this] rm L(1)
  obtain m2 where m2: "memcpy m1 ?op anchor (int L) = Some m2" "emits m1 m2 ?op ls lim" by auto
  have "emits m m2 op ((mk_token L 0 # len_ext L) @ ls) lim"
    using emits_append [OF m1(2), of m2 ls] m2(2) by (simp add: add.assoc)
  then have out: "emits m0 m2 (c_dest c) (ser_block ss 0 ls) lim"
    using emits_append [of m0 m "c_dest c" "concat (map ser_seq ss)" lim m2 "ser_last 0 ls"] em L(1)
    by (simp add: emitted_def ser_block_def ser_last_def)
  have block: "lz4_block hist ss ls" "decode hist ss ls = take (A + L) src"
    using em L fin by (auto simp: lz4_block_def emitted_def end_ok_def decode_def ls_def A_def take_add)
  have len: "?op + int L - c_dest c = int (length (ser_block ss 0 ls))"
    using em L(1) by (simp add: emitted_def ser_block_def ser_last_def)
  then have comp: "compressed_to m0 m2 (c_dest c) lim hist (take (A + L) src) (?op + int L - c_dest c)"
    using out block rm by (auto simp: compressed_to_def)
  moreover have "?op + int L - c_dest c < 2 ^ 31"
  proof -
    have "int (length (take (A + L) src)) \<le> 2113929216" using inp L(2) by (simp add: src_input_def)
    then have "?op + int L - c_dest c < 2147483648"
      using compressed_to_bound(2) [OF comp] by linarith
    then show ?thesis by simp
  qed
  ultimately show ?thesis using m1(1) m2(1) by (auto simp: A_def)
qed

text \<open>What has been compressed without a history can be decompressed.\<close>

lemma compressed_decodes:
  assumes "compressed_to m m1 dest (dest + n) [] xs r" "0 \<le> dest" "dest + n < 2 ^ 64" "n < 2 ^ 31"
    and "mapped m out (out + k)" "int (length xs) \<le> k" "k < 2 ^ 31" "0 \<le> out" "out + k < 2 ^ 64"
    and "dest + n \<le> out \<or> out + k \<le> dest"
  shows "decodes_to (LZ4_decompress_safe m1 dest out r k) m1 out k (int (length xs)) xs"
proof -
  obtain ss ls where b: "lz4_block [] ss ls" "decode [] ss ls = xs" "emits m m1 dest (ser_block ss 0 ls) (dest + n)"
    "r = int (length (ser_block ss 0 ls))"
    using assms(1) by (auto simp: compressed_to_def)
  have size: "block_size ss ls = length xs" using b(2) length_decode [of "[]" ss ls] by simp
  have "io_buffers m1 dest (int (length (ser_block ss 0 ls))) out k"
    using assms compressed_to_bound(1,3) [OF assms(1)] b emits_mapped [OF b(3) assms(5)] by (auto simp: io_buffers_def)
  then show ?thesis
    using decompress_safe_prefix [OF b(1), of m1 dest out k noDict out 0 0 0] b assms(6) size
    by (simp add: LZ4_decompress_safe_def emits_def)
qed

end
