(* ===== verification/LZ4_Compress_Correct.thy ===== *)
theory LZ4_Compress_Correct
  imports LZ4_Match_Find LZ4_Sequence
begin

text \<open>
  The writing half of the compressor and the whole of \<open>LZ4_compress_generic\<close>: what it leaves in
  the output buffer is a well-formed block that decodes to the input.
\<close>

section \<open>The output buffer\<close>

text \<open>The output buffer, up to \<open>lim\<close>, is accessible and apart from the input and the history.\<close>

definition cmp_apart :: "cmp_env \<Rightarrow> mem \<Rightarrow> byte list \<Rightarrow> addr \<Rightarrow> bool" where
  "cmp_apart c m hist lim \<longleftrightarrow>
     mapped m (c_dest c) lim \<and> (lim \<le> c_source c \<or> c_iend c \<le> c_dest c) \<and>
     (if c_dict c = usingExtDict then lim \<le> c_dictionary c \<or> c_dictEnd c \<le> c_dest c
      else lim \<le> c_source c - int (length hist) \<or> c_iend c \<le> c_dest c)"

text \<open>
  There is enough room: the bound on the output of \<open>LZ4_compressBound\<close> when the output is not
  checked, else the limit that the code checks.
\<close>

definition room_ok :: "cmp_env \<Rightarrow> byte list \<Rightarrow> addr \<Rightarrow> bool" where
  "room_ok c src lim \<longleftrightarrow>
     (case outputLimited c of
        notLimited \<Rightarrow> c_dest c + int (length src) + int (length src) div 255 + 16 \<le> lim
      | limitedOutput \<Rightarrow> olimit c \<le> lim \<and> c_maxOutputSize c = olimit c - c_dest c \<and>
          0 \<le> c_maxOutputSize c \<and> c_maxOutputSize c < 2 ^ 31)"

text \<open>
  The test before a match length reserves a byte for 256 of length where 255 are written. On an
  input of up to 128 KB that is covered by the spare bytes of the test, and above when the output
  buffer is about as large as the input, or has the size of \<open>LZ4_compressBound\<close>. Otherwise the
  length bytes may run past the limit, by a byte for 65280 bytes of input.
\<close>

definition fast_slack :: "nat \<Rightarrow> int \<Rightarrow> int" where
  "fast_slack N n =
     (if N \<le> 131072 \<or> int N - 1 \<le> n \<and> N \<le> 2 ^ 24 \<or> int N + int N div 255 + 16 \<le> n then 0
      else int N div 65280 + 1)"

definition long_ok :: "cmp_env \<Rightarrow> byte list \<Rightarrow> addr \<Rightarrow> bool" where
  "long_ok c src lim \<longleftrightarrow> (outputLimited c = limitedOutput \<longrightarrow>
     olimit c + fast_slack (length src) (c_maxOutputSize c) \<le> lim)"

lemma cmp_apart_mapped: "cmp_apart c m hist lim \<Longrightarrow> c_dest c \<le> a \<Longrightarrow> mapped m a lim"
  by (auto simp: cmp_apart_def intro: mapped_subset)

lemma cmp_apart_dom: "cmp_apart c m hist lim \<Longrightarrow> same_dom m m' \<Longrightarrow> cmp_apart c m' hist lim"
  by (auto simp: cmp_apart_def intro: mapped_dom)

lemma cmp_input_same:
  assumes inp: "cmp_input c m hist src" and apart: "cmp_apart c m hist lim"
    and same: "same_outside m m' (c_dest c) lim"
  shows "cmp_input c m' hist src"
proof -
  have "cvread c m' (c_source c - int (length hist) + int k) = cvread c m (c_source c - int (length hist) + int k)"
    if "k < length (hist @ src)" for k
    unfolding cvread_vdelta
  proof (rule same_outsideD [OF same])
    let ?a = "c_source c - int (length hist) + int k"
    have ie: "?a < c_iend c" using that inp by (simp add: cmp_input_def)
    show "?a + vdelta c ?a < c_dest c \<or> lim \<le> ?a + vdelta c ?a"
    proof (cases "c_dict c = usingExtDict \<and> ?a < c_source c")
      case True
      then have "vdelta c ?a = c_dictionary c + int (length hist) - c_source c"
        "c_dictEnd c = c_dictionary c + int (length hist)"
        using inp by (auto simp: vdelta_def cmp_input_def)
      then show ?thesis using apart True by (auto simp: cmp_apart_def)
    next
      case False
      then have "vdelta c ?a = 0" by (auto simp: vdelta_def)
      then show ?thesis
        using apart ie False by (auto simp: cmp_apart_def split: if_splits)
    qed
  qed
  then show ?thesis using inp by (auto simp: cmp_input_def)
qed

lemma cmp_input_src: "cmp_input c m hist src \<Longrightarrow> src_input c m src"
  using cmp_input_source [of c m hist src] by (simp add: src_input_def cmp_input_def)

lemma cmp_apart_src: "cmp_apart c m hist lim \<Longrightarrow> src_apart c m lim"
  by (auto simp: cmp_apart_def src_apart_def)

lemma emitted_input:
  assumes "cmp_input c m0 hist src" "cmp_apart c m0 hist lim" "emitted c m0 m hist src lim anchor op ss"
  shows "cmp_input c m hist src" "cmp_apart c m hist lim"
  using emitted_same [OF assms(3)] cmp_input_same [OF assms(1,2)] cmp_apart_dom [OF assms(2)] by auto

section \<open>Literals\<close>

lemma room_ok_bound: "room_ok c src lim \<Longrightarrow> outputLimited c = notLimited \<Longrightarrow> bound_room c src lim"
  by (simp add: room_ok_def bound_room_def)

lemma literals_room:
  assumes inp: "cmp_input c m1 hist src" and em: "emitted c m0 m hist src lim anchor op ss" and room: "room_ok c src lim"
    and ip: "anchor \<le> ip" "ip \<le> mflimit c"
    and chk: "\<not> (outputLimited c = limitedOutput \<and> op + 1 + (ip - anchor) + 8 + (ip - anchor) div 255 > olimit c)"
  shows "op + 1 + int (length (len_ext (nat (ip - anchor)))) + max 8 (ip - anchor + 7) \<le> lim"
proof (cases "outputLimited c")
  case notLimited
  then show ?thesis using literals_bound [OF cmp_input_src [OF inp] em room_ok_bound [OF room] ip] by simp
next
  case limitedOutput
  define l where "l = (ip - anchor) div 255"
  have l: "ip - anchor < 255 * l + 255" "0 \<le> l" using ip(1) by (simp_all add: l_def pos_imp_zdiv_nonneg_iff)
  have "op + 1 + (ip - anchor) + 8 + l \<le> lim"
    using chk room limitedOutput by (simp add: room_ok_def l_def)
  then show ?thesis using l len_ext_bound(2,3) [of "nat (ip - anchor)"] ip(1) by linarith
qed

lemma literals_fit:
  assumes inp: "cmp_input c m1 hist src" and em: "emitted c m0 m hist src lim anchor op ss"
    and bound: "bound_room c src e" and ip: "anchor \<le> ip" "ip \<le> mflimit c"
  shows "op + 1 + (ip - anchor) + 8 + (ip - anchor) div 255 \<le> e"
proof -
  define l where "l = (ip - anchor) div 255"
  have "255 * l \<le> ip - anchor" by (simp add: l_def)
  moreover obtain d where "op + int (length src) - (anchor - c_source c) + 16 \<le> e + d"
    "255 * d \<le> (anchor - c_source c) - int (length src) + 254" "c_source c \<le> anchor"
    using emitted_bound [OF cmp_input_src [OF inp] em bound] by blast
  ultimately have "op + 1 + (ip - anchor) + 8 + l \<le> e"
    using ip cmp_input_limits [OF inp] by linarith
  then show ?thesis by (simp add: l_def)
qed

lemma encode_literals_spec:
  assumes inp: "cmp_input c m hist src" and apart: "cmp_apart c m hist lim"
    and em: "emitted c m0 m hist src lim anchor op ss" and room: "room_ok c src lim"
    and ip: "anchor \<le> ip" "ip \<le> mflimit c"
  shows "(outputLimited c = limitedOutput \<and> op + 1 + (ip - anchor) + 8 + (ip - anchor) div 255 > olimit c \<and>
      LZ4_encode_literals c m op anchor ip = Some (Inl m)) \<or>
    (\<exists>m' op'. LZ4_encode_literals c m op anchor ip = Some (Inr (m', op')) \<and>
       pending c m0 m' hist src lim anchor ip op op' ss)"
proof (cases "outputLimited c = limitedOutput \<and> op + 1 + (ip - anchor) + 8 + (ip - anchor) div 255 > olimit c")
  case True
  then show ?thesis by (simp add: LZ4_encode_literals_def Let_def)
next
  case False
  from put_literals_spec [OF cmp_input_src [OF inp] cmp_apart_src [OF apart] em ip literals_room [OF inp em room ip False]]
  show ?thesis using False by (auto simp: LZ4_encode_literals_def Let_def)
qed

section \<open>Matches\<close>

text \<open>Where the match length is written there is room, also for the next token and offset.\<close>

lemma match_room:
  assumes inp: "cmp_input c m1 hist src" and pe: "pending c m0 m hist src lim anchor ip token op ss"
    and room: "room_ok c src lim" "long_ok c src lim" and ml: "ip + 4 + int ml \<le> matchlimit c"
    and chk: "\<not> (outputLimited c = limitedOutput \<and> op + 2 + 6 + drop_bit 8 (int ml) > olimit c)"
  shows "op + 2 + int (length (len_ext ml)) + 3 \<le> lim"
proof (cases "outputLimited c")
  case notLimited
  then show ?thesis using match_bound [OF cmp_input_src [OF inp] pe room_ok_bound [OF room(1)] ml] by simp
next
  case limitedOutput
  note src = cmp_input_src [OF inp] and lims = cmp_input_limits [OF inp]
  define A S e q where "A = anchor - c_source c" and "S = int (length src)" and "e = int ml div 256" and "q = S div 65280"
  have e: "int ml < 256 * e + 256" "S < 65280 * q + 65280" by (simp_all add: e_def q_def)
  have le: "op + 2 + 6 + e \<le> olimit c" "olimit c \<le> lim"
    using chk room limitedOutput by (auto simp: room_ok_def e_def drop_bit_eq_div)
  have big: "S \<le> 131072 \<or> c_dest c + S - 1 \<le> lim \<and> S \<le> 16777216 \<or> bound_room c src lim \<or> olimit c + q + 1 \<le> lim"
    using room limitedOutput by (auto simp: long_ok_def room_ok_def fast_slack_def bound_room_def S_def q_def split: if_splits)
  obtain m2 where em: "emitted c m0 m2 hist src lim anchor token ss" using pending_op(4) [OF src pe] by blast
  define a where "a = A div 255"
  have tok: "token \<le> c_dest c + A + a" "255 * a \<le> A"
    using emitted_size(1) [OF src em] by (simp_all add: A_def a_def)
  have nn: "0 \<le> A" "A + (ip - anchor) + 4 + int ml + 5 \<le> S"
    using em ml lims by (auto simp: emitted_def A_def S_def)
  consider "bound_room c src lim" | "int ml \<le> 131072" | "olimit c + q + 1 \<le> lim"
    | "131072 < int ml" "c_dest c + S - 1 \<le> lim" "S \<le> 16777216"
    using big nn pending_op(2) [OF src pe] by linarith
  then show ?thesis
  proof cases
    case 1
    then show ?thesis using match_bound [OF src pe _ ml] by simp
  next
    case 2
    then show ?thesis using le e len_ext_bound(2) [of ml] by linarith
  next
    case 3
    have "0 \<le> ip - anchor" using pending_op(2) [OF src pe] by simp
    then have "int ml < 65280 * q + 65280" using nn e(2) by linarith
    then show ?thesis using 3 le e(1) len_ext_bound(2) [of ml] by linarith
  next
    case 4
    then show ?thesis
      using tok nn pending_op(1,2) [OF src pe] len_ext_bound(2,3) [of "nat (ip - anchor)"] len_ext_bound(2) [of ml]
      by linarith
  qed
qed

lemma match_fit:
  assumes inp: "cmp_input c m1 hist src" and pe: "pending c m0 m hist src lim anchor ip token op ss"
    and bound: "bound_room c src e" and ml: "ip + 4 + int ml \<le> matchlimit c"
  shows "op + 2 + 6 + drop_bit 8 (int ml) \<le> e"
proof -
  note src = cmp_input_src [OF inp]
  obtain m2 where em: "emitted c m0 m2 hist src lim anchor token ss" using pending_op(4) [OF src pe] by blast
  define k where "k = int ml div 256"
  have "256 * k \<le> int ml" by (simp add: k_def)
  moreover obtain d where "token + int (length src) - (anchor - c_source c) + 16 \<le> e + d"
    "255 * d \<le> (anchor - c_source c) - int (length src) + 254" "c_source c \<le> anchor"
    using emitted_bound [OF src em bound] by blast
  ultimately have "op + 2 + 6 + k \<le> e"
    using pending_op(1-3) [OF src pe] len_ext_bound(2) [of "nat (ip - anchor)"]
      ml cmp_input_limits [OF inp] by linarith
  then show ?thesis by (simp add: k_def drop_bit_eq_div)
qed

lemma pending_input:
  assumes "cmp_input c m0 hist src" "cmp_apart c m0 hist lim" "pending c m0 m hist src lim anchor ip token op ss"
  shows "cmp_input c m hist src" "cmp_apart c m hist lim"
  using pending_src [OF cmp_input_src [OF assms(1)] cmp_apart_src [OF assms(2)] assms(3)]
    cmp_input_same [OF assms(1,2)] cmp_apart_dom [OF assms(2)] by auto

text \<open>A match in memory is one in the data.\<close>

lemma vmatch_rmatch:
  assumes inp: "cmp_input c m hist src" and vm: "vmatch c m hist ip v (int n)"
    and ip: "c_source c \<le> ip" "ip + int n \<le> c_iend c"
  shows "rmatch (hist @ src) (length hist + nat (ip - c_source c)) (nat (ip - v)) n"
proof -
  define p where "p = length hist + nat (ip - c_source c)"
  have p: "int p = int (length hist) + (ip - c_source c)" using ip(1) by (simp add: p_def)
  have v: "c_source c - int (length hist) \<le> v" "v < ip" "ip - v \<le> 65535" using vm by (auto simp: vmatch_def)
  have off: "1 \<le> nat (ip - v)" "nat (ip - v) \<le> p" "nat (ip - v) \<le> 65535" using v p by auto
  have "(hist @ src) ! (p + k) = (hist @ src) ! (p - nat (ip - v) + k)" if k: "k < n" for k
  proof -
    have "cvread c m (v + int k) = cvread c m (ip + int k)"
      using vm k ip(1) by (auto simp: vmatch_def cvread_source)
    moreover have "nat (v + int k - (c_source c - int (length hist))) = p - nat (ip - v) + k"
      "nat (ip + int k - (c_source c - int (length hist))) = p + k"
      using off p v by auto
    moreover have "v + int k < c_iend c" "ip + int k < c_iend c" "c_source c - int (length hist) \<le> ip + int k"
      using k ip v by auto
    ultimately show ?thesis
      using cmp_input_at [OF inp, of "v + int k"] cmp_input_at [OF inp, of "ip + int k"] v(1) by simp
  qed
  moreover have "p + n \<le> length (hist @ src)"
    using ip cmp_input_limits(1) [OF inp] by (simp add: p_def)
  ultimately show ?thesis
    using off by (simp add: rmatch_def p_def)
qed

lemma encode_match_spec:
  assumes inp: "cmp_input c m0 hist src" and apart: "cmp_apart c m0 hist lim"
    and pe: "pending c m0 m hist src lim anchor ip token op ss" and room: "room_ok c src lim"
    and vm: "vmatch c m hist ip v n" and n: "4 \<le> n" "ip + n \<le> matchlimit c"
    and side: "c_dict c = usingExtDict \<longrightarrow> (v < c_source c \<longleftrightarrow> v0 < c_source c)"
  shows "\<exists>m1 ml. LZ4_writeLE16 m op (word_of_int (ip - v)) = Some m1 \<and>
    LZ4_match_length c m1 ip v (cur_of c hist v0) = Some (int ml, ip + 4 + int ml) \<and>
    n \<le> 4 + int ml \<and> ip + 4 + int ml \<le> matchlimit c \<and> same_dom m0 m1 \<and> same_outside m0 m1 (c_dest c) lim \<and>
    (long_ok c src lim \<longrightarrow> \<not> (outputLimited c = limitedOutput \<and> op + 2 + 6 + drop_bit 8 (int ml) > olimit c) \<longrightarrow>
      (\<exists>m2 op2 s. LZ4_encode_matchLength m1 token (op + 2) (int ml) = Some (m2, op2) \<and>
         emitted c m0 m2 hist src lim (ip + 4 + int ml) op2 (ss @ [s]) \<and> op2 + 3 \<le> lim))"
proof -
  note lims = cmp_input_limits [OF inp] and src = cmp_input_src [OF inp] cmp_apart_src [OF apart]
  have ip: "c_source c \<le> ip" using pe by (auto simp: pending_def emitted_def)
  obtain m1 where m1: "LZ4_writeLE16 m op (word_of_int (ip - v)) = Some m1"
    "emits m m1 op (le_bytes 2 (word_of_int (ip - v) :: u16)) lim" "same_dom m0 m1" "same_outside m0 m1 (c_dest c) lim"
    using write_offset_spec [OF src pe] by blast
  note inp1 = cmp_input_same [OF inp apart m1(4)]
  have "vmatch c m1 hist ip v n"
    using vmatch_same [OF pending_input(1) [OF inp apart pe] inp1 vm ip] n(2) lims by simp
  from match_length_spec [OF inp1 this n(1) ip n(2) side]
  obtain ml' where ml': "0 \<le> ml'" "LZ4_match_length c m1 ip v (cur_of c hist v0) = Some (ml', ip + 4 + ml')"
    "n \<le> 4 + ml'" "ip + 4 + ml' \<le> matchlimit c" "vmatch c m1 hist ip v (4 + ml')" by auto
  then obtain ml where ml: "ml' = int ml" using nonneg_int_cases by blast
  have rm: "rmatch (hist @ src) (length hist + nat (ip - c_source c)) (nat (ip - v)) (4 + ml)"
    using vmatch_rmatch [OF inp1, of ip v "4 + ml"] ml' ml ip lims by simp
  have "\<exists>m2 op2 s. LZ4_encode_matchLength m1 token (op + 2) (int ml) = Some (m2, op2) \<and>
      emitted c m0 m2 hist src lim (ip + 4 + int ml) op2 (ss @ [s]) \<and> op2 + 3 \<le> lim"
    if long: "long_ok c src lim"
      and chk: "\<not> (outputLimited c = limitedOutput \<and> op + 2 + 6 + drop_bit 8 (int ml) > olimit c)"
  proof -
    have "op + 2 + int (length (len_ext ml)) + 3 \<le> lim"
      using match_room [OF inp pe room long _ chk] ml' ml by simp
    then show ?thesis using write_matchLength_spec [OF src pe m1(2) rm] ml' ml by fastforce
  qed
  then show ?thesis using m1 ml' ml by blast
qed

text \<open>How the part from \<open>_next_match\<close> on leaves things; the input is consumed at least up to \<open>low\<close>.\<close>

definition outcome_ok ::
  "cmp_env \<Rightarrow> mem \<Rightarrow> byte list \<Rightarrow> byte list \<Rightarrow> addr \<Rightarrow> addr \<Rightarrow> cmp_outcome \<Rightarrow> bool" where
  "outcome_ok c m0 hist src lim low r \<longleftrightarrow>
     (case r of
        Return0 m T \<Rightarrow> outputLimited c = limitedOutput \<and> \<not> bound_room c src (olimit c) \<and> same_dom m0 m \<and> same_outside m0 m (c_dest c) lim \<and>
          table_ok c hist T (mflimit c + 1)
      | End_chunk m T anchor op \<Rightarrow> (\<exists>ss. emitted c m0 m hist src lim anchor op ss) \<and> table_ok c hist T (mflimit c + 1)
      | Next_loop m T ip' anchor op fh cur \<Rightarrow> (\<exists>ss. emitted c m0 m hist src lim anchor op ss) \<and> ip' = anchor + 1 \<and>
          low \<le> anchor \<and> ip' \<le> mflimit c + 1 \<and> table_ok c hist T ip' \<and> cur_ok c hist cur \<and>
          fh < HASH_SIZE (tableType c))"

lemma next_match_spec:
  assumes inp: "cmp_input c m0 hist src" and apart: "cmp_apart c m0 hist lim" and room: "room_ok c src lim" "long_ok c src lim"
    and "pending c m0 m hist src lim anchor ip token op ss"
    and "vmatch c m hist ip v n" "4 \<le> n" "ip + n \<le> matchlimit c"
    and "c_dict c = usingExtDict \<longrightarrow> (v < c_source c \<longleftrightarrow> v0 < c_source c)"
    and "table_ok c hist T (ip + n)" "table_ok c hist T (mflimit c + 1)"
  shows "\<exists>r. LZ4_next_match c m T ip v token op (cur_of c hist v0) = Some r \<and> outcome_ok c m0 hist src lim (ip + n) r"
  using assms(5-)
proof (induction "nat (c_iend c - ip)" arbitrary: m T anchor ip token op ss v v0 n rule: less_induct)
  case less
  note lims = cmp_input_limits [OF inp]
  note inpm = pending_input [OF inp apart less.prems(1)]
  from encode_match_spec [OF inp apart less.prems(1) room(1) less.prems(2-5)] room(2)
  obtain m1 ml where m1: "LZ4_writeLE16 m op (word_of_int (ip - v)) = Some m1"
    "LZ4_match_length c m1 ip v (cur_of c hist v0) = Some (int ml, ip + 4 + int ml)"
    "n \<le> 4 + int ml" "ip + 4 + int ml \<le> matchlimit c" "same_dom m0 m1" "same_outside m0 m1 (c_dest c) lim"
    and enc: "\<not> (outputLimited c = limitedOutput \<and> op + 2 + 6 + drop_bit 8 (int ml) > olimit c) \<longrightarrow>
      (\<exists>m2 op2 s. LZ4_encode_matchLength m1 token (op + 2) (int ml) = Some (m2, op2) \<and>
         emitted c m0 m2 hist src lim (ip + 4 + int ml) op2 (ss @ [s]) \<and> op2 + 3 \<le> lim)"
    by blast
  have src: "c_source c \<le> ip" using less.prems(1) by (auto simp: pending_def emitted_def)
  define ip' where "ip' = ip + 4 + int ml"
  have ip': "ip < ip'" "ip + n \<le> ip'" "c_source c \<le> ip' - 2" using m1(3) less.prems(3) src by (auto simp: ip'_def)
  show ?case
  proof (cases "outputLimited c = limitedOutput \<and> op + 2 + 6 + drop_bit 8 (int ml) > olimit c")
    case True
    then have "\<not> bound_room c src (olimit c)"
      using match_fit [OF inp less.prems(1) _ m1(4), of "olimit c"] by auto
    then show ?thesis
      using True m1 less.prems(7) by (subst LZ4_next_match.simps) (auto simp: outcome_ok_def)
  next
    case False
    then obtain m2 op2 s where m2: "LZ4_encode_matchLength m1 token (op + 2) (int ml) = Some (m2, op2)"
      "emitted c m0 m2 hist src lim ip' op2 (ss @ [s])" "op2 + 3 \<le> lim"
      using enc by (auto simp: ip'_def)
    note inp2 = emitted_input [OF inp apart m2(2)]
    show ?thesis
    proof (cases "mflimit c < ip'")
      case True
      then have "LZ4_next_match c m T ip v token op (cur_of c hist v0) = Some (End_chunk m2 T ip' op2)"
        using False m1 m2 by (subst LZ4_next_match.simps) (auto simp: ip'_def)
      then show ?thesis using m2(2) less.prems(7) by (auto simp: outcome_ok_def)
    next
      case more: False
      have "table_ok c hist T ip'"
        using less.prems(6) ip' by (auto intro: table_ok_mono)
      from next_position [OF inp2(1) this] ip' more
      obtain T1 v' T2 fh again where nx: "LZ4_putPosition m2 (ip' - 2) T (tableType c) (base c) = Some T1"
        "LZ4_getPosition m2 ip' T1 (tableType c) (base c) = Some v'"
        "LZ4_putPosition m2 ip' T1 (tableType c) (base c) = Some T2"
        "LZ4_hashPosition m2 (ip' + 1) (tableType c) = Some fh" "fh < HASH_SIZE (tableType c)"
        "(if (dictIssue c = dictSmall \<longrightarrow> lowRefLimit c \<le> v') \<and> ip' \<le> v' + MAX_DISTANCE
          then do { a \<leftarrow> LZ4_read32 m2 (v' + fst (cur_of c hist v')); b \<leftarrow> LZ4_read32 m2 ip'; Some (a = b) }
          else Some False) = Some again"
        and T2: "table_ok c hist T2 (ip' + 1)" and vm: "again \<Longrightarrow> vmatch c m2 hist ip' v' 4" by auto
      have map2: "mapped m2 op2 lim"
        using cmp_apart_mapped [OF inp2(2)] emitted_size(2) [OF cmp_input_src [OF inp] m2(2)] by simp
      note pe = pending_empty [OF m2(2) _ map2 m2(3)]
      have run: "LZ4_next_match c m T ip v token op (cur_of c hist v0) =
          (if again then LZ4_next_match c (m2(op2 \<mapsto> 0)) T2 ip' v' op2 (op2 + 1) (cur_of c hist v')
           else Some (Next_loop m2 T2 (ip' + 1) ip' op2 fh (cur_of c hist v')))"
        using False more m1 m2 nx pe(1)
        by (subst LZ4_next_match.simps)
          (auto simp: ip'_def [symmetric] select_dict_cur [OF cur_of_ok] simp del: fun_upd_apply)
      show ?thesis
      proof (cases again)
        case False
        then show ?thesis
          using run m2(2) T2 more ip' nx(5) by (auto simp: outcome_ok_def)
      next
        case True
        let ?m = "m2(op2 \<mapsto> 0)"
        have pem: "pending c m0 ?m hist src lim ip' ip' op2 (op2 + 1) (ss @ [s])" using pe(2) more by simp
        have "vmatch c ?m hist ip' v' 4"
          using vmatch_same [OF inp2(1) pending_input(1) [OF inp apart pem] vm [OF True]] ip' more lims by simp
        moreover have "table_ok c hist T2 (ip' + 4)" "table_ok c hist T2 (mflimit c + 1)"
          using T2 more by (auto intro: table_ok_mono)
        moreover have "nat (c_iend c - ip') < nat (c_iend c - ip)" "ip' + 4 \<le> matchlimit c"
          using ip' more lims by auto
        ultimately obtain r where "LZ4_next_match c ?m T2 ip' v' op2 (op2 + 1) (cur_of c hist v') = Some r"
          "outcome_ok c m0 hist src lim (ip' + 4) r"
          using less.hyps [OF _ pem, of v' 4 v' T2] by auto
        then show ?thesis
          using True run ip' by (auto simp: outcome_ok_def split: cmp_outcome.splits)
      qed
    qed
  qed
qed

section \<open>Last literals\<close>

lemma last_room:
  assumes inp: "cmp_input c m1 hist src" and em: "emitted c m0 m hist src lim anchor op ss" and room: "room_ok c src lim"
    and L: "L = nat (c_iend c - anchor)"
    and chk: "\<not> (outputLimited c = limitedOutput \<and>
      op - c_dest c + int L + 1 + (int L + 240) div 255 > c_maxOutputSize c mod 2 ^ 32)"
  shows "op + 1 + int (length (len_ext L)) + int L \<le> lim"
proof (cases "outputLimited c")
  case notLimited
  then show ?thesis using last_bound [OF cmp_input_src [OF inp] em room_ok_bound [OF room] L] by simp
next
  case limitedOutput
  then have "c_maxOutputSize c mod 2 ^ 32 = olimit c - c_dest c" "olimit c \<le> lim"
    using room by (auto simp: room_ok_def)
  then show ?thesis
    using chk limitedOutput by (simp add: len_ext_bound(1))
qed

lemma last_fit:
  assumes inp: "cmp_input c m1 hist src" and em: "emitted c m0 m hist src lim anchor op ss"
    and bound: "bound_room c src e" and L: "L = nat (c_iend c - anchor)"
  shows "op - c_dest c + int L + 1 + (int L + 240) div 255 \<le> e - c_dest c"
  using last_bound [OF cmp_input_src [OF inp] em bound L] by (simp add: len_ext_bound(1))

lemma encode_last_spec:
  assumes inp: "cmp_input c m0 hist src" and apart: "cmp_apart c m0 hist lim" and room: "room_ok c src lim"
    and em: "emitted c m0 m hist src lim anchor op ss"
  shows "(outputLimited c = limitedOutput \<and> \<not> bound_room c src (olimit c) \<and> LZ4_encode_last c m anchor op = Some (m, 0)) \<or>
    (\<exists>m' r. LZ4_encode_last c m anchor op = Some (m', r) \<and> compressed_to m0 m' (c_dest c) lim hist src r \<and>
       (outputLimited c = limitedOutput \<longrightarrow> r \<le> c_maxOutputSize c))"
proof -
  note lims = cmp_input_limits [OF inp]
  define A L where "A = nat (anchor - c_source c)" and "L = nat (c_iend c - anchor)"
  have L: "int L = c_iend c - anchor" using em by (auto simp: emitted_def L_def)
  show ?thesis
  proof (cases "outputLimited c = limitedOutput \<and>
      op - c_dest c + int L + 1 + (int L + 240) div 255 > c_maxOutputSize c mod 2 ^ 32")
    case True
    then have "\<not> bound_room c src (olimit c)"
      using last_fit [OF inp em _ L_def, of "olimit c"] room by (auto simp: room_ok_def)
    then show ?thesis
      unfolding LZ4_encode_last_def Let_def L(1) [symmetric] using True by (simp add: add.commute)
  next
    case False
    have "ss \<noteq> [] \<Longrightarrow> 5 \<le> L \<and> 12 \<le> mlen (last ss) + L"
      using em lims L(1) by (auto simp: emitted_def)
    moreover have "take (A + L) src = src" using L lims em by (auto simp: A_def emitted_def)
    ultimately obtain m1 op1 m2 where m2: "LZ4_put_token m op (int L) = Some (m1, op1)" "memcpy m1 op1 anchor (int L) = Some m2"
      "op1 + int L - c_dest c < 2 ^ 31" "op1 = op + 1 + int (length (len_ext L))"
      "compressed_to m0 m2 (c_dest c) lim hist src (op1 + int L - c_dest c)"
      using put_last_spec [OF cmp_input_src [OF inp] cmp_apart_src [OF apart] em _ _ last_room [OF inp em room L_def False]] L
      by (auto simp: A_def)
    have "0 < op1 + int L - c_dest c" by (rule compressed_to_bound(1) [OF m2(5)])
    moreover have "op1 + int L - c_dest c \<le> c_maxOutputSize c" if "outputLimited c = limitedOutput"
      using that False m2(4) room by (simp add: room_ok_def len_ext_bound(1))
    ultimately show ?thesis
      unfolding LZ4_encode_last_def Let_def L(1) [symmetric] using False m2(1,2,3,5) by auto
  qed
qed

section \<open>The whole compressor\<close>

definition compress_ok ::
  "cmp_env \<Rightarrow> mem \<Rightarrow> byte list \<Rightarrow> byte list \<Rightarrow> addr \<Rightarrow> mem \<times> hashtable \<times> int \<Rightarrow> bool" where
  "compress_ok c m0 hist src lim r \<longleftrightarrow>
     (case r of (m, T, n) \<Rightarrow> table_ok c hist T (mflimit c + 1) \<and>
        (outputLimited c = limitedOutput \<and> \<not> bound_room c src (olimit c) \<and> n = 0 \<and> same_dom m0 m \<and> same_outside m0 m (c_dest c) lim \<or>
         compressed_to m0 m (c_dest c) lim hist src n \<and> (outputLimited c = limitedOutput \<longrightarrow> n \<le> c_maxOutputSize c)))"

lemma compress_ok_last:
  assumes "cmp_input c m0 hist src" "cmp_apart c m0 hist lim" "room_ok c src lim"
    "emitted c m0 m hist src lim anchor op ss" "table_ok c hist T (mflimit c + 1)"
  shows "\<exists>r. do { (m, r) \<leftarrow> LZ4_encode_last c m anchor op; Some (m, T, r) } = Some r \<and> compress_ok c m0 hist src lim r"
  using encode_last_spec [OF assms(1-4)] emitted_same [OF assms(4)] assms(5)
  by (auto simp: compress_ok_def)

lemma main_loop_spec:
  assumes inp: "cmp_input c m0 hist src" and apart: "cmp_apart c m0 hist lim" and room: "room_ok c src lim" "long_ok c src lim"
    and acc: "1 \<le> acceleration c" "acceleration c \<le> 2 ^ 25"
    and "emitted c m0 m hist src lim anchor op ss" "table_ok c hist T ip" "anchor < ip" "ip \<le> mflimit c + 1"
      "cur_ok c hist cur" "fh < HASH_SIZE (tableType c)"
  shows "\<exists>r. LZ4_main_loop c m T ip anchor op fh cur = Some r \<and> compress_ok c m0 hist src lim r"
  using assms(7-)
proof (induction "nat (c_iend c - ip)" arbitrary: m T ip anchor op ss fh cur rule: less_induct)
  case less
  note lims = cmp_input_limits [OF inp] and inpm = emitted_input [OF inp apart less.prems(1)]
  have an: "c_source c \<le> anchor" using less.prems(1) by (simp add: emitted_def)
  define nb where "nb = (push_bit 6 (acceleration c)) mod 2 ^ 32"
  have nb: "64 \<le> nb" "nb + (c_iend c - ip) < 2 ^ 32"
    using acc lims an less.prems(3) by (auto simp: nb_def push_bit_eq_mult)
  from find_match_spec [OF inpm(1) less.prems(2) _ less.prems(4,5) _ nb less.prems(6), of 1] an less.prems(3)
  obtain found where found: "LZ4_find_match c m T ip fh 1 nb cur = Some found"
    "case found of Inl T' \<Rightarrow> table_ok c hist T' (mflimit c + 1)
     | Inr (T', ip', v, cur') \<Rightarrow> table_ok c hist T' (ip' + 1) \<and> ip \<le> ip' \<and> ip' < mflimit c \<and>
         vmatch c m hist ip' v 4 \<and> cur' = cur_of c hist v" by auto
  note run = LZ4_main_loop.simps [of c m T ip anchor op fh cur, folded nb_def, unfolded found(1), simplified]
  show ?case
  proof (cases found)
    case (Inl T')
    then show ?thesis
      using compress_ok_last [OF inp apart room(1) less.prems(1), of T'] found(2) run by simp
  next
    case (Inr x)
    then obtain T' ip' v where x: "found = Inr (T', ip', v, cur_of c hist v)" "table_ok c hist T' (ip' + 1)" "ip \<le> ip'"
      "ip' < mflimit c" "vmatch c m hist ip' v 4" using found(2) by auto
    obtain k where k: "0 \<le> k" "LZ4_catch_up m anchor (cur_of c hist v) ip' v = Some (ip' - k, v - k)" "anchor \<le> ip' - k"
      "vmatch c m hist (ip' - k) (v - k) (4 + k)" "c_dict c = usingExtDict \<longrightarrow> (v - k < c_source c \<longleftrightarrow> v < c_source c)"
      using catch_up_spec [OF inpm(1) x(5) an, of v] less.prems(3) x(3,4) lims by auto
    consider "outputLimited c = limitedOutput" "op + 1 + (ip' - k - anchor) + 8 + (ip' - k - anchor) div 255 > olimit c"
        "LZ4_encode_literals c m op anchor (ip' - k) = Some (Inl m)"
      | m1 op1 where "LZ4_encode_literals c m op anchor (ip' - k) = Some (Inr (m1, op1))"
        "pending c m0 m1 hist src lim anchor (ip' - k) op op1 ss"
      using encode_literals_spec [OF inpm less.prems(1) room(1) k(3)] x(4) k(1) by auto
    then show ?thesis
    proof cases
      case 1
      have "table_ok c hist T' (mflimit c + 1)" using x(2,4) by (auto intro: table_ok_mono)
      moreover have "\<not> bound_room c src (olimit c)"
        using literals_fit [OF inp less.prems(1) _ k(3), of "olimit c"] 1(1,2) x(4) k(1) by auto
      ultimately show ?thesis
        using 1 run x(1) k(2) emitted_same [OF less.prems(1)] by (simp add: compress_ok_def)
    next
      case 2
      have "vmatch c m1 hist (ip' - k) (v - k) (4 + k)"
        using vmatch_same [OF inpm(1) pending_input(1) [OF inp apart 2(2)] k(4)] an k x(4) lims by simp
      moreover have "table_ok c hist T' (ip' - k + (4 + k))" "table_ok c hist T' (mflimit c + 1)"
        using x(2,4) by (auto intro: table_ok_mono)
      moreover have "4 \<le> 4 + k" "ip' - k + (4 + k) \<le> matchlimit c" using k(1) x(4) lims by auto
      ultimately obtain r where r: "LZ4_next_match c m1 T' (ip' - k) (v - k) op op1 (cur_of c hist v) = Some r"
        "outcome_ok c m0 hist src lim (ip' - k + (4 + k)) r"
        using next_match_spec [OF inp apart room 2(2), of "v - k" "4 + k" v T'] k(5) by blast
      note run' = run [unfolded x(1), simplified, unfolded k(2), simplified, unfolded 2(1), simplified, unfolded r(1), simplified]
      show ?thesis
      proof (cases r)
        case (Return0 m2 T2)
        then show ?thesis using run' r(2) by (simp add: outcome_ok_def compress_ok_def)
      next
        case (End_chunk m2 T2 an2 op2)
        then show ?thesis
          using run' r(2) compress_ok_last [OF inp apart room(1), of m2 an2 op2 _ T2] by (auto simp: outcome_ok_def)
      next
        case (Next_loop m2 T2 ip2 an2 op2 fh2 cur2)
        then obtain ss2 where ss2: "emitted c m0 m2 hist src lim an2 op2 ss2" "ip2 = an2 + 1" "ip2 \<le> mflimit c + 1"
          "table_ok c hist T2 ip2" "cur_ok c hist cur2" "fh2 < HASH_SIZE (tableType c)" "ip < ip2"
          using r(2) x(3) by (auto simp: outcome_ok_def)
        then show ?thesis
          using run' Next_loop less.hyps [of ip2 m2 an2 op2 ss2 T2 cur2 fh2] less.prems(4) lims by simp
      qed
    qed
  qed
qed

lemma compress_generic_spec:
  fixes ctx source dest src maxOutputSize limited tt dct issue accel
  defines "c \<equiv> cmp_env_of ctx source dest (int (length src)) maxOutputSize limited tt dct issue accel"
  assumes inp: "cmp_input c m hist src" and apart: "cmp_apart c m hist lim" and room: "room_ok c src lim" "long_ok c src lim"
    and acc: "1 \<le> accel" "accel \<le> 2 ^ 25" and T: "table_ok c hist (hashTable ctx) (source + 1)"
    and low: "dct = withPrefix64k \<longrightarrow> dictSize ctx = int (length hist)"
  shows "\<exists>m' T r. LZ4_compress_generic m ctx source dest (int (length src)) maxOutputSize limited tt dct issue accel =
      Some (m', ctx\<lparr>hashTable := T\<rparr>, r) \<and>
    (if length src < 13 then T = hashTable ctx else table_ok c hist T (source + int (length src) - 11)) \<and>
    (limited = limitedOutput \<and> \<not> bound_room c src (olimit c) \<and> r = 0 \<and> same_dom m m' \<and> same_outside m m' dest lim \<or>
     compressed_to m m' dest lim hist src r \<and> (limited = limitedOutput \<longrightarrow> r \<le> maxOutputSize))"
proof -
  have c: "c_source c = source" "c_dest c = dest" "c_iend c = source + int (length src)"
    "mflimit c = source + int (length src) - 12" "outputLimited c = limited" "tableType c = tt" "c_dict c = dct"
    "acceleration c = accel" "c_maxOutputSize c = maxOutputSize"
    by (simp_all add: c_def cmp_env_of_def)
  have size: "int (length src) \<le> 2113929216" "tt = byU16 \<longrightarrow> length src < 65547"
    using inp c by (auto simp: cmp_input_def)
  have em: "emitted c m m hist src lim source dest []"
    using emitted_init [of c m hist src lim] c by simp
  let ?low = "case dct of noDict \<Rightarrow> source | withPrefix64k \<Rightarrow> source - dictSize ctx | usingExtDict \<Rightarrow> source"
  show ?thesis
  proof (cases "length src < 13")
    case True
    then have "LZ4_compress_generic m ctx source dest (int (length src)) maxOutputSize limited tt dct issue accel =
        do { (m, r) \<leftarrow> LZ4_encode_last c m source dest; Some (m, ctx, r) }"
      using size by (auto simp: LZ4_compress_generic_def Let_def c_def)
    moreover have "ctx = ctx\<lparr>hashTable := hashTable ctx\<rparr>" by simp
    ultimately show ?thesis
      using encode_last_spec [OF inp apart room(1) em] True c by fastforce
  next
    case False
    obtain T1 where T1: "LZ4_putPosition m source (hashTable ctx) tt (base c) = Some T1" "table_ok c hist T1 (source + 1)"
      using table_ok_putPosition [OF inp T, of source "source + 1"] c False by auto
    obtain fh where fh: "LZ4_hashPosition m (source + 1) tt = Some fh" "fh < HASH_SIZE tt"
      using hashPosition_defined [OF inp, of "source + 1" tt] c False by auto
    have "cur_ok c hist (0, ?low)"
      using low inp c by (auto simp: cur_ok_def cmp_input_def split: dict_directive.splits)
    then obtain m' T' r where r: "LZ4_main_loop c m T1 (source + 1) source dest fh (0, ?low) = Some (m', T', r)"
      "compress_ok c m hist src lim (m', T', r)"
      using main_loop_spec [OF inp apart room _ _ em, of T1 "source + 1" "(0, ?low)" fh] T1(2) acc c False fh(2)
      by auto
    have "LZ4_compress_generic m ctx source dest (int (length src)) maxOutputSize limited tt dct issue accel =
        Some (m', ctx\<lparr>hashTable := T'\<rparr>, r)"
      using size False T1(1) fh(1) r(1) by (auto simp: LZ4_compress_generic_def Let_def c_def)
    then show ?thesis
      using r(2) False c by (auto simp: compress_ok_def)
  qed
qed

section \<open>What callers provide\<close>

definition one_shot_buffers :: "mem \<Rightarrow> addr \<Rightarrow> byte list \<Rightarrow> addr \<Rightarrow> int \<Rightarrow> bool" where
  "one_shot_buffers m source src dest n \<longleftrightarrow>
     bytes_at m source src \<and> mapped m dest (dest + n) \<and>
     (source + int (length src) \<le> dest \<or> dest + n \<le> source) \<and> int (length src) \<le> LZ4_MAX_INPUT_SIZE"

lemma compressBound_eq:
  "0 \<le> n \<Longrightarrow> n \<le> LZ4_MAX_INPUT_SIZE \<Longrightarrow> LZ4_compressBound n = n + n div 255 + 16"
  by (simp add: LZ4_compressBound_def)

lemma fast_slack_bound:
  assumes "LZ4_compressBound (int N) \<le> n" "int N \<le> LZ4_MAX_INPUT_SIZE"
  shows "fast_slack N n = 0"
  using assms compressBound_eq [of "int N"] by (simp add: fast_slack_def)

end
