(* ===== verification/LZ4_Compress_Fast.thy ===== *)
theory LZ4_Compress_Fast
  imports LZ4_Compress_Correct
begin

text \<open>
  The one-shot compression functions: they produce a well-formed block, stay inside the output
  buffer, keep the promised bound on the size of the output, and what they write is decompressed to
  the input again.
\<close>

section \<open>One run on a fresh table\<close>

lemma one_shot_input:
  assumes "one_shot_buffers m source src dest n"
    and "tt = byU16 \<and> length src < 65547 \<or> tt = byU32"
  shows "cmp_input (cmp_env_of LZ4_resetStream source dest (int (length src)) k limited tt noDict noDictIssue accel)
      m [] src"
    "cmp_apart (cmp_env_of LZ4_resetStream source dest (int (length src)) k limited tt noDict noDictIssue accel)
      m [] (dest + n)"
    "table_ok (cmp_env_of LZ4_resetStream source dest (int (length src)) k limited tt noDict noDictIssue accel)
      [] (hashTable LZ4_resetStream) (source + 1)"
  using assms
  by (auto simp: one_shot_buffers_def cmp_input_def cmp_apart_def table_ok_def entry_ok_def cmp_env_of_def
      LZ4_resetStream_def cvread_def bytes_at_natD)

lemma one_shot_spec:
  assumes bufs: "one_shot_buffers m source src dest n"
    and tt: "tt = byU16 \<and> length src < 65547 \<or> tt = byU32" and acc: "1 \<le> accel" "accel \<le> 2 ^ 25"
    and room: "limited = notLimited \<and> int (length src) + int (length src) div 255 + 16 \<le> n \<or>
      limited = limitedOutput \<and> 0 \<le> k \<and> k < 2 ^ 31 \<and> k + fast_slack (length src) k \<le> n"
  shows "\<exists>m' ctx r. LZ4_compress_generic m LZ4_resetStream source dest (int (length src)) k limited tt noDict
      noDictIssue accel = Some (m', ctx, r) \<and>
    (limited = limitedOutput \<and> r = 0 \<and> same_dom m m' \<and> same_outside m m' dest (dest + n) \<or>
     compressed_to m m' dest (dest + n) [] src r \<and> (limited = limitedOutput \<longrightarrow> r \<le> k))"
proof -
  have "0 \<le> fast_slack (length src) k" by (simp add: fast_slack_def)
  then have "room_ok (cmp_env_of LZ4_resetStream source dest (int (length src)) k limited tt noDict noDictIssue accel)
      src (dest + n)"
    "long_ok (cmp_env_of LZ4_resetStream source dest (int (length src)) k limited tt noDict noDictIssue accel)
      src (dest + n)"
    using room by (auto simp: room_ok_def long_ok_def cmp_env_of_def)
  from compress_generic_spec [OF one_shot_input(1,2) [OF bufs tt] this acc one_shot_input(3) [OF bufs tt]]
  show ?thesis by auto
qed

lemma compress_fast_spec:
  fixes n src
  defines "cap \<equiv> n + fast_slack (length src) n"
  assumes bufs: "one_shot_buffers m source src dest cap" and n: "0 \<le> n" "n < 2 ^ 31" and acc: "accel \<le> 2 ^ 25"
  shows "\<exists>m' ctx r. LZ4_compress_fast_extState m source dest (int (length src)) n accel = Some (m', ctx, r) \<and>
    (n < LZ4_compressBound (int (length src)) \<and> r = 0 \<and> same_dom m m' \<and> same_outside m m' dest (dest + cap) \<or>
     compressed_to m m' dest (dest + cap) [] src r \<and> r \<le> n)"
proof -
  define a where "a = (if accel < 1 then 1 else accel)"
  have a: "1 \<le> a" "a \<le> 2 ^ 25" using acc by (auto simp: a_def)
  have bound: "LZ4_compressBound (int (length src)) = int (length src) + int (length src) div 255 + 16"
    using bufs by (intro compressBound_eq) (auto simp: one_shot_buffers_def)
  define tt where "tt = (if length src < 65547 then byU16 else byU32)"
  have tt: "tt = byU16 \<and> length src < 65547 \<or> tt = byU32" by (simp add: tt_def)
  show ?thesis
  proof (cases "LZ4_compressBound (int (length src)) \<le> n")
    case True
    then have "LZ4_compress_fast_extState m source dest (int (length src)) n accel =
        LZ4_compress_generic m LZ4_resetStream source dest (int (length src)) 0 notLimited tt noDict noDictIssue a"
      by (simp add: LZ4_compress_fast_extState_def Let_def a_def tt_def LZ4_64bits_def)
    moreover have "cap = n" using True bound by (simp add: cap_def fast_slack_def)
    ultimately show ?thesis
      using one_shot_spec [OF bufs tt a, of notLimited 0] True bound compressed_to_bound(3) [of m _ dest "dest + n" "[]" src]
      by fastforce
  next
    case False
    then have "LZ4_compress_fast_extState m source dest (int (length src)) n accel =
        LZ4_compress_generic m LZ4_resetStream source dest (int (length src)) n limitedOutput tt noDict noDictIssue a"
      by (simp add: LZ4_compress_fast_extState_def Let_def a_def tt_def LZ4_64bits_def)
    then show ?thesis
      using one_shot_spec [OF bufs tt a, of limitedOutput n] False n by (auto simp: cap_def)
  qed
qed

section \<open>Theorems\<close>

text \<open>
  C1: compressing with \<open>LZ4_compress_fast\<close> and an acceleration of at most \<open>2 ^ 25\<close> into a buffer of at
  least \<open>LZ4_compressBound\<close> bytes and then decompressing the result with \<open>LZ4_decompress_safe\<close> gives
  the input back, for every input of at most \<open>LZ4_MAX_INPUT_SIZE\<close> bytes: the compressor ends, makes no access outside its buffers and never reports
  failure, and the decompressor returns the size of the input and leaves its bytes in the
  destination.
\<close>

theorem LZ4_compress_roundtrip:
  assumes "one_shot_buffers m source src dest n" "LZ4_compressBound (int (length src)) \<le> n" "n < 2 ^ 31"
    and "accel \<le> 2 ^ 25" "0 \<le> dest" "dest + n < 2 ^ 64"
    and "mapped m out (out + k)" "int (length src) \<le> k" "k < 2 ^ 31" "0 \<le> out" "out + k < 2 ^ 64"
    and "dest + n \<le> out \<or> out + k \<le> dest"
  shows "\<exists>m1 r m2. LZ4_compress_fast m source dest (int (length src)) n accel = Some (m1, r) \<and>
    0 < r \<and> r \<le> LZ4_compressBound (int (length src)) \<and> same_outside m m1 dest (dest + n) \<and>
    LZ4_decompress_safe m1 dest out r k = Some (m2, int (length src)) \<and> bytes_at m2 out src \<and>
    same_outside m1 m2 out (out + k)"
proof -
  have bound: "LZ4_compressBound (int (length src)) = int (length src) + int (length src) div 255 + 16"
    using assms(1) by (intro compressBound_eq) (auto simp: one_shot_buffers_def)
  then have n: "0 \<le> n" "n + fast_slack (length src) n = n" using assms(2) by (simp_all add: fast_slack_def)
  then obtain m1 ctx r where c: "LZ4_compress_fast_extState m source dest (int (length src)) n accel = Some (m1, ctx, r)"
    "compressed_to m m1 dest (dest + n) [] src r"
    using compress_fast_spec [of m source src dest n accel] assms(1-4) by auto
  have r: "0 < r" "r \<le> LZ4_compressBound (int (length src))" "same_outside m m1 dest (dest + n)"
    using compressed_to_bound [OF c(2)] c(2) bound by (auto simp: compressed_to_def emits_def)
  have "decodes_to (LZ4_decompress_safe m1 dest out r k) m1 out k (int (length src)) src"
    using compressed_decodes [OF c(2)] assms by blast
  then show ?thesis
    using c(1) r by (auto simp: LZ4_compress_fast_def decodes_to_def)
qed

text \<open>Bytes at 1 to 64, an output buffer at 100, and one to decompress into at 300.\<close>

definition small_mem :: mem where
  "small_mem = (\<lambda>i. if 1 \<le> i \<and> i \<le> 64 then Some (word_of_int (i * i))
     else if 100 \<le> i \<and> i < 200 \<or> 300 \<le> i \<and> i < 400 then Some 0 else None)"

lemma small_mem_buffers:
  assumes "0 \<le> k" "k \<le> 100"
  shows "one_shot_buffers small_mem 1 (map (\<lambda>i. word_of_int (i * i)) [1..64]) 100 k"
    "mapped small_mem 300 (300 + k)"
  using assms by (auto simp: one_shot_buffers_def small_mem_def mapped_def bytes_at_iff)

theorem LZ4_compress_roundtrip_witness:
  "\<exists>m1 r m2. LZ4_compress_fast small_mem 1 100 64 90 8 = Some (m1, r) \<and>
     LZ4_decompress_safe m1 100 300 r 64 = Some (m2, 64) \<and>
     bytes_at m2 300 (map (\<lambda>i. word_of_int (i * i)) [1..64])"
  using LZ4_compress_roundtrip [OF small_mem_buffers(1) [of 90], of 8 300 64] small_mem_buffers(2) [of 64]
  by (auto simp: compressBound_eq)

text \<open>
  C15: \<open>LZ4_compress_default\<close> into an output buffer of any size \<open>n\<close>, on any input of at most
  \<open>LZ4_MAX_INPUT_SIZE\<close> bytes: it ends and either returns 0, which only happens when \<open>n\<close> is smaller
  than \<open>LZ4_compressBound\<close>, or the length of a block that fits into the \<open>n\<close> bytes and stands for
  the input. It changes nothing outside the \<open>n\<close> bytes for an input of at most 128 KB, for one of
  at most 16 MB into a buffer that is at most a byte smaller, and when \<open>n\<close> is at least
  \<open>LZ4_compressBound\<close>. Otherwise, the limit test being too weak by one byte in 65280, it may
  also write up to \<open>fast_slack\<close> bytes behind them, which have to be accessible.
\<close>

theorem LZ4_compress_default_limited:
  assumes "one_shot_buffers m source src dest (n + fast_slack (length src) n)" "0 \<le> n" "n < 2 ^ 31"
  shows "\<exists>m' r. LZ4_compress_default m source dest (int (length src)) n = Some (m', r) \<and>
    same_outside m m' dest (dest + n + fast_slack (length src) n) \<and>
    (length src \<le> 131072 \<or> int (length src) - 1 \<le> n \<and> length src \<le> 2 ^ 24 \<or> LZ4_compressBound (int (length src)) \<le> n \<longrightarrow>
      fast_slack (length src) n = 0) \<and>
    (r = 0 \<and> n < LZ4_compressBound (int (length src)) \<or>
     0 < r \<and> r \<le> n \<and> (\<exists>ss ls. r = int (length (ser_block ss 0 ls)) \<and> bytes_at m' dest (ser_block ss 0 ls) \<and>
       lz4_block [] ss ls \<and> decode [] ss ls = src))"
proof -
  from compress_fast_spec [OF assms, of 1]
  obtain m' ctx r where r: "LZ4_compress_fast_extState m source dest (int (length src)) n 1 = Some (m', ctx, r)"
    "n < LZ4_compressBound (int (length src)) \<and> r = 0 \<and> same_dom m m' \<and>
       same_outside m m' dest (dest + (n + fast_slack (length src) n)) \<or>
     compressed_to m m' dest (dest + (n + fast_slack (length src) n)) [] src r \<and> r \<le> n"
    by auto
  then have "LZ4_compress_default m source dest (int (length src)) n = Some (m', r)"
    by (simp add: LZ4_compress_default_def LZ4_compress_fast_def)
  moreover have "LZ4_compressBound (int (length src)) = int (length src) + int (length src) div 255 + 16"
    using assms(1) by (intro compressBound_eq) (auto simp: one_shot_buffers_def)
  ultimately show ?thesis
    using r(2) compressed_to_bound(1) [of m m' dest "dest + (n + fast_slack (length src) n)" "[]" src r]
    by (auto simp: compressed_to_def emits_def add.assoc fast_slack_def)
qed

theorem LZ4_compress_default_limited_witness:
  "\<exists>m' r. LZ4_compress_default small_mem 1 100 64 20 = Some (m', r) \<and> same_outside small_mem m' 100 120 \<and> r \<le> 20"
proof -
  have "one_shot_buffers small_mem 1 (map (\<lambda>i. word_of_int (i * i)) [1..64]) 100
      (20 + fast_slack (length (map (\<lambda>i. word_of_int (i * i) :: byte) [1..64])) 20)"
    using small_mem_buffers(1) [of 20] by (simp add: fast_slack_def)
  from LZ4_compress_default_limited [OF this] show ?thesis by (auto simp: fast_slack_def)
qed

end
