(* ===== verification/LZ4_Limits.thy ===== *)
theory LZ4_Limits
  imports LZ4_Compress_Fast
begin

text \<open>
  Two places where \<open>lz4.c\<close> does not do what it means to: the output limit test in front of a long
  match length, and an acceleration whose step wraps to 0. Both runs of the compressor consist of a
  single match that reaches up to the last literals.
\<close>

section \<open>A match up to the last literals\<close>

lemma source_same:
  assumes "cmp_input c m0 [] src" "cmp_apart c m0 [] lim" "same_outside m0 m (c_dest c) lim"
    and "c_source c \<le> a" "a < c_iend c"
  shows "m a = m0 a"
proof -
  define k where "k = nat (a - c_source c)"
  have k: "a = c_source c + int k" "k < length src"
    using assms(4,5) cmp_input_limits(1) [OF assms(1)] by (auto simp: k_def)
  show ?thesis
    unfolding k(1) using bytes_at_natD [OF cmp_input_source [OF cmp_input_same [OF assms(1-3)]] k(2)]
      bytes_at_natD [OF cmp_input_source [OF assms(1)] k(2)] by simp
qed

lemma count_to_end:
  assumes "mapped m p lim" "mapped m q (q + (lim - p))" "p \<le> lim" "lim - p < 2 ^ 32"
    and "\<And>i. 0 \<le> i \<Longrightarrow> i < lim - p \<Longrightarrow> m (p + i) = m (q + i)"
  shows "LZ4_count m p q lim = Some (lim - p)"
proof -
  obtain n where "LZ4_count m p q lim = Some n" "0 \<le> n" "n \<le> lim - p" "n < lim - p \<longrightarrow> m (p + n) \<noteq> m (q + n)"
    using LZ4_count_spec [OF assms(1-4)] by blast
  then show ?thesis using assms(5) [of n] by (cases "n < lim - p") auto
qed

definition last_match_bytes :: "nat \<Rightarrow> byte list \<Rightarrow> int \<Rightarrow> nat \<Rightarrow> byte list" where
  "last_match_bytes L xs off ml = mk_token L ml # (len_ext L @ xs @ le_bytes 2 (word_of_int off :: u16)) @ len_ext ml"

lemma next_match_to_end:
  assumes inp: "cmp_input c m0 [] src" and apart: "cmp_apart c m0 [] lim" and nd: "c_dict c = noDict"
    and pe: "pending c m0 m [] src lim (c_source c) ip (c_dest c) op []"
    and v: "c_source c \<le> v" "v \<le> ip" and ml: "ip + 4 + int ml = matchlimit c"
    and eq: "\<And>i. 0 \<le> i \<Longrightarrow> i < int ml \<Longrightarrow> m0 (ip + 4 + i) = m0 (v + 4 + i)"
    and chk: "outputLimited c = limitedOutput \<Longrightarrow> op + 2 + 6 + drop_bit 8 (int ml) \<le> olimit c"
    and room: "op + 2 + int (length (len_ext ml)) \<le> lim"
  shows "\<exists>m2. LZ4_next_match c m T ip v (c_dest c) op cur =
      Some (End_chunk m2 T (matchlimit c) (op + 2 + int (length (len_ext ml)))) \<and>
    emits m0 m2 (c_dest c) (last_match_bytes (nat (ip - c_source c)) (take (nat (ip - c_source c)) src) (ip - v) ml) lim"
proof -
  note lims = cmp_input_limits [OF inp] and src = cmp_input_src [OF inp] cmp_apart_src [OF apart]
  define L where "L = nat (ip - c_source c)"
  define w where "w = (word_of_int (ip - v) :: u16)"
  obtain mt where em: "emitted c m0 mt [] src lim (c_source c) (c_dest c) []"
    and tk: "emits mt m (c_dest c) (mk_token L 0 # len_ext L @ take L src) lim"
    and op: "op = c_dest c + int (length (mk_token L 0 # len_ext L @ take L src))" "op + 2 \<le> lim"
    using pe by (auto simp: pending_def Let_def L_def)
  obtain m1 where m1: "LZ4_writeLE16 m op w = Some m1" "emits m m1 op (le_bytes 2 w) lim"
    "same_outside m0 m1 (c_dest c) lim"
    using write_offset_spec [OF src pe, of w] by blast
  have bytes: "m1 a = m0 a" if "c_source c \<le> a" "a < c_iend c" for a
    using source_same [OF inp apart m1(3) that] .
  have map1: "mapped m1 (c_source c) (c_iend c)"
    using cmp_input_mapped [OF cmp_input_same [OF inp apart m1(3)]] .
  have "LZ4_count m1 (ip + 4) (v + 4) (matchlimit c) = Some (matchlimit c - (ip + 4))"
  proof (rule count_to_end)
    show "mapped m1 (ip + 4) (matchlimit c)" "mapped m1 (v + 4) (v + 4 + (matchlimit c - (ip + 4)))"
      using v ml lims by (auto intro!: mapped_subset [OF map1])
    show "ip + 4 \<le> matchlimit c" "matchlimit c - (ip + 4) < 2 ^ 32" using v ml lims by auto
    show "m1 (ip + 4 + i) = m1 (v + 4 + i)" if "0 \<le> i" "i < matchlimit c - (ip + 4)" for i
      using eq [of i] that ml v lims bytes [of "ip + 4 + i"] bytes [of "v + 4 + i"] by simp
  qed
  then have len: "LZ4_match_length c m1 ip v cur = Some (int ml, matchlimit c)"
    using ml nd by (auto simp: LZ4_match_length_def)
  have dest: "c_dest c < lim" using op by simp
  have mapt: "mapped mt (c_dest c) lim"
    using src_apart_mapped [OF emitted_src(2) [OF src em]] by simp
  have tk1: "emits mt m1 (c_dest c) (mk_token L 0 # len_ext L @ take L src @ le_bytes 2 w) lim"
    using emits_append [OF tk, of m1] m1(2) op(1) by simp
  have op2: "op + 2 = c_dest c + 1 + int (length (len_ext L @ take L src @ le_bytes 2 w))" using op(1) by simp
  obtain m2 where m2: "LZ4_encode_matchLength m1 (c_dest c) (op + 2) (int ml) = Some (m2, op + 2 + int (length (len_ext ml)))"
    "emits mt m2 (c_dest c) (mk_token L ml # (len_ext L @ take L src @ le_bytes 2 w) @ len_ext ml) lim"
    using encode_matchLength_emits [OF tk1 op2 mapt _ dest, of ml] room by auto
  have "LZ4_next_match c m T ip v (c_dest c) op cur = Some (End_chunk m2 T (matchlimit c) (op + 2 + int (length (len_ext ml))))"
    using m1(1) len m2(1) chk lims by (subst LZ4_next_match.simps) (auto simp: w_def)
  moreover have "emits m0 mt (c_dest c) [] lim" using em by (simp add: emitted_def)
  then have "emits m0 m2 (c_dest c) (mk_token L ml # (len_ext L @ take L src @ le_bytes 2 w) @ len_ext ml) lim"
    using emits_append [of m0 mt "c_dest c" "[]" lim m2] m2(2) by simp
  ultimately show ?thesis by (simp add: last_match_bytes_def L_def w_def)
qed

section \<open>Where the limit test is too weak\<close>

lemma len_ext_nth: "15 \<le> n \<Longrightarrow> i < (n - 15) div 255 \<Longrightarrow> len_ext n ! i = 255"
  by (simp add: len_ext_def ext_len_def nth_append)

text \<open>
  The window in which the test passes and the length bytes do not fit; it is not empty for inputs
  above 400 KB.
\<close>

definition overrun_window :: "nat \<Rightarrow> int \<Rightarrow> bool" where
  "overrun_window N n \<longleftrightarrow> 10 + (int N - 10) div 256 \<le> n \<and> n < 4 + (int N - 25) div 255"

lemma overrun_window_large:
  assumes "overrun_window N n"
  shows "65547 \<le> N" "0 \<le> n" "10 \<le> n"
proof -
  define a b where "a = (int N - 10) div 256" and "b = (int N - 25) div 255"
  have "int N - 10 < 256 * a + 256" "255 * b \<le> int N - 25" "10 + a \<le> n" "n < 4 + b"
    using assms by (simp_all add: a_def b_def overrun_window_def)
  then have "65547 \<le> int N" by linarith
  then show "65547 \<le> N" by simp
  then have "0 \<le> a" by (simp add: a_def)
  then show "0 \<le> n" "10 \<le> n" using \<open>10 + a \<le> n\<close> by simp_all
qed

lemma constant_main_loop:
  fixes x :: byte and source dest :: addr and N :: nat and n :: int
  defines "c \<equiv> cmp_env_of LZ4_resetStream source dest (int N) n limitedOutput byU32 noDict noDictIssue 1"
  assumes bufs: "one_shot_buffers m source (replicate N x) dest cap" and n: "overrun_window N n" "n < 2 ^ 31" "n \<le> cap"
    and cap: "5 + (int N - 25) div 255 \<le> cap"
  shows "\<exists>m' T. LZ4_main_loop c m (\<lambda>_. 0) (source + 1) source dest h (0, source) = Some (m', T, 0) \<and> m' (dest + n) = Some 255"
proof -
  note N = overrun_window_large [OF n(1)]
  have c: "c_source c = source" "c_dest c = dest" "c_iend c = source + int N" "mflimit c = source + int N - 12"
    "matchlimit c = source + int N - 5" "c_dict c = noDict" "tableType c = byU32" "base c = source"
    "outputLimited c = limitedOutput" "olimit c = dest + n" "acceleration c = 1" "dictIssue c = noDictIssue"
    "c_maxOutputSize c = n"
    by (simp_all add: c_def cmp_env_of_def)
  have inp: "cmp_input c m [] (replicate N x)" "cmp_apart c m [] (dest + cap)"
    using one_shot_input(1,2) [OF bufs, of byU32 n limitedOutput 1] by (simp_all add: c_def)
  have room: "room_ok c (replicate N x) (dest + cap)" using n N by (simp add: room_ok_def c)
  have at: "m (source + i) = Some x" if "0 \<le> i" "i < int N" for i
    using bytes_at_natD [OF cmp_input_source [OF inp(1)], of "nat i"] that by (simp add: c)
  obtain fh where fh: "LZ4_hashPosition m (source + 2) byU32 = Some fh"
    using hashPosition_defined [OF inp(1), of "source + 2" byU32] N(1) by (auto simp: c)
  have "mapped m source (source + int N)" using cmp_input_mapped [OF inp(1)] by (simp add: c)
  then have "mapped m source (source + 4)" "mapped m (source + 1) (source + 1 + 4)"
    using N(1) by (auto elim!: mapped_subset)
  then obtain a b where ab: "LZ4_read32 m source = Some a" "LZ4_read32 m (source + 1) = Some b"
    using LZ4_read32_mapped by blast
  have "agree m (source + 1) source 4"
    using at N(1) by (auto simp: agree_def add.assoc)
  then have "a = b" using LZ4_read32_agree [OF ab] by simp
  then have find: "LZ4_find_match c m (\<lambda>_. 0) (source + 1) h 1 64 (0, source) =
      Some (Inr (LZ4_putPositionOnHash (source + 1) h (\<lambda>_. 0) byU32 source, source + 1, source, 0, source))"
    using fh [unfolded add.commute [of source]] ab N(1) by (subst LZ4_find_match.simps)
      (simp add: c LZ4_select_dict_def LZ4_getPositionOnHash_def Let_def)
  have catch: "LZ4_catch_up m source (0, source) (source + 1) source = Some (source + 1, source)"
    by (subst LZ4_catch_up.simps) simp
  have em: "emitted c m m [] (replicate N x) (dest + cap) source dest []"
    using emitted_init [of c m "[]" "replicate N x" "dest + cap"] by (simp add: c)
  obtain m1 op1 where lit: "LZ4_encode_literals c m dest source (source + 1) = Some (Inr (m1, op1))"
    "pending c m m1 [] (replicate N x) (dest + cap) source (source + 1) dest op1 []"
    using encode_literals_spec [OF inp em room, of "source + 1"] N by (auto simp: c)
  have op1: "op1 = dest + 2"
    using lit(2) N(1) by (auto simp: pending_def Let_def len_ext_def c)
  define ml where "ml = N - 10"
  have ml: "int ml = int N - 10" "15 \<le> ml" "length (len_ext ml) = (ml - 15) div 255 + 1"
    "int ((ml - 15) div 255) = (int N - 25) div 255"
    using N(1) by (auto simp: ml_def length_len_ext of_nat_diff zdiv_int)
  let ?T = "LZ4_putPositionOnHash (source + 1) h (\<lambda>_. 0) byU32 source"
  let ?bs = "last_match_bytes 1 [x] 1 ml"
  have "\<exists>m2. LZ4_next_match c m1 ?T (source + 1) source (c_dest c) op1 (0, source) =
      Some (End_chunk m2 ?T (matchlimit c) (op1 + 2 + int (length (len_ext ml)))) \<and>
    emits m m2 (c_dest c) (last_match_bytes (nat (source + 1 - c_source c))
      (take (nat (source + 1 - c_source c)) (replicate N x)) (source + 1 - source) ml) (dest + cap)"
  proof (rule next_match_to_end [OF inp c(6)])
    show "pending c m m1 [] (replicate N x) (dest + cap) (c_source c) (source + 1) (c_dest c) op1 []" using lit(2) by (simp add: c)
    show "c_source c \<le> source" "source \<le> source + 1" by (simp_all add: c)
    show "source + 1 + 4 + int ml = matchlimit c" by (simp add: c ml)
    show "m (source + 1 + 4 + i) = m (source + 4 + i)" if "0 \<le> i" "i < int ml" for i
      using at [of "5 + i"] at [of "4 + i"] that ml(1) by (simp add: add.assoc)
    show "op1 + 2 + 6 + drop_bit 8 (int ml) \<le> olimit c"
      using n(1) by (simp add: op1 c ml(1) drop_bit_eq_div overrun_window_def)
    show "op1 + 2 + int (length (len_ext ml)) \<le> dest + cap" using cap by (simp add: op1 ml)
  qed
  moreover have one: "take (Suc 0) (replicate N x) = [x]" using N(1) by (cases N) auto
  ultimately obtain m2 where m2: "LZ4_next_match c m1 ?T (source + 1) source dest op1 (0, source) =
      Some (End_chunk m2 ?T (source + int N - 5) (dest + 5 + (int N - 25) div 255))" "emits m m2 dest ?bs (dest + cap)"
    using one by (auto simp: c op1 ml)
  have last: "LZ4_encode_last c m2 (source + int N - 5) (dest + 5 + (int N - 25) div 255) = Some (m2, 0)"
    using n N(2) by (auto simp: LZ4_encode_last_def c overrun_window_def)
  have len: "length ?bs = 5 + (ml - 15) div 255" "?bs ! (4 + i) = len_ext ml ! i" for i
    by (simp_all add: last_match_bytes_def len_ext_def ml nth_append)
  define j where "j = nat (n - 4)"
  have j: "n = int (4 + j)" "j < (ml - 15) div 255"
    using n(1) N(3) ml(4) by (auto simp: j_def overrun_window_def nat_less_iff)
  have "m2 (dest + int (4 + j)) = Some (?bs ! (4 + j))"
    using m2(2) j(2) len(1) by (intro bytes_at_natD) (auto simp: emits_def)
  then have "m2 (dest + n) = Some 255" using len_ext_nth [OF ml(2) j(2)] by (simp only: j(1) len(2))
  then show ?thesis
    using find catch lit(1) m2(1) last by (subst LZ4_main_loop.simps) (simp add: c)
qed

text \<open>
  C25: the reserve that the output limit test keeps before a match length is too small for long
  matches. On an input of \<open>N\<close> equal bytes and an output buffer of \<open>n\<close> bytes, with \<open>n\<close> in a window
  below the size of the length bytes, \<open>LZ4_compress_default\<close> writes past the end of the buffer: if
  the memory behind it is accessible, the call returns 0 (no room) but has overwritten the byte
  behind the buffer by 255, whatever it was.
\<close>

theorem LZ4_compress_default_overrun:
  assumes "one_shot_buffers m source (replicate N x) dest cap" "n < 2 ^ 31" "n \<le> cap"
    and "10 + (int N - 10) div 256 \<le> n" "n < 4 + (int N - 25) div 255" "5 + (int N - 25) div 255 \<le> cap"
  shows "\<exists>m'. LZ4_compress_default m source dest (int N) n = Some (m', 0) \<and> m' (dest + n) = Some 255"
proof -
  have w: "overrun_window N n" using assms(4,5) by (simp add: overrun_window_def)
  note N = overrun_window_large [OF w]
  let ?c = "cmp_env_of LZ4_resetStream source dest (int N) n limitedOutput byU32 noDict noDictIssue 1"
  have inp: "cmp_input ?c m [] (replicate N x)"
    using one_shot_input(1) [OF assms(1), of byU32 n limitedOutput 1] by simp
  have max: "int N \<le> 2113929216" using assms(1) by (simp add: one_shot_buffers_def)
  obtain h0 h1 where h: "LZ4_hashPosition m source byU32 = Some h0" "LZ4_hashPosition m (source + 1) byU32 = Some h1"
    using hashPosition_defined [OF inp, of source byU32] hashPosition_defined [OF inp, of "source + 1" byU32] N(1)
    by (auto simp: cmp_env_of_def)
  have "LZ4_putPosition m source (\<lambda>_. 0) byU32 source = Some (\<lambda>_. 0)"
    using h(1) by (simp add: LZ4_putPosition_def LZ4_putPositionOnHash_def fun_eq_iff)
  moreover obtain m' T where m': "LZ4_main_loop ?c m (\<lambda>_. 0) (source + 1) source dest h1 (0, source) = Some (m', T, 0)"
    "m' (dest + n) = Some 255"
    using constant_main_loop [OF assms(1) w assms(2,3,6), of h1] by auto
  ultimately have "\<exists>ctx. LZ4_compress_generic m LZ4_resetStream source dest (int N) n limitedOutput byU32 noDict noDictIssue 1 =
      Some (m', ctx, 0)"
    using h(2) N(1) max by (simp add: LZ4_compress_generic_def Let_def LZ4_resetStream_def cmp_env_of_def)
  moreover have "n < int N + int N div 255 + 16" using assms(5) by linarith
  ultimately have "LZ4_compress_default m source dest (int N) n = Some (m', 0)"
    using N(1) max by (auto simp: LZ4_compress_default_def LZ4_compress_fast_def LZ4_compress_fast_extState_def LZ4_64bits_def
        compressBound_eq)
  then show ?thesis using m'(2) by simp
qed

definition zeros_mem :: mem where
  "zeros_mem = (\<lambda>i. if 0 \<le> i \<and> i < 500000 \<or> 600000 \<le> i \<and> i < 602000 then Some 0 else None)"

theorem LZ4_compress_default_overrun_witness:
  "zeros_mem 601963 = Some 0 \<and>
   (\<exists>m'. LZ4_compress_default zeros_mem 0 600000 500000 1963 = Some (m', 0) \<and> m' 601963 = Some 255)"
proof -
  have "one_shot_buffers zeros_mem 0 (replicate 500000 0) 600000 2000"
    by (auto simp: one_shot_buffers_def zeros_mem_def mapped_def bytes_at_iff)
  from LZ4_compress_default_overrun [OF this, of 1963] show ?thesis by (simp add: zeros_mem_def)
qed

section \<open>Where the acceleration is too large\<close>

lemma read32_at:
  assumes "bytes_at m source src" "k + 4 \<le> length src"
  shows "LZ4_read32 m (source + int k) = Some (word_of_le (take 4 (drop k src)))"
proof -
  have "bytes_at m (source + int k) (take 4 (drop k src))"
    using bytes_at_slice [OF assms(1), of k 4] assms(2) by simp
  then show ?thesis using load_bytes_bytes_at [of m "source + int k" 4 "take 4 (drop k src)"] assms(2) by (simp add: LZ4_read32_def)
qed

lemma find_match_self:
  fixes source dest :: addr and src :: "byte list" and tt :: tableType_t and accel :: int
  defines "c \<equiv> cmp_env_of LZ4_resetStream source dest (int (length src)) 0 notLimited tt noDict noDictIssue accel"
  assumes bufs: "one_shot_buffers m source src dest n"
    and tt: "tt = byU16 \<and> length src < 65547 \<or> tt = byU32" and len: "14 \<le> length src"
    and words: "distinct [take 4 src, take 4 (drop 1 src), take 4 (drop 2 src)]"
    and h1: "LZ4_hashPosition m (source + 1) tt = Some h1"
  shows "\<exists>T. LZ4_find_match c m (\<lambda>_. 0) (source + 1) h1 1 0 (0, source) = Some (Inr (T, source + 2, source + 2, 0, source))"
proof -
  have c: "c_source c = source" "mflimit c = source + int (length src) - 12" "c_dict c = noDict" "tableType c = tt"
    "base c = source" "dictIssue c = noDictIssue" "c_iend c = source + int (length src)"
    by (simp_all add: c_def cmp_env_of_def)
  have inp: "cmp_input c m [] src" using one_shot_input(1) [OF bufs tt, of 0 notLimited accel] by (simp add: c_def)
  have src: "bytes_at m source src" using bufs by (simp add: one_shot_buffers_def)
  define w where "w k = (word_of_le (take 4 (drop k src)) :: u32)" for k
  have w: "LZ4_read32 m source = Some (w 0)" "LZ4_read32 m (source + 1) = Some (w 1)" "LZ4_read32 m (source + 2) = Some (w 2)"
    using read32_at [OF src, of 0] read32_at [OF src, of 1] read32_at [OF src, of 2] len by (simp_all add: w_def)
  have inj: "w j \<noteq> w k" if "take 4 (drop j src) \<noteq> take 4 (drop k src)" "j \<le> 2" "k \<le> 2" for j k
    using that len word_of_le_inj [where 'a = 32, of "take 4 (drop j src)" "take 4 (drop k src)"] by (auto simp: w_def)
  have ne: "w 0 \<noteq> w 1" "w 0 \<noteq> w 2" "w 1 \<noteq> w 2"
    using inj [of 0 1] inj [of 0 2] inj [of 1 2] words by auto
  obtain h2 where h2: "LZ4_hashPosition m (source + 2) tt = Some h2"
    using hashPosition_defined [OF inp, of "source + 2" tt] len by (auto simp: c)
  define T1 where "T1 = LZ4_putPositionOnHash (source + 1) h1 (\<lambda>_. 0) tt source"
  define T2 where "T2 = LZ4_putPositionOnHash (source + 2) h2 T1 tt source"
  define T3 where "T3 = LZ4_putPositionOnHash (source + 2) h2 T2 tt source"
  have T1: "T1 h2 = 0 \<or> T1 h2 = 1" and T2: "T2 h2 = 2"
    using tt by (auto simp: T1_def T2_def LZ4_putPositionOnHash_def)
  have sel: "LZ4_select_dict c v cur = cur" for v cur by (simp add: LZ4_select_dict_def c)
  have get: "LZ4_getPositionOnHash h T tt source = T h + source" for h T using tt by (auto simp: LZ4_getPositionOnHash_def)
  have "LZ4_find_match c m T2 (source + 2) h2 0 2 (0, source) = Some (Inr (T3, source + 2, source + 2, 0, source))"
    using h2 w T2 len by (subst LZ4_find_match.simps) (simp add: c sel get T3_def Let_def add.commute)
  moreover have "LZ4_find_match c m T1 (source + 2) h2 0 1 (0, source) = LZ4_find_match c m T2 (source + 2) h2 0 2 (0, source)"
    using h2 w ne T1 len by (subst LZ4_find_match.simps) (auto simp: c sel get T2_def Let_def add.commute)
  moreover have "LZ4_find_match c m (\<lambda>_. 0) (source + 1) h1 1 0 (0, source) = LZ4_find_match c m T1 (source + 2) h2 0 1 (0, source)"
    using h1 h2 w ne len by (subst LZ4_find_match.simps) (simp add: c sel get T1_def Let_def add.commute)
  ultimately show ?thesis by auto
qed

lemma catch_up_self:
  assumes "mapped m source (source + 2)"
  shows "LZ4_catch_up m source (0, source) (source + 2) (source + 2) = Some (source, source)"
proof -
  have "m source \<noteq> None" "m (source + 1) \<noteq> None" using assms by (simp_all add: mapped_def)
  then obtain x y where "m source = Some x" "m (source + 1) = Some y" by auto
  note at = this
  have "LZ4_catch_up m source (0, source) source source = Some (source, source)"
    by (subst LZ4_catch_up.simps) simp
  moreover have "LZ4_catch_up m source (0, source) (source + 1) (source + 1) = LZ4_catch_up m source (0, source) source source"
    using at by (subst LZ4_catch_up.simps) simp
  moreover have "LZ4_catch_up m source (0, source) (source + 2) (source + 2) = LZ4_catch_up m source (0, source) (source + 1) (source + 1)"
    using at by (subst LZ4_catch_up.simps) (simp add: add.commute)
  ultimately show ?thesis by simp
qed

text \<open>The block that comes out: one match with offset 0, and the last five bytes.\<close>

definition lost_block :: "byte list \<Rightarrow> byte list" where
  "lost_block src = ser_block [\<lparr>lits = [], moff = 0, mlen = length src - 5\<rparr>] 0 (drop (length src - 5) src)"

lemma encode_last_emits:
  assumes inp: "cmp_input c m0 [] src" and apart: "cmp_apart c m0 [] lim" and no: "outputLimited c = notLimited"
    and em: "emits m0 m (c_dest c) bs lim" and len: "5 \<le> length src" and op: "op = c_dest c + int (length bs)"
    and room: "op + 6 \<le> lim" "length bs < 2 ^ 30"
  shows "\<exists>m'. LZ4_encode_last c m (matchlimit c) op = Some (m', int (length bs) + 6) \<and>
    emits m0 m' (c_dest c) (bs @ ser_last 0 (drop (length src - 5) src)) lim"
proof -
  note lims = cmp_input_limits [OF inp]
  have same: "same_outside m0 m (c_dest c) lim" "same_dom m0 m" using em by (auto simp: emits_def)
  have map: "mapped m op lim"
    using cmp_apart_mapped [OF cmp_apart_dom [OF apart same(2)]] op by simp
  have ext: "len_ext 5 = []" by (simp add: len_ext_def)
  obtain m1 where m1: "LZ4_put_token m op 5 = Some (m1, op + 1)" "emits m m1 op [mk_token 5 0] lim"
    using put_token_emits [OF map, of 5] room(1) ext by auto
  have "same_outside m0 m1 (c_dest c) lim"
    using emits_outside [OF m1(2), of "c_dest c"] same(1) op by (auto simp: same_outside_def)
  note inp1 = cmp_input_same [OF inp apart this]
  define ls where "ls = drop (length src - 5) src"
  have ls: "length ls = 5" "bytes_at m1 (matchlimit c) ls"
    using len bytes_at_slice [OF cmp_input_source [OF inp1], of "length src - 5" 5] lims
    by (simp_all add: ls_def of_nat_diff add_diff_eq)
  have "mapped m1 (op + 1) lim" using emits_mapped [OF m1(2) map] by (rule mapped_subset) simp_all
  from copied_emits [OF ls(2) this] room(1) ls(1)
  obtain m2 where m2: "memcpy m1 (op + 1) (matchlimit c) 5 = Some m2" "emits m1 m2 (op + 1) ls lim" by auto
  have "emits m m2 op (mk_token 5 0 # ls) lim" using emits_append [OF m1(2), of m2 ls] m2(2) by simp
  then have "emits m0 m2 (c_dest c) (bs @ mk_token 5 0 # ls) lim"
    using emits_append [OF em, of m2] op by simp
  moreover have "LZ4_encode_last c m (matchlimit c) op = Some (m2, int (length bs) + 6)"
    using m1(1) m2(1) no lims op room(2) by (simp add: LZ4_encode_last_def)
  ultimately show ?thesis using ls(1) ext by (simp add: ser_last_def ls_def)
qed

lemma self_match_main_loop:
  fixes source dest :: addr and src :: "byte list" and tt :: tableType_t and accel :: int
  defines "c \<equiv> cmp_env_of LZ4_resetStream source dest (int (length src)) 0 notLimited tt noDict noDictIssue accel"
  assumes bufs: "one_shot_buffers m source src dest n" and n: "int (length src) + int (length src) div 255 + 16 \<le> n"
    and tt: "tt = byU16 \<and> length src < 65547 \<or> tt = byU32" and len: "14 \<le> length src"
    and words: "distinct [take 4 src, take 4 (drop 1 src), take 4 (drop 2 src)]"
    and h1: "LZ4_hashPosition m (source + 1) tt = Some h1" and acc: "accel mod 2 ^ 26 = 0"
  shows "\<exists>m' T. LZ4_main_loop c m (\<lambda>_. 0) (source + 1) source dest h1 (0, source) = Some (m', T, int (length (lost_block src))) \<and>
    bytes_at m' dest (lost_block src)"
proof -
  have c: "c_source c = source" "c_dest c = dest" "c_iend c = source + int (length src)" "mflimit c = source + int (length src) - 12"
    "matchlimit c = source + int (length src) - 5" "c_dict c = noDict" "outputLimited c = notLimited" "acceleration c = accel"
    by (simp_all add: c_def cmp_env_of_def)
  have inp: "cmp_input c m [] src" "cmp_apart c m [] (dest + n)"
    using one_shot_input(1,2) [OF bufs tt, of 0 notLimited accel] by (simp_all add: c_def)
  have room: "room_ok c src (dest + n)" using n by (simp add: room_ok_def c)
  obtain k where "accel = 2 ^ 26 * k" using acc by auto
  then have nb: "push_bit 6 accel mod 4294967296 = 0" by (simp add: push_bit_eq_mult)
  obtain T where find: "LZ4_find_match c m (\<lambda>_. 0) (source + 1) h1 1 0 (0, source) = Some (Inr (T, source + 2, source + 2, 0, source))"
    using find_match_self [OF bufs tt len words h1, of accel] by (auto simp: c_def)
  have "mapped m source (source + int (length src))" using cmp_input_mapped [OF inp(1)] by (simp add: c)
  then have catch: "LZ4_catch_up m source (0, source) (source + 2) (source + 2) = Some (source, source)"
    using len by (intro catch_up_self) (auto elim!: mapped_subset)
  have em: "emitted c m m [] src (dest + n) source dest []"
    using emitted_init [of c m "[]" src "dest + n"] by (simp add: c)
  obtain m1 op1 where lit: "LZ4_encode_literals c m dest source source = Some (Inr (m1, op1))"
    "pending c m m1 [] src (dest + n) source source dest op1 []"
    using encode_literals_spec [OF inp em room, of source] len by (auto simp: c)
  have op1: "op1 = dest + 1" using lit(2) by (auto simp: pending_def Let_def len_ext_def)
  define ml where "ml = length src - 9"
  have ml: "int ml = int (length src) - 9" using len by (simp add: ml_def)
  have ext: "255 * int (length (len_ext ml)) \<le> int ml + 240" by (rule len_ext_bound(2))
  have max: "int (length src) \<le> 2113929216" using bufs by (simp add: one_shot_buffers_def)
  have "\<exists>m2. LZ4_next_match c m1 T source source (c_dest c) op1 (0, source) =
      Some (End_chunk m2 T (matchlimit c) (op1 + 2 + int (length (len_ext ml)))) \<and>
    emits m m2 (c_dest c) (last_match_bytes (nat (source - c_source c)) (take (nat (source - c_source c)) src) (source - source) ml) (dest + n)"
    using lit(2) len n ext by (intro next_match_to_end [OF inp c(6)]) (simp_all add: c ml op1)
  then obtain m2 where m2: "LZ4_next_match c m1 T source source dest op1 (0, source) =
      Some (End_chunk m2 T (matchlimit c) (dest + 3 + int (length (len_ext ml))))"
    "emits m m2 (c_dest c) (last_match_bytes 0 [] 0 ml) (dest + n)"
    by (auto simp: c op1)
  have blen: "length (last_match_bytes 0 [] 0 ml) = 3 + length (len_ext ml)"
    by (simp add: last_match_bytes_def len_ext_def)
  have lost: "last_match_bytes 0 [] 0 ml @ ser_last 0 (drop (length src - 5) src) = lost_block src"
    by (simp add: lost_block_def ser_block_def ser_seq_def last_match_bytes_def ml_def)
  then have lost_len: "length (lost_block src) = length (last_match_bytes 0 [] 0 ml) + 6"
    using len by (simp add: lost [symmetric] ser_last_def len_ext_def)
  have "\<exists>m'. LZ4_encode_last c m2 (matchlimit c) (dest + 3 + int (length (len_ext ml))) =
      Some (m', int (length (last_match_bytes 0 [] 0 ml)) + 6) \<and>
    emits m m' (c_dest c) (last_match_bytes 0 [] 0 ml @ ser_last 0 (drop (length src - 5) src)) (dest + n)"
    using len n ext max ml blen by (intro encode_last_emits [OF inp c(7) m2(2)]) (auto simp: c)
  then obtain m3 where "LZ4_encode_last c m2 (matchlimit c) (dest + 3 + int (length (len_ext ml))) = Some (m3, int (length (lost_block src)))"
    "bytes_at m3 dest (lost_block src)"
    unfolding lost lost_len by (auto simp: emits_def c)
  then show ?thesis
    using find catch lit(1) m2(1) by (subst LZ4_main_loop.simps) (simp add: c nb)
qed

text \<open>
  C26: \<open>LZ4_compress_fast\<close> accepts every acceleration, but \<open>acceleration << 6\<close> is computed in 32
  bits. With a multiple of \<open>2 ^ 26\<close> the step of the search is 0 and the compressor matches a position
  with itself. On every input of at least 14 bytes whose first three words of four bytes differ it
  reports success, with a block that holds one match of offset 0 and the last five bytes: of the rest of
  the input nothing but its length is left.
\<close>

theorem LZ4_compress_fast_acceleration_wraps:
  assumes "one_shot_buffers m source src dest n" "LZ4_compressBound (int (length src)) \<le> n"
    and "14 \<le> length src" "distinct [take 4 src, take 4 (drop 1 src), take 4 (drop 2 src)]"
    and "0 < accel" "accel mod 2 ^ 26 = 0"
  defines "blk \<equiv> ser_block [\<lparr>lits = [], moff = 0, mlen = length src - 5\<rparr>] 0 (drop (length src - 5) src)"
  shows "\<exists>m'. LZ4_compress_fast m source dest (int (length src)) n accel = Some (m', int (length blk)) \<and> bytes_at m' dest blk"
proof -
  define tt where "tt = (if length src < 65547 then byU16 else byU32)"
  have tt: "tt = byU16 \<and> length src < 65547 \<or> tt = byU32" by (simp add: tt_def)
  let ?c = "cmp_env_of LZ4_resetStream source dest (int (length src)) 0 notLimited tt noDict noDictIssue accel"
  have inp: "cmp_input ?c m [] src" using one_shot_input(1) [OF assms(1) tt, of 0 notLimited accel] .
  have max: "int (length src) \<le> 2113929216" using assms(1) by (simp add: one_shot_buffers_def)
  have n: "int (length src) + int (length src) div 255 + 16 \<le> n"
    using assms(2) max compressBound_eq [of "int (length src)"] by simp
  obtain h0 h1 where h: "LZ4_hashPosition m source tt = Some h0" "LZ4_hashPosition m (source + 1) tt = Some h1"
    using hashPosition_defined [OF inp, of source tt] hashPosition_defined [OF inp, of "source + 1" tt] assms(3)
    by (auto simp: cmp_env_of_def)
  have put: "LZ4_putPosition m source (\<lambda>_. 0) tt source = Some (\<lambda>_. 0)"
    using h(1) tt by (auto simp: LZ4_putPosition_def LZ4_putPositionOnHash_def fun_eq_iff)
  obtain m' T where m': "LZ4_main_loop ?c m (\<lambda>_. 0) (source + 1) source dest h1 (0, source) = Some (m', T, int (length blk))"
    "bytes_at m' dest blk"
    using self_match_main_loop [OF assms(1) n tt assms(3,4) h(2) assms(6)] by (auto simp: blk_def lost_block_def)
  have "\<exists>ctx. LZ4_compress_generic m LZ4_resetStream source dest (int (length src)) 0 notLimited tt noDict noDictIssue accel =
      Some (m', ctx, int (length blk))"
    using h(2) put m'(1) assms(3) max by (simp add: LZ4_compress_generic_def Let_def LZ4_resetStream_def cmp_env_of_def tt_def)
  then have "LZ4_compress_fast m source dest (int (length src)) n accel = Some (m', int (length blk))"
    using assms(2,5) by (auto simp: LZ4_compress_fast_def LZ4_compress_fast_extState_def LZ4_64bits_def tt_def)
  then show ?thesis using m'(2) by simp
qed

text \<open>Of the 64 bytes 1, 4, 9, ... only the last five are left: the block is 15 0 0 40 80 and these.\<close>

theorem LZ4_compress_fast_acceleration_wraps_witness:
  "\<exists>m'. LZ4_compress_fast small_mem 1 100 64 90 (3 * 2 ^ 26) = Some (m', 10) \<and>
     bytes_at m' 100 [15, 0, 0, 40, 80, 16, 137, 4, 129, 0]"
proof -
  let ?src = "map (\<lambda>i. word_of_int (i * i)) [1..64] :: byte list"
  have "distinct [take 4 ?src, take 4 (drop 1 ?src), take 4 (drop 2 ?src)]" by code_simp
  moreover have "drop 59 ?src = [16, 137, 4, 129, 0]" by code_simp
  moreover have "ser_block [\<lparr>lits = [], moff = 0, mlen = 59\<rparr>] 0 [16, 137, 4, 129, 0] = [15, 0, 0, 40, 80, 16, 137, 4, 129, 0]"
    by code_simp
  ultimately show ?thesis
    using LZ4_compress_fast_acceleration_wraps [OF small_mem_buffers(1) [of 90], of "3 * 2 ^ 26"] by (simp add: compressBound_eq)
qed

end
