(* ===== verification/LZ4_Stream.thy ===== *)
theory LZ4_Stream
  imports LZ4_Compress
begin

text \<open>
  The streaming interface of \<^verbatim>\<open>lz4/lib/lz4.c\<close>: compression of successive blocks against a
  dictionary or the previous data, the handling of dictionaries, the streaming decompressors,
  and the obsolete entry points.
\<close>

section \<open>Dictionaries\<close>

abbreviation (input) HASH_UNIT :: int where "HASH_UNIT \<equiv> 8"

partial_function (option) LZ4_loadDict_loop ::
  "mem \<Rightarrow> hashtable \<Rightarrow> addr \<Rightarrow> addr \<Rightarrow> addr \<Rightarrow> hashtable option" where
  "LZ4_loadDict_loop m table p dict_end srcBase =
     (if p \<le> dict_end - HASH_UNIT
      then do { table \<leftarrow> LZ4_putPosition m p table byU32 srcBase;
                LZ4_loadDict_loop m table (p + 3) dict_end srcBase }
      else Some table)"

definition LZ4_loadDict ::
  "mem \<Rightarrow> LZ4_stream_t_internal \<Rightarrow> addr \<Rightarrow> int \<Rightarrow> (LZ4_stream_t_internal \<times> int) option" where
  "LZ4_loadDict m st dict_start dict_size =
     (let p = dict_start;
          dict_end = p + dict_size;
          st = (if initCheck st \<noteq> 0 \<or> currentOffset st > 2 ^ 30 then LZ4_resetStream else st)
      in if dict_size < HASH_UNIT
         then Some (st\<lparr>dictionary := 0, dictSize := 0\<rparr>, 0)
         else
           let p = (if dict_end - p > KB64 then dict_end - KB64 else p);
               st = st\<lparr>currentOffset := cast_u32 (currentOffset st + KB64)\<rparr>;
               srcBase = p - currentOffset st;
               st = st\<lparr>dictionary := p, dictSize := cast_u32 (dict_end - p)\<rparr>;
               st = st\<lparr>currentOffset := cast_u32 (currentOffset st + dictSize st)\<rparr>
           in do { table \<leftarrow> LZ4_loadDict_loop m (hashTable st) p dict_end srcBase;
                   Some (st\<lparr>hashTable := table\<rparr>, cast_int (dictSize st)) })"

definition LZ4_renormDictT :: "LZ4_stream_t_internal \<Rightarrow> addr \<Rightarrow> LZ4_stream_t_internal" where
  "LZ4_renormDictT st src =
     (if currentOffset st > 0x80000000 \<or> currentOffset st > src
      then
        let delta = cast_u32 (currentOffset st - KB64);
            dict_end = dictionary st + dictSize st;
            table = (\<lambda>i. if i < HASH_SIZE byU32
                         then if hashTable st i < delta then 0 else hashTable st i - delta
                         else hashTable st i);
            size = (if dictSize st > KB64 then KB64 else dictSize st)
        in st\<lparr>hashTable := table, currentOffset := KB64, dictSize := size, dictionary := dict_end - size\<rparr>
      else st)"

definition LZ4_saveDict ::
  "mem \<Rightarrow> LZ4_stream_t_internal \<Rightarrow> addr \<Rightarrow> int \<Rightarrow> (mem \<times> LZ4_stream_t_internal \<times> int) option" where
  "LZ4_saveDict m st safeBuffer dict_size =
     (let previousDictEnd = dictionary st + dictSize st;
          dict_size = (if cast_u32 dict_size > KB64 then KB64 else dict_size);
          dict_size = (if cast_u32 dict_size > dictSize st then cast_int (dictSize st) else dict_size)
      in do { m \<leftarrow> memmove m safeBuffer (previousDictEnd - dict_size) dict_size;
              Some (m, st\<lparr>dictionary := safeBuffer, dictSize := cast_u32 dict_size\<rparr>, dict_size) })"

section \<open>Compression\<close>

text \<open>\<open>Check overlapping input/dictionary space\<close>.\<close>

definition LZ4_check_overlap :: "LZ4_stream_t_internal \<Rightarrow> addr \<Rightarrow> addr \<Rightarrow> LZ4_stream_t_internal" where
  "LZ4_check_overlap st dict_end sourceEnd =
     (if sourceEnd > dictionary st \<and> sourceEnd < dict_end
      then
        let size = cast_u32 (dict_end - sourceEnd);
            size = (if size > KB64 then KB64 else size);
            size = (if size < 4 then 0 else size)
        in st\<lparr>dictSize := size, dictionary := dict_end - size\<rparr>
      else st)"

definition LZ4_compress_fast_continue ::
  "mem \<Rightarrow> LZ4_stream_t_internal \<Rightarrow> addr \<Rightarrow> addr \<Rightarrow> int \<Rightarrow> int \<Rightarrow> int \<Rightarrow>
   (mem \<times> LZ4_stream_t_internal \<times> int) option" where
  "LZ4_compress_fast_continue m st source dest inputSize maxOutputSize accel =
     (let dict_end = dictionary st + dictSize st
      in if initCheck st \<noteq> 0 then Some (m, st, 0)
         else
           let smallest = (if dictSize st > 0 \<and> source > dict_end then dict_end else source);
               st = LZ4_renormDictT st smallest;
               accel = (if accel < 1 then 1 else accel);
               st = LZ4_check_overlap st dict_end (source + inputSize);
               issue = (if dictSize st < KB64 \<and> dictSize st < currentOffset st then dictSmall else noDictIssue)
           in if dict_end = source
              then do {
                (m, st, result) \<leftarrow> LZ4_compress_generic m st source dest inputSize maxOutputSize limitedOutput
                                     byU32 withPrefix64k issue accel;
                Some (m, st\<lparr>dictSize := cast_u32 (dictSize st + inputSize),
                            currentOffset := cast_u32 (currentOffset st + inputSize)\<rparr>, result) }
              else do {
                (m, st, result) \<leftarrow> LZ4_compress_generic m st source dest inputSize maxOutputSize limitedOutput
                                     byU32 usingExtDict issue accel;
                Some (m, st\<lparr>dictionary := source, dictSize := cast_u32 inputSize,
                            currentOffset := cast_u32 (currentOffset st + inputSize)\<rparr>, result) })"

definition LZ4_compress_forceExtDict ::
  "mem \<Rightarrow> LZ4_stream_t_internal \<Rightarrow> addr \<Rightarrow> addr \<Rightarrow> int \<Rightarrow> (mem \<times> LZ4_stream_t_internal \<times> int) option" where
  "LZ4_compress_forceExtDict m st source dest inputSize =
     (let dict_end = dictionary st + dictSize st;
          smallest = (if dict_end > source then source else dict_end);
          st = LZ4_renormDictT st smallest
      in do { (m, st, result) \<leftarrow> LZ4_compress_generic m st source dest inputSize 0 notLimited
                                   byU32 usingExtDict noDictIssue 1;
              Some (m, st\<lparr>dictionary := source, dictSize := cast_u32 inputSize,
                          currentOffset := cast_u32 (currentOffset st + inputSize)\<rparr>, result) })"

definition LZ4_compress_limitedOutput_withState ::
  "mem \<Rightarrow> addr \<Rightarrow> addr \<Rightarrow> int \<Rightarrow> int \<Rightarrow> (mem \<times> LZ4_stream_t_internal \<times> int) option" where
  "LZ4_compress_limitedOutput_withState m src dst srcSize dstSize =
     LZ4_compress_fast_extState m src dst srcSize dstSize 1"

definition LZ4_compress_withState ::
  "mem \<Rightarrow> addr \<Rightarrow> addr \<Rightarrow> int \<Rightarrow> (mem \<times> LZ4_stream_t_internal \<times> int) option" where
  "LZ4_compress_withState m src dst srcSize =
     LZ4_compress_fast_extState m src dst srcSize (LZ4_compressBound srcSize) 1"

definition LZ4_compress_limitedOutput_continue ::
  "mem \<Rightarrow> LZ4_stream_t_internal \<Rightarrow> addr \<Rightarrow> addr \<Rightarrow> int \<Rightarrow> int \<Rightarrow> (mem \<times> LZ4_stream_t_internal \<times> int) option" where
  "LZ4_compress_limitedOutput_continue m st src dst srcSize maxDstSize =
     LZ4_compress_fast_continue m st src dst srcSize maxDstSize 1"

definition LZ4_compress_continue ::
  "mem \<Rightarrow> LZ4_stream_t_internal \<Rightarrow> addr \<Rightarrow> addr \<Rightarrow> int \<Rightarrow> (mem \<times> LZ4_stream_t_internal \<times> int) option" where
  "LZ4_compress_continue m st source dest inputSize =
     LZ4_compress_fast_continue m st source dest inputSize (LZ4_compressBound inputSize) 1"

definition LZ4_init :: "addr \<Rightarrow> LZ4_stream_t_internal" where
  "LZ4_init buffer = LZ4_resetStream\<lparr>bufferStart := buffer\<rparr>"

text \<open>\<open>LZ4_resetStreamState\<close> is given the address of the state; the result 1 is an error.\<close>

definition LZ4_resetStreamState ::
  "addr \<Rightarrow> LZ4_stream_t_internal \<Rightarrow> addr \<Rightarrow> LZ4_stream_t_internal \<times> int" where
  "LZ4_resetStreamState state st inputBuffer =
     (if state AND 3 \<noteq> 0 then (st, 1) else (LZ4_init inputBuffer, 0))"

definition LZ4_slideInputBuffer ::
  "mem \<Rightarrow> LZ4_stream_t_internal \<Rightarrow> (mem \<times> LZ4_stream_t_internal \<times> addr) option" where
  "LZ4_slideInputBuffer m ctx =
     do { (m, ctx', size) \<leftarrow> LZ4_saveDict m ctx (bufferStart ctx) KB64;
          Some (m, ctx', bufferStart ctx' + size) }"

section \<open>Decompression\<close>

record LZ4_streamDecode_t_internal =
  externalDict :: addr
  extDictSize :: int
  prefixEnd :: addr
  prefixSize :: int

definition LZ4_setStreamDecode :: "addr \<Rightarrow> int \<Rightarrow> LZ4_streamDecode_t_internal \<times> int" where
  "LZ4_setStreamDecode dict_start dict_size =
     (\<lparr>externalDict = 0, extDictSize = 0, prefixEnd = dict_start + dict_size,
       prefixSize = cast_u64 dict_size\<rparr>, 1)"

definition LZ4_decompress_safe_continue ::
  "mem \<Rightarrow> LZ4_streamDecode_t_internal \<Rightarrow> addr \<Rightarrow> addr \<Rightarrow> int \<Rightarrow> int \<Rightarrow>
   (mem \<times> LZ4_streamDecode_t_internal \<times> int) option" where
  "LZ4_decompress_safe_continue m sd source dest compressedSize maxOutputSize =
     (if prefixEnd sd = dest
      then do {
        (m, result) \<leftarrow> LZ4_decompress_generic m source dest compressedSize maxOutputSize endOnInputSize full 0
                          usingExtDict (prefixEnd sd - prefixSize sd) (externalDict sd) (extDictSize sd);
        if result \<le> 0 then Some (m, sd, result)
        else Some (m, sd\<lparr>prefixSize := cast_u64 (prefixSize sd + result), prefixEnd := prefixEnd sd + result\<rparr>, result) }
      else
        let sd = sd\<lparr>extDictSize := prefixSize sd, externalDict := prefixEnd sd - prefixSize sd\<rparr>
        in do {
          (m, result) \<leftarrow> LZ4_decompress_generic m source dest compressedSize maxOutputSize endOnInputSize full 0
                            usingExtDict dest (externalDict sd) (extDictSize sd);
          if result \<le> 0 then Some (m, sd, result)
          else Some (m, sd\<lparr>prefixSize := cast_u64 result, prefixEnd := dest + result\<rparr>, result) })"

definition LZ4_decompress_fast_continue ::
  "mem \<Rightarrow> LZ4_streamDecode_t_internal \<Rightarrow> addr \<Rightarrow> addr \<Rightarrow> int \<Rightarrow>
   (mem \<times> LZ4_streamDecode_t_internal \<times> int) option" where
  "LZ4_decompress_fast_continue m sd source dest originalSize =
     (if prefixEnd sd = dest
      then do {
        (m, result) \<leftarrow> LZ4_decompress_generic m source dest 0 originalSize endOnOutputSize full 0
                          usingExtDict (prefixEnd sd - prefixSize sd) (externalDict sd) (extDictSize sd);
        if result \<le> 0 then Some (m, sd, result)
        else Some (m, sd\<lparr>prefixSize := cast_u64 (prefixSize sd + originalSize),
                         prefixEnd := prefixEnd sd + originalSize\<rparr>, result) }
      else
        let sd = sd\<lparr>extDictSize := prefixSize sd, externalDict := dest - prefixSize sd\<rparr>
        in do {
          (m, result) \<leftarrow> LZ4_decompress_generic m source dest 0 originalSize endOnOutputSize full 0
                            usingExtDict dest (externalDict sd) (extDictSize sd);
          if result \<le> 0 then Some (m, sd, result)
          else Some (m, sd\<lparr>prefixSize := cast_u64 originalSize, prefixEnd := dest + originalSize\<rparr>, result) })"

definition LZ4_uncompress :: "mem \<Rightarrow> addr \<Rightarrow> addr \<Rightarrow> int \<Rightarrow> (mem \<times> int) option" where
  "LZ4_uncompress m source dest outputSize = LZ4_decompress_fast m source dest outputSize"

definition LZ4_uncompress_unknownOutputSize :: "mem \<Rightarrow> addr \<Rightarrow> addr \<Rightarrow> int \<Rightarrow> int \<Rightarrow> (mem \<times> int) option" where
  "LZ4_uncompress_unknownOutputSize m source dest isize maxOutputSize =
     LZ4_decompress_safe m source dest isize maxOutputSize"

declare LZ4_loadDict_loop.simps [code]

end
