(* ===== verification/LZ4_Block_Chain.thy ===== *)
theory LZ4_Block_Chain
  imports LZ4_Stream LZ4_Sequence
begin

text \<open>
  Streams of blocks: what a streaming compressor must promise so that the blocks it makes, one after
  the other, are decompressed by \<open>LZ4_decompress_safe_continue\<close> to the data. The fast and the
  high compression mode keep this promise in different ways.
\<close>

section \<open>More history\<close>

text \<open>What a block decodes to does not change when there is more history before the one it needs.\<close>

lemma match_bytes_more:
  assumes "1 \<le> off" "off \<le> length out"
  shows "match_bytes (xs @ out) off n = match_bytes out off n"
proof -
  have "(xs @ out) ! (length (xs @ out) - off + k mod off) = out ! (length out - off + k mod off)" for k
  proof -
    have eq: "length (xs @ out) - off + k mod off = length xs + (length out - off + k mod off)"
      using assms by simp
    show ?thesis unfolding eq by (rule nth_append_length_plus)
  qed
  then show ?thesis by (simp only: match_bytes_def)
qed

lemma apply_seq_more:
  "seq_ok hist s \<Longrightarrow> apply_seq (xs @ hist) s = xs @ apply_seq hist s \<and> seq_ok (xs @ hist) s"
  using match_bytes_more [of "moff s" "hist @ lits s" xs "mlen s"] by (simp add: apply_seq_def seq_ok_def)

lemma lz4_block_more:
  assumes "lz4_block hist ss ls"
  shows "lz4_block (xs @ hist) ss ls \<and> decode (xs @ hist) ss ls = decode hist ss ls"
proof -
  have "seqs_ok hist ss \<Longrightarrow> foldl apply_seq (xs @ hist) ss = xs @ foldl apply_seq hist ss \<and> seqs_ok (xs @ hist) ss"
    for hist
  proof (induction ss arbitrary: hist)
    case (Cons s ss)
    then show ?case using apply_seq_more [of hist s xs] by simp
  qed simp
  then show ?thesis
    using assms by (simp add: lz4_block_def decode_def)
qed

section \<open>Decompressing a block\<close>

text \<open>
  The history of the decompressor: \<open>P\<close> right before the place of the next contiguous block, and \<open>E\<close>
  in the external dictionary.
\<close>

definition decode_at :: "LZ4_streamDecode_t_internal \<Rightarrow> mem \<Rightarrow> byte list \<Rightarrow> byte list \<Rightarrow> bool" where
  "decode_at sd m E P \<longleftrightarrow>
     extDictSize sd = int (length E) \<and> bytes_at m (externalDict sd) E \<and>
     prefixSize sd = int (length P) \<and> bytes_at m (prefixEnd sd - int (length P)) P"

lemma setStreamDecode_at:
  assumes "bytes_at m d xs" "int (length xs) < 2 ^ 64"
  shows "decode_at (fst (LZ4_setStreamDecode d (int (length xs)))) m [] xs"
  using assms by (simp add: decode_at_def LZ4_setStreamDecode_def)

lemma hist_at_split:
  assumes "bytes_at m dictStart E" "bytes_at m (dest - int (length P)) P" "lowPrefix e = dest - int (length P)"
    "dictEnd e = dictStart + int (length E)" "dict e = usingExtDict"
  shows "hist_at e m dest (E @ P)"
  unfolding hist_at_def
proof (intro allI impI)
  fix k assume k: "k < length (E @ P)"
  let ?a = "dest - int (length (E @ P)) + int k"
  show "vread e m ?a = Some ((E @ P) ! k)"
  proof (cases "k < length E")
    case True
    then have eq: "dictEnd e - (lowPrefix e - ?a) = dictStart + int k" and "?a < lowPrefix e"
      using assms(3,4) by simp_all
    then have "vread e m ?a = m (dictStart + int k)"
      unfolding eq [symmetric] using assms(5) by (simp add: vread_def)
    then show ?thesis
      using True bytes_at_natD [OF assms(1) True] by (simp add: nth_append)
  next
    case False
    then have eq: "?a = dest - int (length P) + int (k - length E)" and lt: "k - length E < length P" using k by auto
    show ?thesis
      unfolding eq using False bytes_at_natD [OF assms(2) lt] assms(3) by (simp add: vread_def nth_append)
  qed
qed

lemma decompress_split:
  assumes "lz4_block (E @ P) ss ls" "bytes_at m source (ser_block ss 0 ls)"
    and "io_buffers m source (int (length (ser_block ss 0 ls))) dest outputSize"
    and "int (block_size ss ls) \<le> outputSize" "bytes_at m dictStart E" "bytes_at m (dest - int (length P)) P"
    and "dictStart + int (length E) \<le> dest \<or> dest + outputSize \<le> dictStart"
  shows "decodes_to (LZ4_decompress_generic m source dest (int (length (ser_block ss 0 ls))) outputSize
      endOnInputSize full 0 usingExtDict (dest - int (length P)) dictStart (int (length E)))
    m dest outputSize (int (block_size ss ls)) (decode (E @ P) ss ls)"
proof -
  have "\<exists>m'. LZ4_decompress_generic m source dest (int (length (ser_block ss 0 ls))) outputSize
      endOnInputSize full 0 usingExtDict (dest - int (length P)) dictStart (int (length E)) =
      Some (m', if endOnInputSize = endOnInputSize then int (block_size ss ls)
                else int (length (ser_block ss 0 ls))) \<and>
    same_dom m m' \<and> same_outside m m' dest (dest + outputSize) \<and> bytes_at m' dest (decode (E @ P) ss ls)"
    using assms by (intro decompress_generic_complete io_buffers_ok hist_at_split [of _ dictStart])
      (auto simp: dec_env_simps io_buffers_def)
  then show ?thesis by (auto simp: decodes_to_def)
qed

text \<open>A block whose history is the end of what the decompressor has, decoded right behind it.\<close>

lemma safe_continue_contiguous:
  assumes at: "decode_at sd m E P" "prefixEnd sd = dest" and block: "lz4_block hist ss ls" "E @ P = xs @ hist"
    and inp: "bytes_at m source (ser_block ss 0 ls)" "io_buffers m source (int (length (ser_block ss 0 ls))) dest n"
    and out: "int (block_size ss ls) \<le> n" "0 < block_size ss ls" "int (length P) + n < 2 ^ 64"
    and apart: "externalDict sd + int (length E) \<le> dest \<or> dest + n \<le> externalDict sd"
  shows "\<exists>m' sd'. LZ4_decompress_safe_continue m sd source dest (int (length (ser_block ss 0 ls))) n =
      Some (m', sd', int (block_size ss ls)) \<and>
    bytes_at m' dest (decode hist ss ls) \<and> same_dom m m' \<and> same_outside m m' dest (dest + n) \<and>
    decode_at sd' m' E (P @ decode hist ss ls) \<and> prefixEnd sd' = dest + int (block_size ss ls) \<and>
    externalDict sd' = externalDict sd"
proof -
  have d: "lz4_block (E @ P) ss ls" "decode (E @ P) ss ls = decode hist ss ls"
    using lz4_block_more [OF block(1), of xs] block(2) by simp_all
  have E: "bytes_at m (externalDict sd) E" "extDictSize sd = int (length E)"
    and P: "bytes_at m (dest - int (length P)) P" "prefixSize sd = int (length P)"
    using at by (auto simp: decode_at_def)
  from decompress_split [OF d(1) inp out(1) E(1) P(1) apart]
  obtain m' where m': "LZ4_decompress_generic m source dest (int (length (ser_block ss 0 ls))) n
      endOnInputSize full 0 usingExtDict (dest - int (length P)) (externalDict sd) (int (length E)) =
      Some (m', int (block_size ss ls))"
    "bytes_at m' dest (decode hist ss ls)" "same_outside m m' dest (dest + n)" "same_dom m m'"
    by (auto simp: decodes_to_def d(2))
  have "bytes_at m' (externalDict sd) E" using apart by (intro bytes_at_same [OF E(1) m'(3)]) auto
  moreover have "bytes_at m' (dest - int (length P)) P" by (intro bytes_at_same [OF P(1) m'(3)]) simp
  moreover have "dest + int (block_size ss ls) - (int (length P) + int (block_size ss ls)) = dest - int (length P)" by simp
  ultimately show ?thesis
    using m' at(2) E(2) P(2) out by (simp add: LZ4_decompress_safe_continue_def decode_at_def bytes_at_append)
qed

text \<open>A block made after the end of a dictionary, decompressed with the dictionary.\<close>

lemma compressed_usingDict:
  assumes c: "compressed_to m m1 buf (buf + n) hist src r" and dict: "bytes_at m start (xs @ hist)" "length (xs @ hist) < 2 ^ 31"
    and buf: "n < 2 ^ 31" "0 \<le> buf" "buf + n < 2 ^ 64"
    and out: "mapped m out (out + k)" "int (length src) \<le> k" "k < 2 ^ 31" "0 \<le> out" "out + k < 2 ^ 64"
    and apart: "start + int (length (xs @ hist)) \<le> buf \<or> buf + n \<le> start"
      "buf + n \<le> out \<or> out + k \<le> buf" "start + int (length (xs @ hist)) \<le> out \<or> out + k \<le> start"
  shows "decodes_to (LZ4_decompress_safe_usingDict m1 buf out r k start (int (length (xs @ hist)))) m1 out k (int (length src)) src"
proof -
  obtain ss ls where bl: "lz4_block hist ss ls" "decode hist ss ls = src" "bytes_at m1 buf (ser_block ss 0 ls)"
    "r = int (length (ser_block ss 0 ls))" "buf + r \<le> buf + n" and mem: "same_dom m m1" "same_outside m m1 buf (buf + n)"
    using c by (auto simp: compressed_to_def emits_def)
  have size: "block_size ss ls = length src" using bl(2) length_decode [of hist ss ls] by simp
  have bl': "lz4_block (xs @ hist) ss ls" "decode (xs @ hist) ss ls = src" using lz4_block_more [OF bl(1), of xs] bl(2) by simp_all
  have "bytes_at m1 start (xs @ hist)" using apart(1) by (intro bytes_at_same [OF dict(1) mem(2)]) auto
  moreover have "io_buffers m1 buf (int (length (ser_block ss 0 ls))) out k"
    using buf out apart(2) bl(4,5) mapped_dom [OF out(1) mem(1)] by (auto simp: io_buffers_def)
  ultimately show ?thesis
    using usingDict_decodes [OF bl'(1) bl(3)] out(2) apart(3) dict(2) by (simp add: bl(4) bl'(2) size)
qed

section \<open>Streams of blocks\<close>

text \<open>
  Compressing blocks that follow each other in memory, each into the same buffer, and decompressing
  every one right away behind the data decompressed before.
\<close>

type_synonym 'st compress_continue = "mem \<Rightarrow> 'st \<Rightarrow> addr \<Rightarrow> addr \<Rightarrow> int \<Rightarrow> int \<Rightarrow> (mem \<times> 'st \<times> int) option"

fun stream_blocks ::
  "'st compress_continue \<Rightarrow> mem \<Rightarrow> 'st \<Rightarrow> LZ4_streamDecode_t_internal \<Rightarrow> addr \<Rightarrow> addr \<Rightarrow> int \<Rightarrow> addr \<Rightarrow> byte list list \<Rightarrow>
   (mem \<times> 'st \<times> LZ4_streamDecode_t_internal) option" where
  "stream_blocks compress m st sd source buf cap out [] = Some (m, st, sd)"
| "stream_blocks compress m st sd source buf cap out (b # bs) =
     do { (m, st, r) \<leftarrow> compress m st source buf (int (length b)) cap;
          (m, sd, n) \<leftarrow> LZ4_decompress_safe_continue m sd buf out r (int (length b));
          stream_blocks compress m st sd (source + int (length b)) buf cap (out + n) bs }"

text \<open>The three areas: input from \<open>s\<close> to \<open>s'\<close>, the buffer, and output from \<open>d\<close> to \<open>d'\<close>.\<close>

definition areas :: "mem \<Rightarrow> addr \<Rightarrow> addr \<Rightarrow> addr \<Rightarrow> int \<Rightarrow> addr \<Rightarrow> addr \<Rightarrow> bool" where
  "areas m s s' buf cap d d' \<longleftrightarrow>
     mapped m buf (buf + cap) \<and> mapped m d d' \<and> cap < 2 ^ 31 \<and> 0 < s \<and> 0 \<le> buf \<and> buf + cap < 2 ^ 64 \<and> 0 \<le> d \<and> d' < 2 ^ 64 \<and>
     (s' \<le> buf \<or> buf + cap \<le> s) \<and> (s' \<le> d \<or> d' \<le> s) \<and> (buf + cap \<le> d \<or> d' \<le> buf)"

text \<open>
  The contract. A state \<open>holds\<close> the history \<open>hist\<close>: the bytes right before \<open>source\<close>, not below
  \<open>lo\<close>, as far as the compressor will refer to them. A block may be compressed against a part of the
  history, and the next state may hold less than all the data.
\<close>

locale block_stream =
  fixes compress :: "'st compress_continue"
    and holds :: "'st \<Rightarrow> mem \<Rightarrow> addr \<Rightarrow> addr \<Rightarrow> byte list \<Rightarrow> bool"
    and fits :: "byte list \<Rightarrow> bool"
  assumes compress_block:
    "\<lbrakk>holds st m lo source hist; fits b; 0 < lo; 0 \<le> buf; bytes_at m source b; mapped m buf (buf + cap);
      source + int (length b) \<le> buf \<or> buf + cap \<le> lo; LZ4_compressBound (int (length b)) \<le> cap; cap < 2 ^ 31\<rbrakk> \<Longrightarrow>
     \<exists>m' st' r xs hist1 ys hist2. compress m st source buf (int (length b)) cap = Some (m', st', r) \<and>
       hist = xs @ hist1 \<and> compressed_to m m' buf (buf + cap) hist1 b r \<and>
       hist @ b = ys @ hist2 \<and> holds st' m' lo (source + int (length b)) hist2"
    and holds_stable:
    "\<lbrakk>holds st m lo source hist; \<And>a. lo \<le> a \<Longrightarrow> a < source \<Longrightarrow> m' a = m a\<rbrakk> \<Longrightarrow> holds st m' lo source hist"
    and holds_below: "holds st m lo source hist \<Longrightarrow> lo \<le> source"
    and fits_size: "fits b \<Longrightarrow> b \<noteq> [] \<and> int (length b) \<le> LZ4_MAX_INPUT_SIZE"
begin

text \<open>The decompressor has at least the history that the compressor refers to.\<close>

definition synced :: "'st \<Rightarrow> LZ4_streamDecode_t_internal \<Rightarrow> mem \<Rightarrow> addr \<Rightarrow> addr \<Rightarrow> addr \<Rightarrow> addr \<Rightarrow> bool" where
  "synced st sd m s source d out \<longleftrightarrow>
     d \<le> out \<and> prefixEnd sd = out \<and> externalDict sd = 0 \<and>
     (\<exists>hist P xs. holds st m s source hist \<and> decode_at sd m [] P \<and> P = xs @ hist \<and> d \<le> out - int (length P))"

lemma stream_step:
  assumes sync: "synced st sd m s source d out" and areas: "areas m s s' buf cap d d'"
    and b: "bytes_at m source b" "source + int (length b) \<le> s'" "fits b"
      "LZ4_compressBound (int (length b)) \<le> cap" "out + int (length b) \<le> d'"
  shows "\<exists>m1 st1 r m2 sd1. compress m st source buf (int (length b)) cap = Some (m1, st1, r) \<and>
    LZ4_decompress_safe_continue m1 sd buf out r (int (length b)) = Some (m2, sd1, int (length b)) \<and>
    synced st1 sd1 m2 s (source + int (length b)) d (out + int (length b)) \<and> areas m2 s s' buf cap d d' \<and>
    bytes_at m2 out b \<and> (\<forall>a. s \<le> a \<and> a < s' \<or> d \<le> a \<and> a < out \<longrightarrow> m2 a = m a)"
proof -
  obtain hist P xs where h: "holds st m s source hist" and P: "decode_at sd m [] P" "P = xs @ hist" "d \<le> out - int (length P)"
    and fields: "d \<le> out" "prefixEnd sd = out" "externalDict sd = 0"
    using sync by (auto simp: synced_def)
  have pos: "s \<le> source" "0 < s" "mapped m buf (buf + cap)" "cap < 2 ^ 31" "b \<noteq> []" "int (length b) \<le> 2113929216" "0 \<le> buf"
    and away: "source + int (length b) \<le> buf \<or> buf + cap \<le> s"
    using holds_below [OF h] areas b(2) fits_size [OF b(3)] by (auto simp: areas_def)
  from compress_block [OF h b(3) pos(2) pos(7) b(1) pos(3) away b(4) pos(4)]
  obtain m1 st1 r zs hist1 ys hist2 where c: "compress m st source buf (int (length b)) cap = Some (m1, st1, r)"
    "hist = zs @ hist1" "compressed_to m m1 buf (buf + cap) hist1 b r" "hist @ b = ys @ hist2"
    "holds st1 m1 s (source + int (length b)) hist2" by blast
  have mem: "same_dom m m1" "same_outside m m1 buf (buf + cap)" using c(3) by (auto simp: compressed_to_def emits_def)
  obtain ss ls where bl: "lz4_block hist1 ss ls" "decode hist1 ss ls = b" "bytes_at m1 buf (ser_block ss 0 ls)"
    "r = int (length (ser_block ss 0 ls))" "buf + r \<le> buf + cap"
    using c(3) by (auto simp: compressed_to_def emits_def)
  have size: "block_size ss ls = length b" using bl(2) length_decode [of hist1 ss ls] by simp
  have "bytes_at m1 (out - int (length P)) P"
    using P areas b(5) fields(1,2) by (intro bytes_at_same [OF _ mem(2)]) (auto simp: decode_at_def areas_def)
  then have P1: "decode_at sd m1 [] P" using P(1) fields(2) by (simp add: decode_at_def)
  have "mapped m1 out (out + int (length b))"
    using areas b(5) fields(1) mem(1) by (auto simp: areas_def intro: mapped_subset mapped_dom)
  then have io: "io_buffers m1 buf (int (length (ser_block ss 0 ls))) out (int (length b))"
    using areas b(5) pos(6) bl(4,5) fields(1) by (auto simp: io_buffers_def areas_def)
  have pre: "[] @ P = (xs @ zs) @ hist1" "int (block_size ss ls) \<le> int (length b)" "0 < block_size ss ls"
    "int (length P) + int (length b) < 2 ^ 64"
    "externalDict sd + int (length ([] :: byte list)) \<le> out \<or> out + int (length b) \<le> externalDict sd"
    using P(2,3) c(2) size pos(5) b(5) areas fields by (auto simp: areas_def)
  from safe_continue_contiguous [OF P1 fields(2) bl(1) pre(1) bl(3) io pre(2-5)]
  obtain m2 sd1 where d: "LZ4_decompress_safe_continue m1 sd buf out r (int (length b)) = Some (m2, sd1, int (length b))"
    "bytes_at m2 out b" "same_dom m1 m2" "same_outside m1 m2 out (out + int (length b))" "decode_at sd1 m2 [] (P @ b)"
    "prefixEnd sd1 = out + int (length b)" "externalDict sd1 = 0"
    by (auto simp: bl(2,4) size fields(3))
  have same: "m2 a = m a" if "s \<le> a \<and> a < s' \<or> d \<le> a \<and> a < out" for a
  proof -
    have "m2 a = m1 a" "m1 a = m a"
      using that areas b(5) fields(1) d(4) mem(2) by (auto simp: areas_def intro!: same_outsideD)
    then show ?thesis by simp
  qed
  have "m2 a = m1 a" if "s \<le> a" "a < source + int (length b)" for a
    using that areas b(2,5) fields(1) d(4) by (auto simp: areas_def intro!: same_outsideD)
  then have "holds st1 m2 s (source + int (length b)) hist2" by (rule holds_stable [OF c(5)])
  moreover have "P @ b = (xs @ ys) @ hist2" using P(2) c(4) by simp
  moreover have "d \<le> out + int (length b) - int (length (P @ b))" using P(3) by simp
  ultimately have "synced st1 sd1 m2 s (source + int (length b)) d (out + int (length b))"
    using fields(1) d(5-7) unfolding synced_def by (metis (no_types, lifting) le_add_same_cancel1 of_nat_0_le_iff order_trans)
  moreover have "areas m2 s s' buf cap d d'"
    using areas same_dom_trans [OF mem(1) d(3)] by (auto simp: areas_def intro: mapped_dom)
  ultimately show ?thesis using c(1) d(1,2) same by blast
qed

lemma stream_blocks_synced:
  assumes "synced st sd m s source d out" "areas m s s' buf cap d d'" "bytes_at m source (concat bs)"
    and "source + int (length (concat bs)) \<le> s'" "out + int (length (concat bs)) \<le> d'"
    and "\<forall>b \<in> set bs. fits b \<and> LZ4_compressBound (int (length b)) \<le> cap"
  shows "\<exists>m' st' sd'. stream_blocks compress m st sd source buf cap out bs = Some (m', st', sd') \<and>
    bytes_at m' out (concat bs) \<and> (\<forall>a. d \<le> a \<and> a < out \<longrightarrow> m' a = m a)"
  using assms
proof (induction bs arbitrary: m st sd source out)
  case (Cons b bs)
  have b: "bytes_at m source b" "bytes_at m (source + int (length b)) (concat bs)"
    using Cons.prems(3) by (auto simp: bytes_at_append)
  have le: "s \<le> source" "d \<le> out" using Cons.prems(1) holds_below by (auto simp: synced_def)
  have fit: "source + int (length b) \<le> s'" "out + int (length b) \<le> d'" using Cons.prems(4,5) by simp_all
  from stream_step [OF Cons.prems(1,2) b(1) fit(1) _ _ fit(2)] Cons.prems(6)
  obtain m1 st1 r m2 sd1 where st: "compress m st source buf (int (length b)) cap = Some (m1, st1, r)"
    "LZ4_decompress_safe_continue m1 sd buf out r (int (length b)) = Some (m2, sd1, int (length b))"
    "synced st1 sd1 m2 s (source + int (length b)) d (out + int (length b))" "areas m2 s s' buf cap d d'"
    "bytes_at m2 out b" "\<forall>a. s \<le> a \<and> a < s' \<or> d \<le> a \<and> a < out \<longrightarrow> m2 a = m a"
    by auto
  have src: "bytes_at m2 (source + int (length b)) (concat bs)"
    using b(2) st(6) Cons.prems(4) le by (auto simp: bytes_at_iff)
  from Cons.IH [OF st(3,4) src] Cons.prems(4-6)
  obtain m' st' sd' where r: "stream_blocks compress m2 st1 sd1 (source + int (length b)) buf cap (out + int (length b)) bs =
      Some (m', st', sd')"
    "bytes_at m' (out + int (length b)) (concat bs)" "\<forall>a. d \<le> a \<and> a < out + int (length b) \<longrightarrow> m' a = m2 a"
    by auto
  have "bytes_at m' out b" using st(5) r(3) le by (auto simp: bytes_at_iff)
  then show ?case using st(1,2,6) r by (auto simp: bytes_at_append)
qed simp

lemma stream_blocks_spec:
  assumes "holds st m source source []" "bytes_at m source (concat bs)"
    and "areas m source (source + int (length (concat bs))) buf cap out (out + int (length (concat bs)))"
    and "\<forall>b \<in> set bs. fits b \<and> LZ4_compressBound (int (length b)) \<le> cap"
  shows "\<exists>m' st' sd. stream_blocks compress m st (fst (LZ4_setStreamDecode out 0)) source buf cap out bs =
      Some (m', st', sd) \<and> bytes_at m' out (concat bs)"
proof -
  have "synced st (fst (LZ4_setStreamDecode out 0)) m source source out out"
    using assms(1) setStreamDecode_at [of m out "[]"] by (auto simp: synced_def LZ4_setStreamDecode_def)
  from stream_blocks_synced [OF this assms(3,2)] assms(4) show ?thesis by auto
qed

end

end
