(* ===== verification/LZ4_Stream_Correct.thy ===== *)
theory LZ4_Stream_Correct
  imports LZ4_Block_Chain LZ4_Compress_Correct
begin

text \<open>
  The streaming interface: an invariant of the stream state that every operation keeps, and that
  successive blocks are decompressed to the data that was compressed.
\<close>

section \<open>The invariant of a stream\<close>

text \<open>
  The dictionary does not reach back further than the offsets given out so far, and table entries
  are offsets of positions with at least four bytes behind them (except in a stream that has seen
  no data).
\<close>

definition stream_wf :: "LZ4_stream_t_internal \<Rightarrow> bool" where
  "stream_wf st \<longleftrightarrow> initCheck st = 0 \<and> 0 \<le> dictSize st \<and> dictSize st \<le> currentOffset st \<and> currentOffset st < 2 ^ 32 \<and>
     (\<forall>h < HASH_SIZE byU32. 0 \<le> hashTable st h \<and>
        (hashTable st h + 4 \<le> currentOffset st \<or> currentOffset st = 0 \<and> hashTable st h = 0))"

text \<open>The data the stream refers to.\<close>

definition dict_at :: "LZ4_stream_t_internal \<Rightarrow> mem \<Rightarrow> byte list \<Rightarrow> bool" where
  "dict_at st m hist \<longleftrightarrow> dictSize st = int (length hist) \<and> bytes_at m (dictionary st) hist"

lemma reset_wf: "stream_wf LZ4_resetStream" "dict_at LZ4_resetStream m []"
  by (simp_all add: stream_wf_def dict_at_def LZ4_resetStream_def)

lemma renorm_wf:
  assumes "stream_wf st"
  shows "stream_wf (LZ4_renormDictT st a)" "currentOffset (LZ4_renormDictT st a) \<le> 2 ^ 31"
proof -
  have "(currentOffset st - 65536) mod 4294967296 =
      (if currentOffset st < 65536 then currentOffset st - 65536 + 4294967296 else currentOffset st - 65536)"
    using assms mod_add_self2 [of "currentOffset st - 65536" 4294967296] by (auto simp: stream_wf_def)
  then show "stream_wf (LZ4_renormDictT st a)"
    using assms by (auto simp: stream_wf_def LZ4_renormDictT_def Let_def)
  show "currentOffset (LZ4_renormDictT st a) \<le> 2 ^ 31"
    by (auto simp: LZ4_renormDictT_def Let_def)
qed

lemma renorm_dictEnd:
  assumes "stream_wf st"
  shows "dictionary (LZ4_renormDictT st a) + dictSize (LZ4_renormDictT st a) = dictionary st + dictSize st"
    "dictSize (LZ4_renormDictT st a) \<le> dictSize st" "initCheck (LZ4_renormDictT st a) = 0"
  using assms by (auto simp: LZ4_renormDictT_def Let_def stream_wf_def)

lemma overlap_wf:
  assumes "stream_wf st" "dict_end = dictionary st + dictSize st"
  shows "stream_wf (LZ4_check_overlap st dict_end e)" 
    "currentOffset (LZ4_check_overlap st dict_end e) = currentOffset st"
    "dictionary (LZ4_check_overlap st dict_end e) + dictSize (LZ4_check_overlap st dict_end e) = dict_end"
    "dictSize (LZ4_check_overlap st dict_end e) \<le> dictSize st"
  using assms by (auto simp: LZ4_check_overlap_def Let_def stream_wf_def)

text \<open>The state that \<open>LZ4_compress_fast_continue\<close> hands to the compressor.\<close>

definition prepared :: "LZ4_stream_t_internal \<Rightarrow> addr \<Rightarrow> int \<Rightarrow> LZ4_stream_t_internal" where
  "prepared st source inputSize =
     (let dict_end = dictionary st + dictSize st
      in LZ4_check_overlap (LZ4_renormDictT st (if dictSize st > 0 \<and> source > dict_end then dict_end else source))
           dict_end (source + inputSize))"

lemma prepared_wf:
  assumes "stream_wf st"
  shows "stream_wf (prepared st source n)" "currentOffset (prepared st source n) \<le> 2 ^ 31"
    "dictionary (prepared st source n) + dictSize (prepared st source n) = dictionary st + dictSize st"
    "dictSize (prepared st source n) \<le> dictSize st"
  unfolding prepared_def Let_def
  using overlap_wf [OF renorm_wf(1) [OF assms], of "dictionary st + dictSize st"] renorm_wf(2) [OF assms]
    renorm_dictEnd [OF assms] by (fastforce intro: order_trans)+

lemma prepared_offset: "0 < currentOffset st \<Longrightarrow> 0 < currentOffset (prepared st source n)"
  by (simp add: prepared_def Let_def LZ4_check_overlap_def LZ4_renormDictT_def)

lemma dict_at_suffix:
  assumes "dict_at st m hist" "dictionary st' + dictSize st' = dictionary st + dictSize st"
    "0 \<le> dictSize st'" "dictSize st' \<le> dictSize st"
  shows "dict_at st' m (drop (length hist - nat (dictSize st')) hist)"
proof -
  let ?k = "length hist - nat (dictSize st')"
  have "bytes_at m (dictionary st + int ?k) (drop ?k hist)"
    using bytes_at_slice [of m "dictionary st" hist ?k "length hist - ?k"] assms by (simp add: dict_at_def)
  moreover have "dictionary st + int ?k = dictionary st'"
    using assms by (simp add: dict_at_def)
  ultimately show ?thesis using assms by (simp add: dict_at_def)
qed

section \<open>Loading a dictionary\<close>

lemma loadDict_loop_spec:
  assumes "mapped m p e" "srcBase \<le> p" "e - srcBase < 2 ^ 32"
    and "\<forall>h < HASH_SIZE byU32. 0 \<le> T h \<and> T h + 4 \<le> e - srcBase"
  shows "\<exists>T'. LZ4_loadDict_loop m T p e srcBase = Some T' \<and> (\<forall>h < HASH_SIZE byU32. 0 \<le> T' h \<and> T' h + 4 \<le> e - srcBase)"
  using assms
proof (induction "nat (e - p)" arbitrary: T p rule: less_induct)
  case less
  show ?case
  proof (cases "p \<le> e - 8")
    case False
    then show ?thesis using less.prems(4) by (simp add: LZ4_loadDict_loop.simps [of m T p])
  next
    case True
    have "mapped m p (p + 8)" using less.prems(1) True by (auto intro: mapped_subset)
    from LZ4_read_ARCH_mapped [OF this] obtain h where h: "LZ4_hashPosition m p byU32 = Some h"
      by (auto simp: LZ4_hashPosition_def)
    let ?T = "T(h := p - srcBase)"
    have put: "LZ4_putPosition m p T byU32 srcBase = Some ?T"
      using less.prems(2,3) True by (simp add: LZ4_putPosition_def h LZ4_putPositionOnHash_def)
    have "\<exists>T'. LZ4_loadDict_loop m ?T (p + 3) e srcBase = Some T' \<and>
        (\<forall>h < HASH_SIZE byU32. 0 \<le> T' h \<and> T' h + 4 \<le> e - srcBase)"
    proof (rule less.hyps)
      show "nat (e - (p + 3)) < nat (e - p)" using True by simp
      show "mapped m (p + 3) e" using less.prems(1) by (rule mapped_subset) simp_all
      show "srcBase \<le> p + 3" "e - srcBase < 2 ^ 32" using less.prems by simp_all
      show "\<forall>h < HASH_SIZE byU32. 0 \<le> ?T h \<and> ?T h + 4 \<le> e - srcBase"
        using less.prems(2,4) True by auto
    qed
    then show ?thesis using True put by (simp add: LZ4_loadDict_loop.simps [of m T p])
  qed
qed

lemma loadDict_spec:
  assumes wf: "stream_wf st \<or> initCheck st \<noteq> 0" and at: "bytes_at m start d" and small: "int (length d) < 2 ^ 31"
  shows "\<exists>st'. LZ4_loadDict m st start (int (length d)) = Some (st', dictSize st') \<and> stream_wf st' \<and>
    (if length d < 8 then dict_at st' m []
     else dict_at st' m (drop (length d - min (length d) 65536) d) \<and>
       dictionary st' + dictSize st' = start + int (length d) \<and> start \<le> dictionary st' \<and> 0 < currentOffset st')"
proof -
  define st1 where "st1 = (if initCheck st \<noteq> 0 \<or> currentOffset st > 2 ^ 30 then LZ4_resetStream else st)"
  have wf1: "stream_wf st1" and co1: "currentOffset st1 \<le> 2 ^ 30" using wf reset_wf(1)
    by (auto simp: st1_def LZ4_resetStream_def)
  show ?thesis
  proof (cases "length d < 8")
    case True
    then show ?thesis
      using wf1 unfolding LZ4_loadDict_def Let_def st1_def [symmetric]
      by (auto simp: stream_wf_def dict_at_def)
  next
    case False
    define k p where "k = min (length d) 65536" and "p = start + int (length d) - int k"
    have p: "(if start + int (length d) - start > 65536 then start + int (length d) - 65536 else start) = p"
      by (auto simp: p_def k_def)
    have k: "8 \<le> k" "k \<le> 65536" "start + int (length d) - p = int k" using False by (auto simp: p_def k_def)
    have pd: "bytes_at m p (drop (length d - k) d)"
    proof -
      have "k \<le> length d" by (simp add: k_def)
      then show ?thesis
        using bytes_at_slice [OF at, of "length d - k" k] by (simp add: p_def of_nat_diff algebra_simps)
    qed
    have map: "mapped m p (start + int (length d))"
      using bytes_at_mapped [OF pd] k(1,3) by (simp add: p_def k_def split: if_splits)
    let ?base = "p - (currentOffset st1 + 65536)"
    have off: "start + int (length d) - ?base = currentOffset st1 + 65536 + int k" using k by simp
    have pos: "0 \<le> currentOffset st1" using wf1 by (simp add: stream_wf_def)
    have "\<forall>h < HASH_SIZE byU32. 0 \<le> hashTable st1 h \<and> hashTable st1 h + 4 \<le> start + int (length d) - ?base"
      unfolding off using wf1 by (force simp: stream_wf_def)
    then obtain T where T: "LZ4_loadDict_loop m (hashTable st1) p (start + int (length d)) ?base = Some T"
      "\<forall>h < HASH_SIZE byU32. 0 \<le> T h \<and> T h + 4 \<le> currentOffset st1 + 65536 + int k"
      using loadDict_loop_spec [OF map, of ?base "hashTable st1"] co1 pos k(2) unfolding off by auto
    have "LZ4_loadDict m st start (int (length d)) =
        Some (st1\<lparr>dictionary := p, dictSize := int k, currentOffset := currentOffset st1 + 65536 + int k, hashTable := T\<rparr>, int k)"
      using T(1) False k co1 pos unfolding LZ4_loadDict_def Let_def st1_def [symmetric] p by simp
    moreover have "stream_wf (st1\<lparr>dictionary := p, dictSize := int k, currentOffset := currentOffset st1 + 65536 + int k, hashTable := T\<rparr>)"
      using wf1 co1 k T(2) by (simp add: stream_wf_def)
    moreover have "length (drop (length d - k) d) = k" by (simp add: k_def)
    moreover have "start \<le> p" by (simp add: p_def k_def)
    ultimately show ?thesis
      using pd False k(3) pos by (simp add: dict_at_def k_def [symmetric])
  qed
qed

section \<open>Compressing a block\<close>

text \<open>
  What a call needs: the block at \<open>source\<close>, the dictionary \<open>hist\<close> as the code sees it after its own
  adjustments, an output buffer of \<open>n\<close> bytes apart from both, with \<open>fast_slack\<close> bytes behind it (0 of
  them, unless the block is long and \<open>n\<close> small). A block that is not placed right behind the dictionary
  must not start where the dictionary starts.
\<close>

definition fast_output :: "byte list \<Rightarrow> int \<Rightarrow> int" where
  "fast_output src n = n + fast_slack (length src) n"

definition continue_ready ::
  "mem \<Rightarrow> LZ4_stream_t_internal \<Rightarrow> addr \<Rightarrow> byte list \<Rightarrow> addr \<Rightarrow> int \<Rightarrow> byte list \<Rightarrow> bool" where
  "continue_ready m st source src dest n hist \<longleftrightarrow>
     stream_wf st \<and> dict_at (prepared st source (int (length src))) m hist \<and>
     one_shot_buffers m source src dest (fast_output src n) \<and>
     (dest + fast_output src n \<le> dictionary (prepared st source (int (length src))) \<or> dictionary st + dictSize st \<le> dest) \<and>
     (dictionary st + dictSize st = source \<or> dictionary (prepared st source (int (length src))) \<noteq> source) \<and>
     0 < n \<and> n < 2 ^ 31"

lemma fast_output_le: "n \<le> fast_output src n"
  by (simp add: fast_output_def fast_slack_def)

lemma fast_output_bound:
  assumes "LZ4_compressBound (int (length src)) \<le> n" "int (length src) \<le> LZ4_MAX_INPUT_SIZE"
  shows "fast_output src n = n"
  using fast_slack_bound [OF assms] by (simp add: fast_output_def)

definition continue_env :: "LZ4_stream_t_internal \<Rightarrow> addr \<Rightarrow> byte list \<Rightarrow> addr \<Rightarrow> int \<Rightarrow> int \<Rightarrow> cmp_env" where
  "continue_env st source src dest n accel =
     (let st1 = prepared st source (int (length src));
          issue = (if dictSize st1 < KB64 \<and> dictSize st1 < currentOffset st1 then dictSmall else noDictIssue);
          dct = (if dictionary st + dictSize st = source then withPrefix64k else usingExtDict)
      in cmp_env_of st1 source dest (int (length src)) n limitedOutput byU32 dct issue accel)"

lemma continue_input:
  fixes accel
  assumes "continue_ready m st source src dest n hist"
  defines "c \<equiv> continue_env st source src dest n accel"
  shows "cmp_input c m hist src" "cmp_apart c m hist (dest + fast_output src n)" "room_ok c src (dest + fast_output src n)" "long_ok c src (dest + fast_output src n)"
    "table_ok c hist (hashTable (prepared st source (int (length src)))) (source + 1)"
proof -
  define st1 where "st1 = prepared st source (int (length src))"
  have wf: "stream_wf st" and at: "dict_at st1 m hist" and bufs: "one_shot_buffers m source src dest (fast_output src n)"
    using assms(1) by (auto simp: continue_ready_def st1_def)
  note wf1 = prepared_wf [OF wf, of source "int (length src)", folded st1_def]
  have size: "dictSize st1 = int (length hist)" and hist: "bytes_at m (dictionary st1) hist"
    using at by (auto simp: dict_at_def)
  have src: "bytes_at m source src" "int (length src) \<le> 2113929216" using bufs by (auto simp: one_shot_buffers_def)
  have c: "c_source c = source" "c_dest c = dest" "c_iend c = source + int (length src)" "tableType c = byU32"
    "mflimit c = c_iend c - 12" "matchlimit c = c_iend c - 5" "lowRefLimit c = source - int (length hist)"
    "c_dictionary c = dictionary st1" "c_dictEnd c = dictionary st1 + int (length hist)"
    "dictDelta c = dictionary st1 + int (length hist) - source" "base c = source - currentOffset st1"
    "c_dict c = (if dictionary st + dictSize st = source then withPrefix64k else usingExtDict)"
    "dictIssue c = (if dictSize st1 < 65536 \<and> dictSize st1 < currentOffset st1 then dictSmall else noDictIssue)"
    "outputLimited c = limitedOutput" "olimit c = dest + n" "c_maxOutputSize c = n"
    by (simp_all add: c_def continue_env_def Let_def cmp_env_of_def st1_def [symmetric] size)
  have vr: "cvread c m (source - int (length hist) + int k) = Some ((hist @ src) ! k)" if k: "k < length (hist @ src)" for k
  proof (cases "k < length hist")
    case True
    have eq: "source - int (length hist) + int k + vdelta c (source - int (length hist) + int k) = dictionary st1 + int k"
      using wf1(3) size True by (auto simp: vdelta_def c)
    show ?thesis
      unfolding cvread_vdelta eq using True bytes_at_natD [OF hist True] by (simp add: nth_append)
  next
    case False
    then have eq: "source - int (length hist) + int k = source + int (k - length hist)" by simp
    have "k - length hist < length src" using False k by simp
    then show ?thesis
      unfolding eq using False bytes_at_natD [OF src(1), of "k - length hist"]
      by (simp add: cvread_def c nth_append)
  qed
  show inp: "cmp_input c m hist src"
    unfolding cmp_input_def using vr c src(2) wf1(1,2) assms(1)
    by (auto simp: stream_wf_def continue_ready_def st1_def [symmetric])
  have "dictionary st1 = source - int (length hist)" if "dictionary st + dictSize st = source"
    using wf1(3) size that by simp
  then show "cmp_apart c m hist (dest + fast_output src n)"
    using bufs assms(1) wf1(3) size fast_output_le [of n src] by (auto simp: cmp_apart_def c one_shot_buffers_def continue_ready_def st1_def [symmetric])
  show "room_ok c src (dest + fast_output src n)" "long_ok c src (dest + fast_output src n)"
    using assms(1) fast_output_le [of n src] by (auto simp: room_ok_def long_ok_def c continue_ready_def fast_output_def)
  show "table_ok c hist (hashTable (prepared st source (int (length src)))) (source + 1)"
    unfolding table_ok_def st1_def [symmetric]
  proof (intro allI impI)
    fix h assume "h < HASH_SIZE (tableType c)"
    then have T: "0 \<le> hashTable st1 h" "hashTable st1 h + 4 \<le> currentOffset st1 \<or> currentOffset st1 = 0 \<and> hashTable st1 h = 0"
      using wf1(1) by (auto simp: stream_wf_def c)
    have "entry_ok c hist (base c + hashTable st1 h)"
      using T wf1(1) size by (auto simp: entry_ok_def c stream_wf_def)
    then show "0 \<le> hashTable st1 h \<and> base c + hashTable st1 h < source + 1 \<and> entry_ok c hist (base c + hashTable st1 h)"
      using T by (auto simp: c)
  qed
qed

lemma continue_run:
  assumes ready: "continue_ready m st source src dest n hist" and acc: "accel \<le> 2 ^ 25"
  defines "st1 \<equiv> prepared st source (int (length src))" and "prefix \<equiv> dictionary st + dictSize st = source"
  shows "\<exists>m' T r. LZ4_compress_fast_continue m st source dest (int (length src)) n accel =
      Some (m', st1\<lparr>hashTable := T, dictionary := (if prefix then dictionary st1 else source),
          dictSize := (if prefix then dictSize st1 + int (length src) else int (length src)),
          currentOffset := currentOffset st1 + int (length src)\<rparr>, r) \<and>
    (if length src < 13 then T = hashTable st1
     else \<forall>h < HASH_SIZE byU32. 0 \<le> T h \<and> T h + 4 \<le> currentOffset st1 + int (length src)) \<and>
    (r = 0 \<and> n < LZ4_compressBound (int (length src)) \<and> same_dom m m' \<and> same_outside m m' dest (dest + fast_output src n) \<or>
     compressed_to m m' dest (dest + fast_output src n) hist src r \<and> r \<le> n)"
proof -
  define a where "a = (if accel < 1 then 1 else accel)"
  define issue where "issue = (if dictSize st1 < 65536 \<and> dictSize st1 < currentOffset st1 then dictSmall else noDictIssue)"
  define dct where "dct = (if prefix then withPrefix64k else usingExtDict)"
  define c where "c = continue_env st source src dest n a"
  have c: "cmp_env_of st1 source dest (int (length src)) n limitedOutput byU32 dct issue a = c"
    by (simp add: c_def continue_env_def Let_def st1_def issue_def dct_def prefix_def)
  have wf: "stream_wf st" and size: "dictSize st1 = int (length hist)" "int (length src) \<le> 2113929216"
    using ready by (auto simp: continue_ready_def dict_at_def st1_def one_shot_buffers_def)
  note wf1 = prepared_wf [OF wf, of source "int (length src)", folded st1_def]
  note inp = continue_input [OF ready, of a, folded c_def st1_def]
  have "1 \<le> a" "a \<le> 2 ^ 25" using acc by (auto simp: a_def)
  from compress_generic_spec [of st1 source dest src n limitedOutput byU32 dct issue a, unfolded c, OF inp(1-4) this inp(5)] size(1)
  obtain m' T r where r: "LZ4_compress_generic m st1 source dest (int (length src)) n limitedOutput byU32 dct issue a =
      Some (m', st1\<lparr>hashTable := T\<rparr>, r)"
    "if length src < 13 then T = hashTable st1 else table_ok c hist T (source + int (length src) - 11)"
    "\<not> bound_room c src (olimit c) \<and> r = 0 \<and> same_dom m m' \<and> same_outside m m' dest (dest + fast_output src n) \<or>
     compressed_to m m' dest (dest + fast_output src n) hist src r \<and> r \<le> n" by auto
  have mods: "(dictSize st1 + int (length src)) mod 4294967296 = dictSize st1 + int (length src)"
    "(currentOffset st1 + int (length src)) mod 4294967296 = currentOffset st1 + int (length src)"
    "int (length src) mod 4294967296 = int (length src)"
    using wf1(1,2) size by (auto simp: stream_wf_def)
  have "initCheck st = 0" using wf by (simp add: stream_wf_def)
  then have run: "LZ4_compress_fast_continue m st source dest (int (length src)) n accel =
      Some (m', st1\<lparr>hashTable := T, dictionary := (if prefix then dictionary st1 else source),
          dictSize := (if prefix then dictSize st1 + int (length src) else int (length src)),
          currentOffset := currentOffset st1 + int (length src)\<rparr>, r)"
    using r(1) mods unfolding LZ4_compress_fast_continue_def Let_def a_def [symmetric]
      prepared_def [unfolded Let_def, symmetric] st1_def [symmetric] issue_def [symmetric]
    by (auto simp: dct_def prefix_def)
  have "base c = source - currentOffset st1" "c_dest c = dest" "tableType c = byU32" "olimit c = dest + n"
    by (simp_all add: c [symmetric] cmp_env_of_def dct_def)
  then show ?thesis
    using run r(2,3) size by (force simp: table_ok_def bound_room_def compressBound_eq split: if_splits)
qed

lemma fast_continue_spec:
  assumes ready: "continue_ready m st source src dest n hist" and acc: "accel \<le> 2 ^ 25"
    and tiny: "currentOffset (prepared st source (int (length src))) = 0 \<longrightarrow> src = [] \<or> 4 \<le> length src"
  shows "\<exists>m' st' r. LZ4_compress_fast_continue m st source dest (int (length src)) n accel = Some (m', st', r) \<and>
    stream_wf st' \<and> same_dom m m' \<and> same_outside m m' dest (dest + fast_output src n) \<and>
    dict_at st' m' (if dictionary st + dictSize st = source then hist @ src else src) \<and>
    dictionary st' + dictSize st' = source + int (length src) \<and>
    (r = 0 \<and> n < LZ4_compressBound (int (length src)) \<or> compressed_to m m' dest (dest + fast_output src n) hist src r \<and> r \<le> n)"
proof -
  define st1 where "st1 = prepared st source (int (length src))"
  define prefix where "prefix \<longleftrightarrow> dictionary st + dictSize st = source"
  have wf: "stream_wf st" and at: "dict_at st1 m hist" and bufs: "one_shot_buffers m source src dest (fast_output src n)"
    "dest + fast_output src n \<le> dictionary st1 \<or> dictionary st + dictSize st \<le> dest"
    using ready by (auto simp: continue_ready_def st1_def)
  note wf1 = prepared_wf [OF wf, of source "int (length src)", folded st1_def]
  obtain m' T r where r: "LZ4_compress_fast_continue m st source dest (int (length src)) n accel =
      Some (m', st1\<lparr>hashTable := T, dictionary := (if prefix then dictionary st1 else source),
          dictSize := (if prefix then dictSize st1 + int (length src) else int (length src)),
          currentOffset := currentOffset st1 + int (length src)\<rparr>, r)" (is "_ = Some (_, ?st, _)")
    and T: "if length src < 13 then T = hashTable st1
     else \<forall>h < HASH_SIZE byU32. 0 \<le> T h \<and> T h + 4 \<le> currentOffset st1 + int (length src)"
    and res: "r = 0 \<and> n < LZ4_compressBound (int (length src)) \<and> same_dom m m' \<and> same_outside m m' dest (dest + fast_output src n) \<or>
     compressed_to m m' dest (dest + fast_output src n) hist src r \<and> r \<le> n"
    using continue_run [OF ready acc, folded st1_def prefix_def] by blast
  have mem: "same_dom m m'" "same_outside m m' dest (dest + fast_output src n)"
    using res by (auto simp: compressed_to_def emits_def)
  have "\<forall>h < HASH_SIZE byU32. 0 \<le> T h \<and>
      (T h + 4 \<le> currentOffset st1 + int (length src) \<or> currentOffset st1 + int (length src) = 0 \<and> T h = 0)"
    using T wf1(1) tiny [folded st1_def] by (fastforce simp: stream_wf_def split: if_splits)
  then have "stream_wf ?st"
    using wf1 bufs(1) by (auto simp: stream_wf_def one_shot_buffers_def)
  moreover have "bytes_at m' source src"
    using bufs(1) by (intro bytes_at_same [OF _ mem(2)]) (auto simp: one_shot_buffers_def)
  moreover have "bytes_at m' (dictionary st1) hist"
    using at bufs(2) wf1(3) by (intro bytes_at_same [OF _ mem(2)]) (auto simp: dict_at_def)
  ultimately show ?thesis
    using r mem res at wf1(3) unfolding prefix_def [symmetric]
    by (intro exI [of _ m'] exI [of _ ?st] exI [of _ r]) (auto simp: dict_at_def prefix_def bytes_at_append)
qed

section \<open>Saving a dictionary\<close>

lemma saveDict_spec:
  assumes wf: "stream_wf st" and at: "dict_at st m hist" and k: "0 \<le> k" "k < 2 ^ 31"
    and buf: "mapped m safe (safe + min (min k 65536) (int (length hist)))"
  defines "n \<equiv> nat (min (min k 65536) (int (length hist)))"
  shows "\<exists>m' st'. LZ4_saveDict m st safe k = Some (m', st', int n) \<and> stream_wf st' \<and>
    dict_at st' m' (drop (length hist - n) hist) \<and> dictionary st' = safe \<and> same_outside m m' safe (safe + int n)"
proof -
  have size: "dictSize st = int (length hist)" and hist: "bytes_at m (dictionary st) hist" using at by (auto simp: dict_at_def)
  have n: "n \<le> length hist" "n \<le> 65536" "int n = min (min k 65536) (int (length hist))" using k by (auto simp: n_def)
  have n_eq: "(if (if k mod 2 ^ 32 > 65536 then 65536 else k) mod 2 ^ 32 > dictSize st
      then (dictSize st + 2 ^ 31) mod 2 ^ 32 - 2 ^ 31
      else (if k mod 2 ^ 32 > 65536 then 65536 else k)) = int n"
    using k size n(3) by (auto simp: min_def)
  let ?xs = "drop (length hist - n) hist"
  have xs: "bytes_at m (dictionary st + dictSize st - int n) ?xs"
    using bytes_at_slice [OF hist, of "length hist - n" n] n(1) size by (simp add: of_nat_diff algebra_simps)
  have len: "length ?xs = n" using n(1) by simp
  from copied_emits [OF xs, of safe "safe + int n"] buf n len
  obtain m' where m': "memmove m safe (dictionary st + dictSize st - int n) (int n) = Some m'"
    "emits m m' safe ?xs (safe + int n)" by auto
  have "LZ4_saveDict m st safe k = Some (m', st\<lparr>dictionary := safe, dictSize := int n\<rparr>, int n)"
    using m'(1) n(2) unfolding LZ4_saveDict_def Let_def n_eq by simp
  moreover have "stream_wf (st\<lparr>dictionary := safe, dictSize := int n\<rparr>)"
    using wf n(1) size by (auto simp: stream_wf_def)
  ultimately show ?thesis
    using m'(2) len n(1) by (auto simp: dict_at_def emits_def)
qed

section \<open>Streams of blocks\<close>

definition fast_holds :: "LZ4_stream_t_internal \<Rightarrow> mem \<Rightarrow> addr \<Rightarrow> addr \<Rightarrow> byte list \<Rightarrow> bool" where
  "fast_holds st m lo source hist \<longleftrightarrow>
     stream_wf st \<and> dict_at st m hist \<and> lo \<le> source \<and>
     (dictionary st + dictSize st = source \<and> lo \<le> dictionary st \<or> st = LZ4_resetStream)"

definition fast_fits :: "byte list \<Rightarrow> bool" where
  "fast_fits b \<longleftrightarrow> 4 \<le> length b \<and> int (length b) \<le> LZ4_MAX_INPUT_SIZE"

lemma fast_holds_ready:
  assumes h: "fast_holds st m lo source hist" and b: "fast_fits b" "bytes_at m source b" "0 < lo" "0 \<le> buf" "mapped m buf (buf + cap)"
    and away: "source + int (length b) \<le> buf \<or> buf + cap \<le> lo" and cap: "LZ4_compressBound (int (length b)) \<le> cap" "cap < 2 ^ 31"
  shows "\<exists>xs hist1. hist = xs @ hist1 \<and> continue_ready m st source b buf cap hist1"
proof -
  have at: "dict_at st m hist" and wf: "stream_wf st" and pos: "lo \<le> source"
      "dictionary st + dictSize st = source \<and> lo \<le> dictionary st \<or> st = LZ4_resetStream"
    using h by (auto simp: fast_holds_def)
  define st1 where "st1 = prepared st source (int (length b))"
  note wf1 = prepared_wf [OF wf, of source "int (length b)", folded st1_def]
  have ge: "0 \<le> dictSize st1" using wf1(1) by (simp add: stream_wf_def)
  let ?hist = "drop (length hist - nat (dictSize st1)) hist"
  have "dict_at st1 m ?hist"
    using dict_at_suffix [OF at wf1(3) ge wf1(4)] .
  moreover have size: "0 < cap" "int (length b) \<le> LZ4_MAX_INPUT_SIZE" "fast_output b cap = cap"
    using b(1) cap(1) compressBound_eq [of "int (length b)"] fast_output_bound [of b cap] by (auto simp: fast_fits_def)
  moreover have "one_shot_buffers m source b buf cap"
    using b away pos(1) size(2) by (auto simp: one_shot_buffers_def)
  moreover have "buf + cap \<le> dictionary st1 \<or> dictionary st + dictSize st \<le> buf"
    using pos away b wf1(3,4) by (auto simp: LZ4_resetStream_def)
  moreover have "dictionary st + dictSize st = source \<or> dictionary st1 \<noteq> source"
    using pos b(3) wf1(3,4) ge by (auto simp: LZ4_resetStream_def)
  ultimately have "continue_ready m st source b buf cap ?hist"
    using wf cap(2) by (auto simp: continue_ready_def st1_def)
  moreover have "hist = take (length hist - nat (dictSize st1)) hist @ ?hist" by simp
  ultimately show ?thesis by blast
qed

lemma fast_compress_block:
  assumes acc: "accel \<le> 2 ^ 25" and h: "fast_holds st m lo source hist" and b: "fast_fits b" "0 < lo" "0 \<le> buf" "bytes_at m source b" "mapped m buf (buf + cap)"
    and away: "source + int (length b) \<le> buf \<or> buf + cap \<le> lo" and cap: "LZ4_compressBound (int (length b)) \<le> cap" "cap < 2 ^ 31"
  shows "\<exists>m' st' r xs hist1 ys hist2. LZ4_compress_fast_continue m st source buf (int (length b)) cap accel = Some (m', st', r) \<and>
    hist = xs @ hist1 \<and> compressed_to m m' buf (buf + cap) hist1 b r \<and>
    hist @ b = ys @ hist2 \<and> fast_holds st' m' lo (source + int (length b)) hist2"
proof -
  obtain xs hist1 where ready: "hist = xs @ hist1" "continue_ready m st source b buf cap hist1"
    using fast_holds_ready [OF h b(1,4,2,3,5) away cap] by blast
  have wf: "stream_wf st" "lo \<le> source" "dictionary st + dictSize st = source \<and> lo \<le> dictionary st \<or> st = LZ4_resetStream"
    using h by (auto simp: fast_holds_def)
  let ?hist = "if dictionary st + dictSize st = source then hist1 @ b else b"
  obtain m1 st1 r where c: "LZ4_compress_fast_continue m st source buf (int (length b)) cap accel = Some (m1, st1, r)"
    "stream_wf st1" "dict_at st1 m1 ?hist"
    "dictionary st1 + dictSize st1 = source + int (length b)" "compressed_to m m1 buf (buf + cap) hist1 b r"
    using fast_continue_spec [OF ready(2) acc] b(1) cap(1) fast_output_bound [OF cap(1)] by (auto simp: fast_fits_def)
  have "int (length hist1) \<le> dictSize st"
    using ready(2) prepared_wf(4) [OF wf(1), of source "int (length b)"] by (auto simp: continue_ready_def dict_at_def)
  then have "lo \<le> dictionary st1"
    using c(3,4) wf(2,3) by (auto simp: dict_at_def LZ4_resetStream_def split: if_splits)
  then have "fast_holds st1 m1 lo (source + int (length b)) ?hist"
    using c wf(2) by (simp add: fast_holds_def)
  moreover have "\<exists>ys. hist @ b = ys @ ?hist" using ready(1) by auto
  ultimately show ?thesis using c(1,5) ready(1) by blast
qed

text \<open>The contract of a stream of blocks holds for every acceleration up to \<open>2 ^ 25\<close>.\<close>

interpretation fast_stream: block_stream
  "\<lambda>m st source buf n cap. LZ4_compress_fast_continue m st source buf n cap (min accel (2 ^ 25))" fast_holds fast_fits
proof
  show "fast_holds st m' lo source hist"
    if h: "fast_holds st m lo source hist" and same: "\<And>a. lo \<le> a \<Longrightarrow> a < source \<Longrightarrow> m' a = m a" for st m m' lo source hist
  proof -
    have "bytes_at m' (dictionary st) hist"
      using h same by (auto simp: fast_holds_def dict_at_def bytes_at_iff LZ4_resetStream_def)
    then have "dict_at st m' hist" using h by (simp add: fast_holds_def dict_at_def)
    then show ?thesis using h by (simp add: fast_holds_def)
  qed
qed ((rule fast_compress_block [OF min.cobounded2]; assumption), simp add: fast_holds_def, auto simp: fast_fits_def)

end
