(* ===== verification/LZ4_Stream_Roundtrip.thy ===== *)
theory LZ4_Stream_Roundtrip
  imports LZ4_Stream_Correct
begin

text \<open>
  What the streaming interface promises, and where the decompressors disagree on the data before a block.
\<close>

section \<open>Theorems\<close>

text \<open>
  C3: compressing any number of blocks that follow each other in memory with
  \<open>LZ4_compress_fast_continue\<close>, each one against the data before it, and decompressing each with
  \<open>LZ4_decompress_safe_continue\<close> behind the data decompressed so far gives all the data back, for
  every acceleration of at most \<open>2 ^ 25\<close>. Every block has at least 4 and at most \<open>LZ4_MAX_INPUT_SIZE\<close>
  bytes, and the buffer between the two has the size that \<open>LZ4_compressBound\<close> asks for.
\<close>

theorem LZ4_stream_roundtrip:
  assumes "bytes_at m source (concat bs)"
    and "areas m source (source + int (length (concat bs))) buf cap out (out + int (length (concat bs)))"
    and "\<forall>b \<in> set bs. 4 \<le> length b \<and> int (length b) \<le> LZ4_MAX_INPUT_SIZE \<and> LZ4_compressBound (int (length b)) \<le> cap"
    and "accel \<le> 2 ^ 25"
  shows "\<exists>m' st sd. stream_blocks (\<lambda>m st source buf n cap. LZ4_compress_fast_continue m st source buf n cap accel) m
      LZ4_resetStream (fst (LZ4_setStreamDecode out 0)) source buf cap out bs = Some (m', st, sd) \<and>
    bytes_at m' out (concat bs)"
  using fast_stream.stream_blocks_spec [of LZ4_resetStream m source bs buf cap out accel] assms reset_wf
  by (simp add: fast_holds_def fast_fits_def)

definition stream_example :: mem where
  "stream_example = (\<lambda>i. if 1 \<le> i \<and> i \<le> 64 then Some (word_of_int (i * i))
     else if 100 \<le> i \<and> i < 200 \<or> 300 \<le> i \<and> i < 400 then Some 0 else None)"

lemma stream_example_areas:
  "bytes_at stream_example 1 (map (\<lambda>i. word_of_int (i * i)) [1..64])"
  "areas stream_example 1 65 100 90 300 364"
  by (auto simp: stream_example_def bytes_at_iff areas_def mapped_def)

theorem LZ4_stream_roundtrip_witness:
  "\<exists>m' st sd. stream_blocks (\<lambda>m st source buf n cap. LZ4_compress_fast_continue m st source buf n cap 5)
      stream_example LZ4_resetStream (fst (LZ4_setStreamDecode 300 0)) 1 100 90 300
      [map (\<lambda>i. word_of_int (i * i)) [1..40], map (\<lambda>i. word_of_int (i * i)) [41..64]] = Some (m', st, sd) \<and>
     bytes_at m' 300 (map (\<lambda>i. word_of_int (i * i)) [1..64])"
proof -
  let ?bs = "[map (\<lambda>i. word_of_int (i * i)) [1..40], map (\<lambda>i. word_of_int (i * i)) [41..64]] :: byte list list"
  have "[1..40] @ [41..64] = [1..(64 :: int)]" using upto_split2 [of 1 40 64] by simp
  then have bs: "concat ?bs = map (\<lambda>i. word_of_int (i * i)) [1..64]"
    by (simp only: concat.simps append_Nil2 map_append [symmetric])
  have "bytes_at stream_example 1 (concat ?bs)"
    "areas stream_example 1 (1 + int (length (concat ?bs))) 100 90 300 (300 + int (length (concat ?bs)))"
    unfolding bs using stream_example_areas by simp_all
  moreover have "\<forall>b \<in> set ?bs. 4 \<le> length b \<and> int (length b) \<le> LZ4_MAX_INPUT_SIZE \<and> LZ4_compressBound (int (length b)) \<le> 90"
    by (simp add: compressBound_eq)
  ultimately show ?thesis
    using LZ4_stream_roundtrip [of stream_example 1 ?bs 100 90 300 5] unfolding bs by simp
qed





section \<open>The dictionary of the fast streaming decompressor\<close>

lemma decompress_fast_extDict:
  assumes "lz4_block d ss ls" "bytes_at m source (ser_block ss 0 ls)"
    and "io_buffers m source (int (length (ser_block ss 0 ls))) dest (int (block_size ss ls))"
    and "bytes_at m dictStart d" "dictStart + int (length d) \<le> dest \<or> dest + int (block_size ss ls) \<le> dictStart"
  shows "decodes_to (LZ4_decompress_generic m source dest 0 (int (block_size ss ls))
      endOnOutputSize full 0 usingExtDict dest dictStart (int (length d)))
    m dest (int (block_size ss ls)) (int (length (ser_block ss 0 ls))) (decode d ss ls)"
proof -
  have "\<exists>m'. LZ4_decompress_generic m source dest 0 (int (block_size ss ls))
      endOnOutputSize full 0 usingExtDict dest dictStart (int (length d)) =
      Some (m', if endOnOutputSize = endOnInputSize then int (block_size ss ls)
                else int (length (ser_block ss 0 ls))) \<and>
    same_dom m m' \<and> same_outside m m' dest (dest + int (block_size ss ls)) \<and> bytes_at m' dest (decode d ss ls)"
    using assms by (intro decompress_generic_complete io_buffers_ok hist_at_extDict [of _ dictStart])
      (auto simp: dec_env_simps io_buffers_def)
  then show ?thesis by (auto simp: decodes_to_def)
qed

lemma lz4_block_length: "length d = length d' \<Longrightarrow> lz4_block d ss ls \<Longrightarrow> lz4_block d' ss ls"
proof -
  have "seqs_ok h ss \<Longrightarrow> length h = length h' \<Longrightarrow> seqs_ok h' ss" for h h'
    by (induction ss arbitrary: h h') (auto simp: seq_ok_def apply_seq_def length_match_bytes)
  then show "length d = length d' \<Longrightarrow> lz4_block d ss ls \<Longrightarrow> lz4_block d' ss ls" by (auto simp: lz4_block_def)
qed

text \<open>
  C27: a block that refers to the data before it, decompressed to a place \<open>dest\<close> that is not behind the
  data decompressed so far, \<open>d\<close>. \<open>LZ4_decompress_safe_continue\<close> decodes it after \<open>d\<close>, as it should.
  \<open>LZ4_decompress_fast_continue\<close> decodes it after the bytes \<open>d'\<close> that happen to stand before \<open>dest\<close>,
  whatever they are: it does not read \<open>d\<close> at all.
\<close>

theorem LZ4_decompress_fast_continue_moved:
  assumes "lz4_block d ss ls" "bytes_at m source (ser_block ss 0 ls)"
    and "io_buffers m source (int (length (ser_block ss 0 ls))) dest (int (block_size ss ls))"
    and "prefixSize sd = int (length d)" "bytes_at m (prefixEnd sd - int (length d)) d"
    and "prefixEnd sd \<noteq> dest" "prefixEnd sd \<le> dest \<or> dest + int (block_size ss ls) \<le> prefixEnd sd - int (length d)"
    and "length d' = length d" "bytes_at m (dest - int (length d)) d'"
  shows "(\<exists>m' sd'. LZ4_decompress_safe_continue m sd source dest (int (length (ser_block ss 0 ls))) (int (block_size ss ls)) =
      Some (m', sd', int (block_size ss ls)) \<and> bytes_at m' dest (decode d ss ls)) \<and>
    (\<exists>m' sd'. LZ4_decompress_fast_continue m sd source dest (int (block_size ss ls)) =
      Some (m', sd', int (length (ser_block ss 0 ls))) \<and> bytes_at m' dest (decode d' ss ls))"
proof -
  have "decodes_to (LZ4_decompress_generic m source dest (int (length (ser_block ss 0 ls))) (int (block_size ss ls))
      endOnInputSize full 0 usingExtDict dest (prefixEnd sd - int (length d)) (int (length d)))
    m dest (int (block_size ss ls)) (int (block_size ss ls)) (decode d ss ls)"
    using assms by (intro decompress_safe_extDict) auto
  moreover have "lz4_block d' ss ls" using lz4_block_length [of d d'] assms(1,8) by simp
  from decompress_fast_extDict [OF this assms(2,3), of "dest - int (length d)"] assms(8,9)
  have "decodes_to (LZ4_decompress_generic m source dest 0 (int (block_size ss ls))
      endOnOutputSize full 0 usingExtDict dest (dest - int (length d)) (int (length d)))
    m dest (int (block_size ss ls)) (int (length (ser_block ss 0 ls))) (decode d' ss ls)" by simp
  ultimately show ?thesis
    using assms(4,6)
    by (auto simp: decodes_to_def LZ4_decompress_safe_continue_def LZ4_decompress_fast_continue_def Let_def)
qed

definition moved_mem :: mem where
  "moved_mem = (\<lambda>i. if 1 \<le> i \<and> i \<le> 8 then Some (word_of_int i)
     else if 11 \<le> i \<and> i < 20 then Some ([4, 8, 0, 80, 21, 22, 23, 24, 25] ! nat (i - 11))
     else if 40 \<le> i \<and> i < 80 then Some 0 else None)"

theorem LZ4_decompress_fast_continue_moved_witness:
  "(\<exists>m' sd'. LZ4_decompress_safe_continue moved_mem (fst (LZ4_setStreamDecode 1 8)) 11 50 9 13 = Some (m', sd', 13) \<and>
     bytes_at m' 50 [1, 2, 3, 4, 5, 6, 7, 8, 21, 22, 23, 24, 25]) \<and>
   (\<exists>m' sd'. LZ4_decompress_fast_continue moved_mem (fst (LZ4_setStreamDecode 1 8)) 11 50 13 = Some (m', sd', 9) \<and>
     bytes_at m' 50 [0, 0, 0, 0, 0, 0, 0, 0, 21, 22, 23, 24, 25])"
proof -
  define ss ls where "ss = [\<lparr>lits = [], moff = 8, mlen = 8\<rparr>]" and "ls = [21, 22, 23, 24, 25 :: byte]"
  let ?d = "[1, 2, 3, 4, 5, 6, 7, 8] :: byte list" and ?e = "[0, 0, 0, 0, 0, 0, 0, 0] :: byte list"
  have ser: "ser_block ss 0 ls = [4, 8, 0, 80, 21, 22, 23, 24, 25]" "block_size ss ls = 13"
    "decode ?d ss ls = [1, 2, 3, 4, 5, 6, 7, 8, 21, 22, 23, 24, 25]"
    "decode ?e ss ls = [0, 0, 0, 0, 0, 0, 0, 0, 21, 22, 23, 24, 25]"
    unfolding ss_def ls_def by (code_simp)+
  have block: "lz4_block ?d ss ls" by (simp add: lz4_block_def ss_def ls_def seq_ok_def end_ok_def)
  have "bytes_at moved_mem 11 [4, 8, 0, 80, 21, 22, 23, 24, 25]" "bytes_at moved_mem 1 ?d" "bytes_at moved_mem 42 ?e"
    "io_buffers moved_mem 11 9 50 13"
    by (auto simp: moved_mem_def io_buffers_def mapped_def)
  with LZ4_decompress_fast_continue_moved [OF block, of moved_mem 11 50 "fst (LZ4_setStreamDecode 1 8)" ?e]
  show ?thesis by (simp add: ser LZ4_setStreamDecode_def)
qed

end
