(* ===== verification/LZ4_DestSize.thy ===== *)
theory LZ4_DestSize
  imports LZ4_Compress_Fast
begin

text \<open>
  \<open>LZ4_compress_destSize\<close> of \<^verbatim>\<open>lz4.c\<close>: compress as much of the input as fits into an output
  buffer of a given size.
\<close>

section \<open>Definitions\<close>

text \<open>
  The search for a match and the catch-up loop of \<open>LZ4_compress_destSize_generic\<close> are those of
  \<open>LZ4_compress_generic\<close> with no dictionary and an acceleration of 1, and are not repeated.
  The limits on the output are \<open>oMaxLit\<close> for literals, \<open>oMaxMatch\<close> for match lengths and
  \<open>oMaxSeq\<close> for the start of another sequence.
\<close>

definition oMaxLit :: "addr \<Rightarrow> int \<Rightarrow> addr" where
  "oMaxLit dst targetDstSize = dst + targetDstSize - 2 - 8 - 1"

definition oMaxMatch :: "addr \<Rightarrow> int \<Rightarrow> addr" where
  "oMaxMatch dst targetDstSize = dst + targetDstSize - (LASTLITERALS + 1)"

definition oMaxSeq :: "addr \<Rightarrow> int \<Rightarrow> addr" where
  "oMaxSeq dst targetDstSize = oMaxLit dst targetDstSize - 1"

text \<open>\<open>Inl\<close> is the jump to \<open>_last_literals\<close>, with \<open>op\<close> as it was.\<close>

definition LZ4_destSize_literals ::
  "mem \<Rightarrow> addr \<Rightarrow> addr \<Rightarrow> addr \<Rightarrow> addr \<Rightarrow> (unit + mem \<times> addr) option" where
  "LZ4_destSize_literals m op anchor ip limit =
     (let litLength = ip - anchor;
          token = op;
          op = op + 1
      in if op + (litLength + 240) div 255 + litLength > limit
         then Some (Inl ())
         else do {
           (m, op) \<leftarrow> LZ4_put_token m token litLength;
           m \<leftarrow> LZ4_wildCopy m op anchor (op + litLength);
           Some (Inr (m, op + litLength)) })"

definition LZ4_destSize_matchLength :: "mem \<Rightarrow> addr \<Rightarrow> addr \<Rightarrow> int \<Rightarrow> (mem \<times> addr) option" where
  "LZ4_destSize_matchLength m token op matchLength =
     do { t \<leftarrow> m token;
          if matchLength \<ge> ML_MASK
          then do { m \<leftarrow> store m token (t + cast_byte ML_MASK);
                    LZ4_put_length m op (matchLength - ML_MASK) }
          else do { m \<leftarrow> store m token (t + cast_byte matchLength); Some (m, op) } }"

text \<open>
  From \<open>_next_match\<close> on: \<open>Inl\<close> is \<open>break\<close> with the new \<open>anchor\<close> and \<open>op\<close>, \<open>Inr\<close> the next turn
  of the main loop with \<open>ip\<close>, \<open>anchor\<close>, \<open>op\<close> and \<open>forwardH\<close>.
\<close>

partial_function (option) LZ4_destSize_next_match ::
  "cmp_env \<Rightarrow> int \<Rightarrow> mem \<Rightarrow> hashtable \<Rightarrow> addr \<Rightarrow> addr \<Rightarrow> addr \<Rightarrow> addr \<Rightarrow>
   (mem \<times> hashtable \<times> addr \<times> addr + mem \<times> hashtable \<times> addr \<times> addr \<times> addr \<times> nat) option" where
  "LZ4_destSize_next_match c targetDstSize m table ip match token op =
     do { m \<leftarrow> LZ4_writeLE16 m op (word_of_int (ip - match));
          let op = op + 2;
          matchLength \<leftarrow> LZ4_count m (ip + MINMATCH) (match + MINMATCH) (matchlimit c);
          let matchLength =
            (if op + (matchLength + 240) div 255 > oMaxMatch (c_dest c) targetDstSize
             then (15 - 1) + (oMaxMatch (c_dest c) targetDstSize - op) * 255
             else matchLength);
          let ip = ip + MINMATCH + matchLength;
          (m, op) \<leftarrow> LZ4_destSize_matchLength m token op matchLength;
          let anchor = ip;
          if ip > mflimit c then Some (Inl (m, table, anchor, op))
          else if op > oMaxSeq (c_dest c) targetDstSize then Some (Inl (m, table, anchor, op))
          else do {
            table \<leftarrow> LZ4_putPosition m (ip - 2) table (tableType c) (base c);
            match \<leftarrow> LZ4_getPosition m ip table (tableType c) (base c);
            table \<leftarrow> LZ4_putPosition m ip table (tableType c) (base c);
            again \<leftarrow> (if match + MAX_DISTANCE \<ge> ip
                      then do { a \<leftarrow> LZ4_read32 m match;
                                b \<leftarrow> LZ4_read32 m ip;
                                Some (a = b) }
                      else Some False);
            if again
            then do { let token = op;
                      m \<leftarrow> store m token 0;
                      LZ4_destSize_next_match c targetDstSize m table ip match token (op + 1) }
            else do { forwardH \<leftarrow> LZ4_hashPosition m (ip + 1) (tableType c);
                      Some (Inr (m, table, ip + 1, anchor, op, forwardH)) } } }"

text \<open>\<open>_last_literals\<close>; the results are \<open>*srcSizePtr\<close> and the value returned.\<close>

definition LZ4_destSize_last ::
  "cmp_env \<Rightarrow> int \<Rightarrow> mem \<Rightarrow> addr \<Rightarrow> addr \<Rightarrow> (mem \<times> int \<times> int) option" where
  "LZ4_destSize_last c targetDstSize m anchor op =
     (let oend = c_dest c + targetDstSize;
          lastRunSize = c_iend c - anchor;
          lastRunSize =
            (if op + 1 + (lastRunSize + 240) div 255 + lastRunSize > oend
             then let lastRunSize = (oend - op) - 1
                  in lastRunSize - (lastRunSize + 240) div 255
             else lastRunSize);
          ip = anchor + lastRunSize
      in do {
        (m, op) \<leftarrow> LZ4_put_token m op lastRunSize;
        m \<leftarrow> memcpy m op anchor lastRunSize;
        Some (m, cast_int (ip - c_source c), cast_int (op + lastRunSize - c_dest c)) })"

partial_function (option) LZ4_destSize_loop ::
  "cmp_env \<Rightarrow> int \<Rightarrow> mem \<Rightarrow> hashtable \<Rightarrow> addr \<Rightarrow> addr \<Rightarrow> addr \<Rightarrow> nat \<Rightarrow> (mem \<times> hashtable \<times> int \<times> int) option" where
  "LZ4_destSize_loop c targetDstSize m table ip anchor op forwardH =
     do { found \<leftarrow> LZ4_find_match c m table ip forwardH 1 (push_bit LZ4_skipTrigger 1) (0, c_source c);
          case found of
            Inl table \<Rightarrow> do { (m, n, r) \<leftarrow> LZ4_destSize_last c targetDstSize m anchor op; Some (m, table, n, r) }
          | Inr (table, ip, match, cur) \<Rightarrow>
              do { (ip, match) \<leftarrow> LZ4_catch_up m anchor cur ip match;
                   let token = op;
                   lits \<leftarrow> LZ4_destSize_literals m op anchor ip (oMaxLit (c_dest c) targetDstSize);
                   case lits of
                     Inl _ \<Rightarrow> do { (m, n, r) \<leftarrow> LZ4_destSize_last c targetDstSize m anchor op; Some (m, table, n, r) }
                   | Inr (m, op) \<Rightarrow>
                       do { r \<leftarrow> LZ4_destSize_next_match c targetDstSize m table ip match token op;
                            case r of
                              Inl (m, table, anchor, op) \<Rightarrow>
                                do { (m, n, r) \<leftarrow> LZ4_destSize_last c targetDstSize m anchor op; Some (m, table, n, r) }
                            | Inr (m, table, ip, anchor, op, forwardH) \<Rightarrow>
                                LZ4_destSize_loop c targetDstSize m table ip anchor op forwardH } } }"

text \<open>The results are the new context, \<open>*srcSizePtr\<close> and the value returned.\<close>

definition LZ4_compress_destSize_generic ::
  "mem \<Rightarrow> LZ4_stream_t_internal \<Rightarrow> addr \<Rightarrow> addr \<Rightarrow> int \<Rightarrow> int \<Rightarrow> tableType_t \<Rightarrow>
   (mem \<times> LZ4_stream_t_internal \<times> int \<times> int) option" where
  "LZ4_compress_destSize_generic m ctx src dst srcSize targetDstSize tt =
     (let c = cmp_env_of ctx src dst srcSize targetDstSize notLimited tt noDict noDictIssue 1
      in if targetDstSize < 1 then Some (m, ctx, srcSize, 0)
         else if cast_u32 srcSize > LZ4_MAX_INPUT_SIZE then Some (m, ctx, srcSize, 0)
         else if tt = byU16 \<and> srcSize \<ge> LZ4_64Klimit then Some (m, ctx, srcSize, 0)
         else if srcSize < LZ4_minLength
         then do { (m, n, r) \<leftarrow> LZ4_destSize_last c targetDstSize m src dst; Some (m, ctx, n, r) }
         else do { table \<leftarrow> LZ4_putPosition m src (hashTable ctx) tt (base c);
                   forwardH \<leftarrow> LZ4_hashPosition m (src + 1) tt;
                   (m, table, n, r) \<leftarrow> LZ4_destSize_loop c targetDstSize m table (src + 1) src dst forwardH;
                   Some (m, ctx\<lparr>hashTable := table\<rparr>, n, r) })"

declare LZ4_destSize_next_match.simps [code] LZ4_destSize_loop.simps [code]

definition LZ4_compress_destSize_extState ::
  "mem \<Rightarrow> addr \<Rightarrow> addr \<Rightarrow> int \<Rightarrow> int \<Rightarrow> (mem \<times> LZ4_stream_t_internal \<times> int \<times> int) option" where
  "LZ4_compress_destSize_extState m src dst srcSize targetDstSize =
     (if targetDstSize \<ge> LZ4_compressBound srcSize
      then do { (m, state, r) \<leftarrow> LZ4_compress_fast_extState m src dst srcSize targetDstSize 1;
                Some (m, state, srcSize, r) }
      else if srcSize < LZ4_64Klimit
      then LZ4_compress_destSize_generic m LZ4_resetStream src dst srcSize targetDstSize byU16
      else LZ4_compress_destSize_generic m LZ4_resetStream src dst srcSize targetDstSize
             (if LZ4_64bits then byU32 else byPtr))"

definition LZ4_compress_destSize ::
  "mem \<Rightarrow> addr \<Rightarrow> addr \<Rightarrow> int \<Rightarrow> int \<Rightarrow> (mem \<times> int \<times> int) option" where
  "LZ4_compress_destSize m src dst srcSize targetDstSize =
     do { (m, ctx, n, r) \<leftarrow> LZ4_compress_destSize_extState m src dst srcSize targetDstSize;
          Some (m, n, r) }"

section \<open>Room at the end\<close>

text \<open>
  After the sequences \<open>ss\<close> there is room for the last literals that the format demands.
\<close>

definition tail_room :: "lz4_seq list \<Rightarrow> addr \<Rightarrow> addr \<Rightarrow> bool" where
  "tail_room ss op lim \<longleftrightarrow> op + 1 \<le> lim \<and> (ss \<noteq> [] \<longrightarrow> op + 6 \<le> lim \<and> 4 \<le> mlen (last ss) \<and>
     (mlen (last ss) < 19 \<longrightarrow> op + 9 \<le> lim))"

text \<open>A last run cut to what fits.\<close>

lemma cut_run:
  fixes F op lim :: int
  assumes F: "0 \<le> F" and op: "op + 1 \<le> lim"
  defines "l \<equiv> lim - op - 1"
  defines "R \<equiv> (if op + 1 + (F + 240) div 255 + F > lim then l - (l + 240) div 255 else F)"
  shows "0 \<le> R" "R \<le> F" "op + 1 + (R + 240) div 255 + R \<le> lim" "R = F \<or> R = l - (l + 240) div 255"
    "R < F \<Longrightarrow> lim \<le> op + 1 + (R + 240) div 255 + R + 2 + (lim - op) div 65025"
proof -
  define q a where "q = (l + 240) div 255" and "a = (F + 240) div 255"
  have l: "0 \<le> l" using op by (simp add: l_def)
  have q: "255 * q \<le> l + 240" "l + 240 < 255 * q + 255" and a: "255 * a \<le> F + 240" "F + 240 < 255 * a + 255"
    by (simp_all add: q_def a_def)
  define r where "r = (R + 240) div 255"
  have r: "255 * r \<le> R + 240" "R + 240 < 255 * r + 255" by (simp_all add: r_def)
  have R: "R = (if op + 1 + a + F > lim then l - q else F)" by (simp add: R_def q_def a_def)
  show "R = F \<or> R = l - (l + 240) div 255" by (simp add: R_def)
  show "0 \<le> R" using F q l R by (auto split: if_splits)
  have ov: "R \<le> F \<and> op + 1 + r + R \<le> lim" 
  proof (cases "op + 1 + a + F > lim")
    case True
    then have "R = l - q" "l < a + F" using R by (auto simp: l_def)
    then show ?thesis using q a r l by (simp add: l_def)
  next
    case False
    then have "R = F" using R by simp
    then have "r = a" by (simp add: r_def a_def)
    then show ?thesis using False \<open>R = F\<close> by simp
  qed
  then show "R \<le> F" "op + 1 + (R + 240) div 255 + R \<le> lim" by (simp_all add: r_def)
  show "lim \<le> op + 1 + (R + 240) div 255 + R + 2 + (lim - op) div 65025" if "R < F"
  proof -
    define d where "d = (lim - op) div 65025"
    have d: "lim - op < 65025 * d + 65025" by (simp add: d_def)
    have "R = l - q" using R that by (auto split: if_splits)
    then have "lim \<le> op + 1 + r + R + 2 + d" using q r d l by (simp add: l_def)
    then show ?thesis by (simp add: r_def d_def)
  qed
qed

definition dest_filled :: "mem \<Rightarrow> mem \<Rightarrow> addr \<Rightarrow> addr \<Rightarrow> byte list \<Rightarrow> int \<Rightarrow> int \<Rightarrow> bool" where
  "dest_filled m0 m dst lim src n r \<longleftrightarrow>
     0 \<le> n \<and> n \<le> int (length src) \<and> compressed_to m0 m dst lim [] (take (nat n) src) r \<and>
     (n < int (length src) \<longrightarrow> lim - dst \<le> r + 2 + (lim - dst) div 65025)"

lemma destSize_last_spec:
  assumes inp: "src_input c m0 src" and apart: "src_apart c m0 lim" and lim: "lim = c_dest c + tgt"
    and em: "emitted c m0 m [] src lim anchor op ss" and room: "tail_room ss op lim"
  shows "\<exists>m' n r. LZ4_destSize_last c tgt m anchor op = Some (m', n, r) \<and> dest_filled m0 m' (c_dest c) lim src n r"
proof -
  note lims = src_input_limits [OF inp]
  define F where "F = c_iend c - anchor"
  define l where "l = lim - op - 1"
  define R where "R = (if op + 1 + (F + 240) div 255 + F > lim then l - (l + 240) div 255 else F)"
  have an: "c_source c \<le> anchor" "0 \<le> F" using em by (auto simp: emitted_def F_def)
  have op: "op + 1 \<le> lim" using room by (simp add: tail_room_def)
  note cut = cut_run [OF an(2) op, folded l_def, folded R_def]
  define L where "L = nat R"
  have L: "int L = R" using cut(1) by (simp add: L_def)
  have ext: "int (length (len_ext L)) = (R + 240) div 255"
    using L by (simp add: length_len_ext_div zdiv_int)
  have "5 \<le> L \<and> 12 \<le> mlen (last ss) + L" if ss: "ss \<noteq> []"
  proof -
    have t: "op + 6 \<le> lim" "4 \<le> mlen (last ss)" "mlen (last ss) < 19 \<longrightarrow> op + 9 \<le> lim"
      using room ss by (auto simp: tail_room_def)
    define q where "q = (l + 240) div 255"
    have q: "255 * q \<le> l + 240" "l < 15 \<longrightarrow> q = 0" using op by (auto simp: q_def l_def)
    have "R = F \<or> R = l - q" using cut(4) by (simp add: q_def)
    then show ?thesis
    proof
      assume "R = F"
      then show ?thesis using em ss L lims by (auto simp: emitted_def F_def)
    next
      assume "R = l - q"
      then show ?thesis using t q L by (simp add: l_def) linarith
    qed
  qed
  moreover have "anchor + int L \<le> c_iend c" using cut(2) L by (simp add: F_def)
  moreover have "op + 1 + int (length (len_ext L)) + int L \<le> lim" using cut(3) L ext by simp
  ultimately obtain m1 op1 m2 where put: "LZ4_put_token m op R = Some (m1, op1)" "memcpy m1 op1 anchor R = Some m2"
    "op1 + R - c_dest c < 2 ^ 31" "op1 = op + 1 + (R + 240) div 255"
    "compressed_to m0 m2 (c_dest c) lim [] (take (nat (anchor - c_source c) + L) src) (op1 + R - c_dest c)"
    using put_last_spec [OF inp apart em] L ext by metis
  define n where "n = anchor + R - c_source c"
  have n: "0 \<le> n" "n \<le> int (length src)" "nat n = nat (anchor - c_source c) + L" "n < 2 ^ 31"
    using cut(1,2) an lims L inp by (auto simp: n_def F_def src_input_def)
  have "lim - c_dest c \<le> op1 + R - c_dest c + 2 + (lim - c_dest c) div 65025" if "n < int (length src)"
  proof -
    have "R < F" using that lims by (simp add: n_def F_def)
    moreover have "(lim - op) div 65025 \<le> (lim - c_dest c) div 65025"
      using emitted_size(2) [OF inp em] by (intro zdiv_mono1) simp_all
    ultimately show ?thesis using cut(5) put(4) by linarith
  qed
  then have "dest_filled m0 m2 (c_dest c) lim src n (op1 + R - c_dest c)"
    using n put(5) by (simp add: dest_filled_def)
  moreover have "LZ4_destSize_last c tgt m anchor op = Some (m2, n, op1 + R - c_dest c)"
  proof -
    have "c_dest c + tgt - op - 1 = l" by (simp add: l_def lim)
    then have "LZ4_destSize_last c tgt m anchor op =
        do { (m, op) \<leftarrow> LZ4_put_token m op R; m \<leftarrow> memcpy m op anchor R;
             Some (m, cast_int n, cast_int (op + R - c_dest c)) }"
      by (auto simp: LZ4_destSize_last_def Let_def F_def [symmetric] lim [symmetric] R_def n_def)
    then show ?thesis using put n compressed_to_bound(1) [OF put(5)] by simp
  qed
  ultimately show ?thesis by blast
qed

section \<open>Matches\<close>

lemma destSize_matchLength_eq: "LZ4_destSize_matchLength = LZ4_encode_matchLength"
proof (intro ext)
  fix m token op n
  show "LZ4_destSize_matchLength m token op n = LZ4_encode_matchLength m token op n"
    by (cases "15 \<le> n") (simp_all add: LZ4_destSize_matchLength_def LZ4_encode_matchLength_def put_matchLength_eq)
qed

text \<open>The length a match is cut to leaves room for the last literals.\<close>

lemma cut_match:
  fixes ml :: nat and op lim :: int
  assumes op: "op + 9 \<le> lim"
  defines "R \<equiv> (if op + (int ml + 240) div 255 > lim - 6 then 14 + (lim - 6 - op) * 255 else int ml)"
  shows "0 \<le> R" "R \<le> int ml" "op + (R + 240) div 255 + 6 \<le> lim" "R < 15 \<longrightarrow> (R + 240) div 255 = 0"
    "R < int ml \<Longrightarrow> op + (R + 240) div 255 + 6 = lim"
proof -
  define a where "a = (int ml + 240) div 255"
  have a: "255 * a \<le> int ml + 240" by (simp add: a_def)
  have cut: "R = 14 + (lim - 6 - op) * 255 \<and> (R + 240) div 255 = lim - 6 - op" if "op + a > lim - 6"
    using that by (simp add: R_def a_def)
  show "0 \<le> R" "R \<le> int ml" using a op by (auto simp: R_def a_def [symmetric])
  show "op + (R + 240) div 255 + 6 \<le> lim"
    using cut by (cases "op + a > lim - 6") (auto simp: R_def a_def)
  show "R < 15 \<longrightarrow> (R + 240) div 255 = 0" using \<open>0 \<le> R\<close> by simp
  show "op + (R + 240) div 255 + 6 = lim" if "R < int ml"
    using that cut by (cases "op + a > lim - 6") (auto simp: R_def a_def)
qed

lemma destSize_match_spec:
  assumes inp: "cmp_input c m0 [] src" and apart: "cmp_apart c m0 [] lim" and c: "c_dict c = noDict"
    and lim: "lim = c_dest c + tgt" and pe: "pending c m0 m [] src lim anchor ip token op ss" and op: "op + 11 \<le> lim"
    and vm: "vmatch c m [] ip v n" and n: "4 \<le> n" "ip + n \<le> matchlimit c"
  shows "\<exists>m1 ml R m2 op2 s. LZ4_writeLE16 m op (word_of_int (ip - v)) = Some m1 \<and>
    LZ4_count m1 (ip + 4) (v + 4) (matchlimit c) = Some ml \<and>
    R = (if op + 2 + (ml + 240) div 255 > oMaxMatch (c_dest c) tgt then (15 - 1) + (oMaxMatch (c_dest c) tgt - (op + 2)) * 255 else ml) \<and>
    LZ4_destSize_matchLength m1 token (op + 2) R = Some (m2, op2) \<and>
    emitted c m0 m2 [] src lim (ip + 4 + R) op2 (ss @ [s]) \<and> tail_room (ss @ [s]) op2 lim \<and> 0 \<le> R \<and>
    (op2 \<le> oMaxSeq (c_dest c) tgt \<longrightarrow> ip + n \<le> ip + 4 + R)"
proof -
  note lims = cmp_input_limits [OF inp] and src = cmp_input_src [OF inp] cmp_apart_src [OF apart]
  have ip: "c_source c \<le> ip" using pe by (auto simp: pending_def emitted_def)
  obtain m1 where m1: "LZ4_writeLE16 m op (word_of_int (ip - v)) = Some m1"
    "emits m m1 op (le_bytes 2 (word_of_int (ip - v) :: u16)) lim" "same_outside m0 m1 (c_dest c) lim"
    using write_offset_spec [OF src pe] by blast
  note inp1 = cmp_input_same [OF inp apart m1(3)]
  have "vmatch c m1 [] ip v n"
    using vmatch_same [OF pending_input(1) [OF inp apart pe] inp1 vm ip] n(2) lims by simp
  from match_length_near [OF inp1 this n(1) ip n(2)] c
  obtain ml' where ml': "0 \<le> ml'" "LZ4_count m1 (ip + 4) (v + 4) (matchlimit c) = Some ml'"
    "n \<le> 4 + ml'" "ip + 4 + ml' \<le> matchlimit c" "vmatch c m1 [] ip v (4 + ml')" by (auto simp: vdelta_def)
  then obtain ml where ml: "ml' = int ml" using nonneg_int_cases by blast
  define R where "R = (if op + 2 + (int ml + 240) div 255 > lim - 6 then 14 + (lim - 6 - (op + 2)) * 255 else int ml)"
  have "op + 2 + 9 \<le> lim" using op by simp
  note cut = cut_match [OF this, of ml, folded R_def]
  define k where "k = nat R"
  have k: "int k = R" using cut(1) by (simp add: k_def)
  then have ext: "int (length (len_ext k)) = (R + 240) div 255"
    by (simp add: length_len_ext_div zdiv_int)
  have "rmatch src (nat (ip - c_source c)) (nat (ip - v)) (4 + ml)"
    using vmatch_rmatch [OF inp1, of ip v "4 + ml"] ml' ml ip lims by simp
  then have rm: "rmatch ([] @ src) (length ([] :: byte list) + nat (ip - c_source c)) (nat (ip - v)) (4 + k)"
    using rmatch_less [of src _ _ "4 + ml" "4 + k"] k cut(2) by simp
  have end_match: "ip + 4 + int k \<le> matchlimit c" "op + 2 + int (length (len_ext k)) \<le> lim"
    using k ext ml' ml cut(2,3) by auto
  obtain m2 s where m2: "LZ4_encode_matchLength m1 token (op + 2) (int k) = Some (m2, op + 2 + int (length (len_ext k)))"
    "mlen s = 4 + k" "emitted c m0 m2 [] src lim (ip + 4 + int k) (op + 2 + int (length (len_ext k))) (ss @ [s])"
    using write_matchLength_spec [OF src pe m1(2) rm end_match] by blast
  have "tail_room (ss @ [s]) (op + 2 + int (length (len_ext k))) lim"
    using cut(3,4) op m2(2) k ext by (auto simp: tail_room_def)
  moreover have "oMaxMatch (c_dest c) tgt = lim - 6" "oMaxSeq (c_dest c) tgt = lim - 12"
    by (simp_all add: oMaxMatch_def oMaxSeq_def oMaxLit_def lim)
  moreover have "ip + n \<le> ip + 4 + R" if "op + 2 + int (length (len_ext k)) \<le> lim - 12"
    using that cut(2,5) ext ml'(3) ml by linarith
  ultimately show ?thesis
    using m1(1) ml'(2) ml m2 k cut(1) by (auto simp: R_def destSize_matchLength_eq)
qed

text \<open>How the part from \<open>_next_match\<close> on leaves things; the input is consumed at least up to \<open>low\<close>.\<close>

definition destSize_ok ::
  "cmp_env \<Rightarrow> mem \<Rightarrow> byte list \<Rightarrow> addr \<Rightarrow> addr \<Rightarrow>
   mem \<times> hashtable \<times> addr \<times> addr + mem \<times> hashtable \<times> addr \<times> addr \<times> addr \<times> nat \<Rightarrow> bool" where
  "destSize_ok c m0 src lim low r \<longleftrightarrow>
     (case r of
        Inl (m, T, anchor, op) \<Rightarrow> (\<exists>ss. emitted c m0 m [] src lim anchor op ss \<and> tail_room ss op lim)
      | Inr (m, T, ip', anchor, op, fh) \<Rightarrow>
          (\<exists>ss. emitted c m0 m [] src lim anchor op ss \<and> tail_room ss op lim) \<and> ip' = anchor + 1 \<and>
          low \<le> anchor \<and> ip' \<le> mflimit c + 1 \<and> table_ok c [] T ip' \<and> fh < HASH_SIZE (tableType c))"

lemma destSize_next_match_spec:
  assumes inp: "cmp_input c m0 [] src" and apart: "cmp_apart c m0 [] lim" and c: "c_dict c = noDict" "dictIssue c = noDictIssue"
    and lim: "lim = c_dest c + tgt"
    and "pending c m0 m [] src lim anchor ip token op ss" "op + 11 \<le> lim"
    and "vmatch c m [] ip v n" "4 \<le> n" "ip + n \<le> matchlimit c" and "table_ok c [] T (ip + n)"
  shows "\<exists>r. LZ4_destSize_next_match c tgt m T ip v token op = Some r \<and> destSize_ok c m0 src lim (ip + n) r"
  using assms(6-)
proof (induction "nat (c_iend c - ip)" arbitrary: m T anchor ip token op ss v n rule: less_induct)
  case less
  note lims = cmp_input_limits [OF inp]
  from destSize_match_spec [OF inp apart c(1) lim less.prems(1-5)]
  obtain m1 ml R m2 op2 s where m1: "LZ4_writeLE16 m op (word_of_int (ip - v)) = Some m1"
    "LZ4_count m1 (ip + 4) (v + 4) (matchlimit c) = Some ml"
    "R = (if op + 2 + (ml + 240) div 255 > oMaxMatch (c_dest c) tgt then (15 - 1) + (oMaxMatch (c_dest c) tgt - (op + 2)) * 255 else ml)"
    "LZ4_destSize_matchLength m1 token (op + 2) R = Some (m2, op2)"
    and m2: "emitted c m0 m2 [] src lim (ip + 4 + R) op2 (ss @ [s])" "tail_room (ss @ [s]) op2 lim"
    and R: "0 \<le> R" "op2 \<le> oMaxSeq (c_dest c) tgt \<longrightarrow> ip + n \<le> ip + 4 + R" by blast
  define ip' where "ip' = ip + 4 + R"
  have src: "c_source c \<le> ip" using less.prems(1) by (auto simp: pending_def emitted_def)
  note run = LZ4_destSize_next_match.simps [of c tgt m T ip v token op, unfolded Let_def, unfolded m1(1,2) bind.bind_lunit,
      folded m1(3), unfolded m1(4) bind.bind_lunit, folded ip'_def, simplified]
  note inp2 = emitted_input [OF inp apart m2(1)]
  show ?case
  proof (cases "mflimit c < ip' \<or> oMaxSeq (c_dest c) tgt < op2")
    case True
    then have "LZ4_destSize_next_match c tgt m T ip v token op = Some (Inl (m2, T, ip', op2))"
      unfolding run by auto
    then show ?thesis using m2 by (auto simp: destSize_ok_def ip'_def)
  next
    case False
    then have more: "ip' \<le> mflimit c" "op2 + 12 \<le> lim" "ip + n \<le> ip'"
      using R by (auto simp: ip'_def oMaxSeq_def oMaxLit_def lim)
    have "table_ok c [] T ip'" using less.prems(6) more(3) by (auto intro: table_ok_mono)
    moreover have "c_source c + 2 \<le> ip'" using src less.prems(4) more(3) by simp
    ultimately obtain T1 v' T2 fh again where nx: "LZ4_putPosition m2 (ip' - 2) T (tableType c) (base c) = Some T1"
      "LZ4_getPosition m2 ip' T1 (tableType c) (base c) = Some v'"
      "LZ4_putPosition m2 ip' T1 (tableType c) (base c) = Some T2"
      "LZ4_hashPosition m2 (ip' + 1) (tableType c) = Some fh" "fh < HASH_SIZE (tableType c)"
      and T2: "table_ok c [] T2 (ip' + 1)" and vm: "again \<Longrightarrow> vmatch c m2 [] ip' v' 4"
      and raw: "(if (dictIssue c = dictSmall \<longrightarrow> lowRefLimit c \<le> v') \<and> ip' \<le> v' + MAX_DISTANCE
        then do { a \<leftarrow> LZ4_read32 m2 (v' + fst (cur_of c [] v')); b \<leftarrow> LZ4_read32 m2 ip'; Some (a = b) }
        else Some False) = Some again"
      using next_position [OF inp2(1) _ _ more(1)] by blast
    have "fst (cur_of c [] v') = 0" by (simp add: c vdelta_def)
    note raw = raw [unfolded this c, simplified]
    have map2: "mapped m2 op2 lim"
      using cmp_apart_mapped [OF inp2(2)] emitted_size(2) [OF cmp_input_src [OF inp] m2(1)] by simp
    have pe: "store m2 op2 0 = Some (m2(op2 \<mapsto> 0))"
      "pending c m0 (m2(op2 \<mapsto> 0)) [] src lim ip' ip' op2 (op2 + 1) (ss @ [s])"
      using pending_empty [OF m2(1) _ map2] more by (auto simp: ip'_def)
    have run': "LZ4_destSize_next_match c tgt m T ip v token op =
        (if again then LZ4_destSize_next_match c tgt (m2(op2 \<mapsto> 0)) T2 ip' v' op2 (op2 + 1)
         else Some (Inr (m2, T2, ip' + 1, ip', op2, fh)))"
      unfolding run using False nx raw pe(1) by (auto simp: bind_eq_Some_conv simp del: fun_upd_apply)
    show ?thesis
    proof (cases again)
      case False
      then show ?thesis using run' m2 T2 more nx(5) by (auto simp: destSize_ok_def ip'_def)
    next
      case True
      have "vmatch c (m2(op2 \<mapsto> 0)) [] ip' v' 4"
        using vmatch_same [OF inp2(1) pending_input(1) [OF inp apart pe(2)] vm [OF True]] src more less.prems(4) lims by simp
      moreover have "table_ok c [] T2 (ip' + 4)" using T2 by (auto intro: table_ok_mono)
      moreover have "nat (c_iend c - ip') < nat (c_iend c - ip)" "ip' + 4 \<le> matchlimit c" "op2 + 1 + 11 \<le> lim"
        using more less.prems(4) lims by auto
      ultimately obtain r where "LZ4_destSize_next_match c tgt (m2(op2 \<mapsto> 0)) T2 ip' v' op2 (op2 + 1) = Some r"
        "destSize_ok c m0 src lim (ip' + 4) r"
        using less.hyps [OF _ pe(2), of v' 4 T2] by auto
      then show ?thesis
        using True run' more by (auto simp: destSize_ok_def split: sum.splits)
    qed
  qed
qed

section \<open>The whole compressor\<close>

lemma destSize_literals_spec:
  assumes inp: "src_input c m src" and apart: "src_apart c m lim" and lim: "lim = c_dest c + tgt"
    and em: "emitted c m0 m hist src lim anchor op ss" and ip: "anchor \<le> ip" "ip \<le> mflimit c"
  shows "LZ4_destSize_literals m op anchor ip (oMaxLit (c_dest c) tgt) = Some (Inl ()) \<or>
    (\<exists>m1 op1. LZ4_destSize_literals m op anchor ip (oMaxLit (c_dest c) tgt) = Some (Inr (m1, op1)) \<and>
       pending c m0 m1 hist src lim anchor ip op op1 ss \<and> op1 + 11 \<le> lim)"
proof (cases "op + 1 + (ip - anchor + 240) div 255 + (ip - anchor) > oMaxLit (c_dest c) tgt")
  case True
  then show ?thesis by (simp add: LZ4_destSize_literals_def Let_def)
next
  case False
  define L where "L = nat (ip - anchor)"
  have ext: "int (length (len_ext L)) = (ip - anchor + 240) div 255"
    using ip(1) by (simp add: length_len_ext_div zdiv_int L_def)
  have room: "op + 1 + int (length (len_ext L)) + (ip - anchor) + 11 \<le> lim"
    using False by (simp add: ext oMaxLit_def lim)
  then have "op + 1 + int (length (len_ext (nat (ip - anchor)))) + max 8 (ip - anchor + 7) \<le> lim"
    using ip(1) by (simp add: L_def)
  from put_literals_spec [OF inp apart em ip this]
  obtain m1 op1 m2 where m1: "LZ4_put_token m op (ip - anchor) = Some (m1, op1)"
    "LZ4_wildCopy m1 op1 anchor (op1 + (ip - anchor)) = Some m2"
    and pe: "pending c m0 m2 hist src lim anchor ip op (op1 + (ip - anchor)) ss" by blast
  have "op1 + (ip - anchor) = op + 1 + int (length (len_ext L)) + (ip - anchor)"
  proof -
    have "c_source c \<le> anchor" using em by (simp add: emitted_def)
    then show ?thesis
      using pe ip src_input_limits [OF inp] by (auto simp: pending_def Let_def L_def)
  qed
  then show ?thesis
    using False m1 pe room by (auto simp: LZ4_destSize_literals_def Let_def)
qed

lemma destSize_loop_spec:
  assumes inp: "cmp_input c m0 [] src" and apart: "cmp_apart c m0 [] lim" and c: "c_dict c = noDict" "dictIssue c = noDictIssue"
    and lim: "lim = c_dest c + tgt"
    and "emitted c m0 m [] src lim anchor op ss" "tail_room ss op lim" "table_ok c [] T ip" "anchor < ip" "ip \<le> mflimit c + 1"
      "fh < HASH_SIZE (tableType c)"
  shows "\<exists>m' T' n r. LZ4_destSize_loop c tgt m T ip anchor op fh = Some (m', T', n, r) \<and>
    dest_filled m0 m' (c_dest c) lim src n r"
  using assms(6-)
proof (induction "nat (c_iend c - ip)" arbitrary: m T ip anchor op ss fh rule: less_induct)
  case less
  note lims = cmp_input_limits [OF inp] and inpm = emitted_input [OF inp apart less.prems(1)]
    and src = cmp_input_src [OF inp] cmp_apart_src [OF apart]
  have an: "c_source c \<le> anchor" using less.prems(1) by (simp add: emitted_def)
  have "cur_ok c [] (0, c_source c)" by (simp add: cur_ok_def)
  with find_match_spec [OF inpm(1) less.prems(3) _ less.prems(5), of "(0, c_source c)" 1 64 fh] an less.prems(4,6) lims
  obtain found where found: "LZ4_find_match c m T ip fh 1 64 (0, c_source c) = Some found"
    "case found of Inl T' \<Rightarrow> table_ok c [] T' (mflimit c + 1)
     | Inr (T', ip', v, cur') \<Rightarrow> table_ok c [] T' (ip' + 1) \<and> ip \<le> ip' \<and> ip' < mflimit c \<and>
         vmatch c m [] ip' v 4 \<and> cur' = cur_of c [] v" by auto
  have last: "\<exists>m' T' n r. do { (m, n, r) \<leftarrow> LZ4_destSize_last c tgt m1 an1 op1; Some (m, T1, n, r) } = Some (m', T', n, r) \<and>
      dest_filled m0 m' (c_dest c) lim src n r"
    if "emitted c m0 m1 [] src lim an1 op1 ss1" "tail_room ss1 op1 lim" for m1 an1 op1 ss1 T1
    using destSize_last_spec [OF src lim that] by auto
  note run = LZ4_destSize_loop.simps [of c tgt m T ip anchor op fh, simplified push_bit_eq_mult, simplified, unfolded found(1), simplified]
  show ?case
  proof (cases found)
    case (Inl T')
    then show ?thesis using last [OF less.prems(1,2), of T'] run by simp
  next
    case (Inr x)
    then obtain T' ip' v where x: "found = Inr (T', ip', v, cur_of c [] v)" "table_ok c [] T' (ip' + 1)" "ip \<le> ip'"
      "ip' < mflimit c" "vmatch c m [] ip' v 4" using found(2) by auto
    obtain k where k: "0 \<le> k" "LZ4_catch_up m anchor (cur_of c [] v) ip' v = Some (ip' - k, v - k)" "anchor \<le> ip' - k"
      "vmatch c m [] (ip' - k) (v - k) (4 + k)"
      using catch_up_spec [OF inpm(1) x(5) an, of v] less.prems(4) x(3,4) lims by auto
    note run' = run [unfolded x(1), simplified, unfolded k(2), simplified]
    have "ip' - k \<le> mflimit c" using x(4) k(1) by simp
    from destSize_literals_spec [OF cmp_input_src [OF inpm(1)] cmp_apart_src [OF inpm(2)] lim less.prems(1) k(3) this]
    consider "LZ4_destSize_literals m op anchor (ip' - k) (oMaxLit (c_dest c) tgt) = Some (Inl ())"
      | m1 op1 where "LZ4_destSize_literals m op anchor (ip' - k) (oMaxLit (c_dest c) tgt) = Some (Inr (m1, op1))"
        "pending c m0 m1 [] src lim anchor (ip' - k) op op1 ss" "op1 + 11 \<le> lim" by blast
    then show ?thesis
    proof cases
      case 1
      then show ?thesis using last [OF less.prems(1,2), of T'] run' by simp
    next
      case 2
      have "vmatch c m1 [] (ip' - k) (v - k) (4 + k)"
        using vmatch_same [OF inpm(1) pending_input(1) [OF inp apart 2(2)] k(4)] an k x(4) lims by simp
      moreover have "table_ok c [] T' (ip' - k + (4 + k))" using x(2) by (auto intro: table_ok_mono)
      moreover have "4 \<le> 4 + k" "ip' - k + (4 + k) \<le> matchlimit c" using k(1) x(4) lims by auto
      ultimately obtain r where r: "LZ4_destSize_next_match c tgt m1 T' (ip' - k) (v - k) op op1 = Some r"
        "destSize_ok c m0 src lim (ip' - k + (4 + k)) r"
        using destSize_next_match_spec [OF inp apart c lim 2(2,3)] by blast
      note run'' = run' [unfolded 2(1), simplified, unfolded r(1), simplified]
      show ?thesis
      proof (cases r)
        case (Inl y)
        then obtain m2 T2 an2 op2 where y: "r = Inl (m2, T2, an2, op2)" by (cases y) auto
        then show ?thesis using run'' r(2) last [of m2 an2 op2 _ T2] by (auto simp: destSize_ok_def)
      next
        case (Inr y)
        then obtain m2 T2 ip2 an2 op2 fh2 where y: "r = Inr (m2, T2, ip2, an2, op2, fh2)" by (cases y) auto
        then obtain ss2 where "emitted c m0 m2 [] src lim an2 op2 ss2" "tail_room ss2 op2 lim" "ip2 = an2 + 1"
          "ip2 \<le> mflimit c + 1" "table_ok c [] T2 ip2" "fh2 < HASH_SIZE (tableType c)" "ip < ip2"
          using r(2) x(3) by (auto simp: destSize_ok_def)
        then show ?thesis
          using run'' y less.hyps [of ip2 m2 an2 op2 ss2 T2 fh2] less.prems(5) lims by simp
      qed
    qed
  qed
qed

lemma destSize_generic_spec:
  assumes bufs: "one_shot_buffers m source src dest n" and n: "1 \<le> n"
    and tt: "tt = byU16 \<and> length src < 65547 \<or> tt = byU32"
  shows "\<exists>m' ctx k r. LZ4_compress_destSize_generic m LZ4_resetStream source dest (int (length src)) n tt =
      Some (m', ctx, k, r) \<and> dest_filled m m' dest (dest + n) src k r"
proof -
  define c where "c = cmp_env_of LZ4_resetStream source dest (int (length src)) n notLimited tt noDict noDictIssue 1"
  have c: "c_source c = source" "c_dest c = dest" "mflimit c = source + int (length src) - 12" "tableType c = tt"
    "c_dict c = noDict" "dictIssue c = noDictIssue"
    by (simp_all add: c_def cmp_env_of_def)
  note inp = one_shot_input [OF bufs tt, of n notLimited 1, folded c_def]
  have size: "int (length src) \<le> 2113929216" using bufs by (simp add: one_shot_buffers_def)
  have em: "emitted c m m [] src (dest + n) source dest []" "tail_room [] dest (dest + n)"
    using emitted_init [of c m "[]" src "dest + n"] cmp_input_limits(4) [OF inp(1)] n c by (auto simp: tail_room_def)
  show ?thesis
  proof (cases "length src < 13")
    case True
    then show ?thesis
      using destSize_last_spec [OF cmp_input_src [OF inp(1)] cmp_apart_src [OF inp(2)] _ em, of n] n size tt c
      by (auto simp: LZ4_compress_destSize_generic_def Let_def c_def)
  next
    case False
    obtain T1 where T1: "LZ4_putPosition m source (hashTable LZ4_resetStream) tt (base c) = Some T1" "table_ok c [] T1 (source + 1)"
      using table_ok_putPosition [OF inp(1,3), of source "source + 1"] c False by auto
    obtain fh where fh: "LZ4_hashPosition m (source + 1) tt = Some fh" "fh < HASH_SIZE tt"
      using hashPosition_defined [OF inp(1), of "source + 1" tt] cmp_input_limits(1) [OF inp(1)] c False by auto
    obtain m' T' k r where r: "LZ4_destSize_loop c n m T1 (source + 1) source dest fh = Some (m', T', k, r)"
      "dest_filled m m' dest (dest + n) src k r"
      using destSize_loop_spec [OF inp(1,2) c(5,6) _ em, of n T1 "source + 1" fh] T1(2) fh(2) c False by auto
    then show ?thesis
      using False n size tt T1(1) fh(1) by (auto simp: LZ4_compress_destSize_generic_def Let_def c_def [symmetric])
  qed
qed

lemma destSize_spec:
  assumes bufs: "one_shot_buffers m source src dest n" and n: "1 \<le> n" "n < 2 ^ 31"
  shows "\<exists>m' k r. LZ4_compress_destSize m source dest (int (length src)) n = Some (m', k, r) \<and>
    dest_filled m m' dest (dest + n) src k r"
proof (cases "LZ4_compressBound (int (length src)) \<le> n")
  case True
  then have "fast_slack (length src) n = 0" using bufs by (intro fast_slack_bound) (simp_all add: one_shot_buffers_def)
  then obtain m' ctx r where "LZ4_compress_fast_extState m source dest (int (length src)) n 1 = Some (m', ctx, r)"
    "compressed_to m m' dest (dest + n) [] src r"
    using compress_fast_spec [of m source src dest n 1] bufs n True by auto
  then show ?thesis
    using True by (auto simp: LZ4_compress_destSize_def LZ4_compress_destSize_extState_def dest_filled_def)
next
  case False
  define tt where "tt = (if length src < 65547 then byU16 else byU32)"
  have "tt = byU16 \<and> length src < 65547 \<or> tt = byU32" by (simp add: tt_def)
  from destSize_generic_spec [OF bufs n(1) this] False show ?thesis
    by (auto simp: LZ4_compress_destSize_def LZ4_compress_destSize_extState_def tt_def LZ4_64bits_def split: if_splits)
qed

section \<open>Theorems\<close>

text \<open>
  C17: \<open>LZ4_compress_destSize\<close> into a buffer of any size \<open>n\<close> from 1 on: it ends, writes only to the
  buffer, and returns the length of a block, never 0, together with the number \<open>k\<close> of input bytes
  in it. Decompressing the block gives exactly the first \<open>k\<close> bytes of the input, and when that is
  not all of it, the buffer is full up to 2 bytes, or one more in 65025.
\<close>

theorem LZ4_compress_destSize_fills:
  assumes "one_shot_buffers m source src dest n" "1 \<le> n" "n < 2 ^ 31" "0 \<le> dest" "dest + n < 2 ^ 64"
    and "mapped m out (out + outputSize)" "int (length src) \<le> outputSize" "outputSize < 2 ^ 31" "0 \<le> out" "out + outputSize < 2 ^ 64"
    and "dest + n \<le> out \<or> out + outputSize \<le> dest"
  shows "\<exists>m1 k r m2. LZ4_compress_destSize m source dest (int (length src)) n = Some (m1, k, r) \<and>
    0 \<le> k \<and> k \<le> int (length src) \<and> 0 < r \<and> r \<le> n \<and> same_outside m m1 dest (dest + n) \<and>
    (k < int (length src) \<longrightarrow> n - r \<le> 2 + n div 65025) \<and>
    LZ4_decompress_safe m1 dest out r outputSize = Some (m2, k) \<and> bytes_at m2 out (take (nat k) src)"
proof -
  obtain m1 k r where c: "LZ4_compress_destSize m source dest (int (length src)) n = Some (m1, k, r)"
    and f: "0 \<le> k" "k \<le> int (length src)" "compressed_to m m1 dest (dest + n) [] (take (nat k) src) r"
      "k < int (length src) \<longrightarrow> n - r \<le> 2 + n div 65025"
    using destSize_spec [OF assms(1-3)] by (auto simp: dest_filled_def)
  have "decodes_to (LZ4_decompress_safe m1 dest out r outputSize) m1 out outputSize (int (length (take (nat k) src))) (take (nat k) src)"
    using compressed_decodes [OF f(3)] assms f(1,2) by simp
  then show ?thesis
    using c f compressed_to_bound(1,3) [OF f(3)] by (auto simp: decodes_to_def compressed_to_def emits_def)
qed

theorem LZ4_compress_destSize_fills_witness:
  "\<exists>m1 k r m2. LZ4_compress_destSize small_mem 1 100 64 20 = Some (m1, k, r) \<and> 0 < r \<and> r \<le> 20 \<and>
     LZ4_decompress_safe m1 100 300 r 64 = Some (m2, k) \<and>
     bytes_at m2 300 (take (nat k) (map (\<lambda>i. word_of_int (i * i)) [1..64]))"
  using LZ4_compress_destSize_fills [OF small_mem_buffers(1) [of 20], of 300 64] small_mem_buffers(2) [of 64] by auto

end
