(* ===== verification/LZ4_HC.thy ===== *)
theory LZ4_HC
  imports LZ4_Compress
begin

text \<open>
  The high compression mode of \<^verbatim>\<open>lz4/lib/lz4hc.c\<close>: the hash chains, the two searches, the main
  loop with its three labels, and the functions around it.

  A position is an index relative to \<open>base\<close>; indices below \<open>dictLimit\<close> lie in a dictionary
  elsewhere and are relative to \<open>dictBase\<close>, and below \<open>lowLimit\<close> there is nothing.
\<close>

section \<open>State\<close>

abbreviation (input) LZ4HC_compressionLevel_default :: int where "LZ4HC_compressionLevel_default \<equiv> 9"
abbreviation (input) g_maxCompressionLevel :: int where "g_maxCompressionLevel \<equiv> 16"
abbreviation (input) OPTIMAL_ML :: int where "OPTIMAL_ML \<equiv> (ML_MASK - 1) + MINMATCH"

record LZ4HC_Data_Structure =
  hc_hashTable :: "nat \<Rightarrow> int"
  hc_chainTable :: "nat \<Rightarrow> int"
  hc_end :: addr
  hc_base :: addr
  hc_dictBase :: addr
  hc_inputBuffer :: addr
  hc_dictLimit :: int
  hc_lowLimit :: int
  hc_nextToUpdate :: int
  hc_compressionLevel :: int

definition HASH_FUNCTION :: "u32 \<Rightarrow> nat" where
  "HASH_FUNCTION i = unat (drop_bit (4 * 8 - 15) (i * 2654435761))"

definition LZ4HC_hashPtr :: "mem \<Rightarrow> addr \<Rightarrow> nat option" where
  "LZ4HC_hashPtr m p = do { w \<leftarrow> LZ4_read32 m p; Some (HASH_FUNCTION w) }"

definition LZ4HC_init :: "LZ4HC_Data_Structure \<Rightarrow> addr \<Rightarrow> LZ4HC_Data_Structure" where
  "LZ4HC_init hc4 start =
     hc4\<lparr>hc_hashTable := (\<lambda>_. 0), hc_chainTable := (\<lambda>_. 0xFFFF), hc_nextToUpdate := KB64,
         hc_base := start - KB64, hc_end := start, hc_dictBase := start - KB64,
         hc_dictLimit := KB64, hc_lowLimit := KB64\<rparr>"

section \<open>Chains\<close>

definition DELTANEXTU16 :: "(nat \<Rightarrow> int) \<Rightarrow> int \<Rightarrow> int" where
  "DELTANEXTU16 chainTable p = chainTable (nat (cast_u16 p))"

partial_function (option) LZ4HC_Insert_loop ::
  "mem \<Rightarrow> addr \<Rightarrow> int \<Rightarrow> (nat \<Rightarrow> int) \<Rightarrow> (nat \<Rightarrow> int) \<Rightarrow> int \<Rightarrow> ((nat \<Rightarrow> int) \<times> (nat \<Rightarrow> int)) option" where
  "LZ4HC_Insert_loop m b target HashTable chainTable idx =
     (if idx < target
      then do { h \<leftarrow> LZ4HC_hashPtr m (b + idx);
                let delta = cast_u32 (idx - HashTable h);
                let delta = (if delta > MAX_DISTANCE then MAX_DISTANCE else delta);
                let chainTable = chainTable(nat (cast_u16 idx) := cast_u16 delta);
                let HashTable = HashTable(h := idx);
                LZ4HC_Insert_loop m b target HashTable chainTable (cast_u32 (idx + 1)) }
      else Some (HashTable, chainTable))"

definition LZ4HC_Insert :: "mem \<Rightarrow> LZ4HC_Data_Structure \<Rightarrow> addr \<Rightarrow> LZ4HC_Data_Structure option" where
  "LZ4HC_Insert m hc4 ip =
     (let target = cast_u32 (ip - hc_base hc4)
      in do { (HashTable, chainTable) \<leftarrow>
                LZ4HC_Insert_loop m (hc_base hc4) target (hc_hashTable hc4) (hc_chainTable hc4) (hc_nextToUpdate hc4);
              Some (hc4\<lparr>hc_hashTable := HashTable, hc_chainTable := chainTable, hc_nextToUpdate := target\<rparr>) })"

text \<open>How far back both searches look.\<close>

definition hc_window :: "LZ4HC_Data_Structure \<Rightarrow> addr \<Rightarrow> int" where
  "hc_window hc4 ip =
     (if cast_u32 (hc_lowLimit hc4 + KB64) > cast_u32 (ip - hc_base hc4) then hc_lowLimit hc4
      else cast_u32 (cast_u32 (ip - hc_base hc4) - (KB64 - 1)))"

section \<open>Searching\<close>

text \<open>The length of a match that starts in the dictionary and may run on into the prefix.\<close>

definition LZ4HC_count_ext :: "mem \<Rightarrow> LZ4HC_Data_Structure \<Rightarrow> addr \<Rightarrow> addr \<Rightarrow> int \<Rightarrow> int option" where
  "LZ4HC_count_ext m hc4 ip iLimit matchIndex =
     (let match = hc_dictBase hc4 + matchIndex;
          vLimit = ip + (hc_dictLimit hc4 - matchIndex);
          vLimit = (if vLimit > iLimit then iLimit else vLimit)
      in do { n \<leftarrow> LZ4_count m (ip + MINMATCH) (match + MINMATCH) vLimit;
              let mlt = n + MINMATCH;
              if ip + mlt = vLimit \<and> vLimit < iLimit
              then do { n \<leftarrow> LZ4_count m (ip + mlt) (hc_base hc4 + hc_dictLimit hc4) iLimit;
                        Some (mlt + n) }
              else Some mlt })"

text \<open>One candidate of \<open>LZ4HC_InsertAndFindBestMatch\<close>: the new \<open>ml\<close> and \<open>*matchpos\<close>.\<close>

definition LZ4HC_best_candidate ::
  "mem \<Rightarrow> LZ4HC_Data_Structure \<Rightarrow> addr \<Rightarrow> addr \<Rightarrow> int \<Rightarrow> int \<Rightarrow> addr \<Rightarrow> (int \<times> addr) option" where
  "LZ4HC_best_candidate m hc4 ip iLimit matchIndex ml matchpos =
     (if matchIndex \<ge> hc_dictLimit hc4
      then let match = hc_base hc4 + matchIndex
           in do { a \<leftarrow> m (match + ml);
                   b \<leftarrow> m (ip + ml);
                   if a = b
                   then do { v \<leftarrow> LZ4_read32 m match;
                             w \<leftarrow> LZ4_read32 m ip;
                             if v = w
                             then do { n \<leftarrow> LZ4_count m (ip + MINMATCH) (match + MINMATCH) iLimit;
                                       let mlt = n + MINMATCH;
                                       Some (if mlt > ml then (mlt, match) else (ml, matchpos)) }
                             else Some (ml, matchpos) }
                   else Some (ml, matchpos) }
      else do { v \<leftarrow> LZ4_read32 m (hc_dictBase hc4 + matchIndex);
                w \<leftarrow> LZ4_read32 m ip;
                if v = w
                then do { mlt \<leftarrow> LZ4HC_count_ext m hc4 ip iLimit matchIndex;
                          Some (if mlt > ml then (mlt, hc_base hc4 + matchIndex) else (ml, matchpos)) }
                else Some (ml, matchpos) })"

fun LZ4HC_best_loop ::
  "mem \<Rightarrow> LZ4HC_Data_Structure \<Rightarrow> addr \<Rightarrow> addr \<Rightarrow> int \<Rightarrow> nat \<Rightarrow> int \<Rightarrow> int \<Rightarrow> addr \<Rightarrow> (int \<times> addr) option" where
  "LZ4HC_best_loop m hc4 ip iLimit low 0 matchIndex ml matchpos = Some (ml, matchpos)"
| "LZ4HC_best_loop m hc4 ip iLimit low (Suc nbAttempts) matchIndex ml matchpos =
     (if matchIndex \<ge> low
      then do { (ml, matchpos) \<leftarrow> LZ4HC_best_candidate m hc4 ip iLimit matchIndex ml matchpos;
                LZ4HC_best_loop m hc4 ip iLimit low nbAttempts
                  (cast_u32 (matchIndex - DELTANEXTU16 (hc_chainTable hc4) matchIndex)) ml matchpos }
      else Some (ml, matchpos))"

definition LZ4HC_InsertAndFindBestMatch ::
  "mem \<Rightarrow> LZ4HC_Data_Structure \<Rightarrow> addr \<Rightarrow> addr \<Rightarrow> addr \<Rightarrow> nat \<Rightarrow> (LZ4HC_Data_Structure \<times> int \<times> addr) option" where
  "LZ4HC_InsertAndFindBestMatch m hc4 ip iLimit matchpos maxNbAttempts =
     do { let low = hc_window hc4 ip;
          hc4 \<leftarrow> LZ4HC_Insert m hc4 ip;
          h \<leftarrow> LZ4HC_hashPtr m ip;
          (ml, matchpos) \<leftarrow> LZ4HC_best_loop m hc4 ip iLimit low maxNbAttempts (hc_hashTable hc4 h) 0 matchpos;
          Some (hc4, ml, matchpos) }"

text \<open>
  The loops that extend a match backwards; \<open>inside\<close> is their test that the match does not leave
  the prefix or the dictionary.
\<close>

partial_function (option) LZ4HC_back ::
  "mem \<Rightarrow> addr \<Rightarrow> addr \<Rightarrow> addr \<Rightarrow> (int \<Rightarrow> bool) \<Rightarrow> int \<Rightarrow> int option" where
  "LZ4HC_back m ip iLowLimit matchPtr inside back =
     (if ip + back > iLowLimit \<and> inside back
      then do { a \<leftarrow> m (ip + back - 1);
                b \<leftarrow> m (matchPtr + back - 1);
                if a = b then LZ4HC_back m ip iLowLimit matchPtr inside (back - 1) else Some back }
      else Some back)"

text \<open>One candidate of \<open>LZ4HC_InsertAndGetWiderMatch\<close>: the new \<open>longest\<close>, \<open>*matchpos\<close>, \<open>*startpos\<close>.\<close>

definition LZ4HC_wider_candidate ::
  "mem \<Rightarrow> LZ4HC_Data_Structure \<Rightarrow> addr \<Rightarrow> addr \<Rightarrow> addr \<Rightarrow> int \<Rightarrow> int \<Rightarrow> int \<Rightarrow> addr \<Rightarrow> addr \<Rightarrow>
   (int \<times> addr \<times> addr) option" where
  "LZ4HC_wider_candidate m hc4 ip iLowLimit iHighLimit low matchIndex longest matchpos startpos =
     (let delta = cast_int (ip - iLowLimit)
      in if matchIndex \<ge> hc_dictLimit hc4
         then let matchPtr = hc_base hc4 + matchIndex;
                  lowPrefixPtr = hc_base hc4 + hc_dictLimit hc4
              in do { a \<leftarrow> m (iLowLimit + longest);
                      b \<leftarrow> m (matchPtr - delta + longest);
                      if a = b
                      then do { v \<leftarrow> LZ4_read32 m matchPtr;
                                w \<leftarrow> LZ4_read32 m ip;
                                if v = w
                                then do { n \<leftarrow> LZ4_count m (ip + MINMATCH) (matchPtr + MINMATCH) iHighLimit;
                                          back \<leftarrow> LZ4HC_back m ip iLowLimit matchPtr (\<lambda>back. matchPtr + back > lowPrefixPtr) 0;
                                          let mlt = MINMATCH + n - back;
                                          Some (if mlt > longest then (mlt, matchPtr + back, ip + back)
                                                else (longest, matchpos, startpos)) }
                                else Some (longest, matchpos, startpos) }
                      else Some (longest, matchpos, startpos) }
         else let matchPtr = hc_dictBase hc4 + matchIndex
              in do { v \<leftarrow> LZ4_read32 m matchPtr;
                      w \<leftarrow> LZ4_read32 m ip;
                      if v = w
                      then do { n \<leftarrow> LZ4HC_count_ext m hc4 ip iHighLimit matchIndex;
                                back \<leftarrow> LZ4HC_back m ip iLowLimit matchPtr (\<lambda>back. cast_u32 (matchIndex + back) > low) 0;
                                let mlt = n - back;
                                Some (if mlt > longest then (mlt, hc_base hc4 + matchIndex + back, ip + back)
                                      else (longest, matchpos, startpos)) }
                      else Some (longest, matchpos, startpos) })"

fun LZ4HC_wider_loop ::
  "mem \<Rightarrow> LZ4HC_Data_Structure \<Rightarrow> addr \<Rightarrow> addr \<Rightarrow> addr \<Rightarrow> int \<Rightarrow> nat \<Rightarrow> int \<Rightarrow> int \<times> addr \<times> addr \<Rightarrow>
   (int \<times> addr \<times> addr) option" where
  "LZ4HC_wider_loop m hc4 ip iLowLimit iHighLimit low 0 matchIndex best = Some best"
| "LZ4HC_wider_loop m hc4 ip iLowLimit iHighLimit low (Suc nbAttempts) matchIndex (longest, matchpos, startpos) =
     (if matchIndex \<ge> low
      then do { best \<leftarrow> LZ4HC_wider_candidate m hc4 ip iLowLimit iHighLimit low matchIndex longest matchpos startpos;
                LZ4HC_wider_loop m hc4 ip iLowLimit iHighLimit low nbAttempts
                  (cast_u32 (matchIndex - DELTANEXTU16 (hc_chainTable hc4) matchIndex)) best }
      else Some (longest, matchpos, startpos))"

definition LZ4HC_InsertAndGetWiderMatch ::
  "mem \<Rightarrow> LZ4HC_Data_Structure \<Rightarrow> addr \<Rightarrow> addr \<Rightarrow> addr \<Rightarrow> int \<Rightarrow> addr \<Rightarrow> addr \<Rightarrow> nat \<Rightarrow>
   (LZ4HC_Data_Structure \<times> int \<times> addr \<times> addr) option" where
  "LZ4HC_InsertAndGetWiderMatch m hc4 ip iLowLimit iHighLimit longest matchpos startpos maxNbAttempts =
     do { let low = hc_window hc4 ip;
          hc4 \<leftarrow> LZ4HC_Insert m hc4 ip;
          h \<leftarrow> LZ4HC_hashPtr m ip;
          (longest, matchpos, startpos) \<leftarrow>
            LZ4HC_wider_loop m hc4 ip iLowLimit iHighLimit low maxNbAttempts (hc_hashTable hc4 h)
              (longest, matchpos, startpos);
          Some (hc4, longest, matchpos, startpos) }"

section \<open>Sequences\<close>

datatype LZ4HC_limitedOutput_directive = noLimit | HC_limitedOutput

text \<open>\<open>Inl\<close> is the result 1; otherwise the new \<open>*ip\<close>, \<open>*op\<close> and \<open>*anchor\<close>.\<close>

definition LZ4HC_encodeSequence ::
  "mem \<Rightarrow> addr \<Rightarrow> addr \<Rightarrow> addr \<Rightarrow> int \<Rightarrow> addr \<Rightarrow> LZ4HC_limitedOutput_directive \<Rightarrow> addr \<Rightarrow>
   (mem + mem \<times> addr \<times> addr \<times> addr) option" where
  "LZ4HC_encodeSequence m ip op anchor matchLength match limit out_end =
     (let len = cast_int (ip - anchor);
          token = op;
          op = op + 1
      in if limit = HC_limitedOutput \<and> op + drop_bit 8 len + len + (2 + 1 + LASTLITERALS) > out_end
         then Some (Inl m)
         else do {
           (m, op) \<leftarrow> LZ4_put_token m token len;
           m \<leftarrow> LZ4_wildCopy m op anchor (op + len);
           let op = op + len;
           m \<leftarrow> LZ4_writeLE16 m op (word_of_int (ip - match));
           let op = op + 2;
           let len = matchLength - MINMATCH;
           if limit = HC_limitedOutput \<and> op + drop_bit 8 len + (1 + LASTLITERALS) > out_end
           then Some (Inl m)
           else do {
             (m, op) \<leftarrow> LZ4_encode_matchLength m token op len;
             Some (Inr (m, ip + matchLength, op, ip + matchLength)) } })"

section \<open>The compressor\<close>

text \<open>The constants of one run of \<open>LZ4HC_compress_generic\<close> and its variables.\<close>

record hc_env =
  h_source :: addr
  h_dest :: addr
  h_maxOutputSize :: int
  h_limit :: LZ4HC_limitedOutput_directive
  h_iend :: addr
  h_mflimit :: addr
  h_matchlimit :: addr
  h_oend :: addr
  h_maxNbAttempts :: nat

record hc_vars =
  v_m :: mem
  v_ctx :: LZ4HC_Data_Structure
  v_ip :: addr
  v_op :: addr
  v_anchor :: addr
  v_ml :: int
  v_ref :: addr
  v_ml2 :: int
  v_ref2 :: addr
  v_start2 :: addr
  v_ml3 :: int
  v_ref3 :: addr
  v_start3 :: addr
  v_ml0 :: int
  v_ref0 :: addr
  v_start0 :: addr

text \<open>
  The main loop is a machine with a label for the head of the loop and the two labels of the code.
  A step goes from one label to the next, or leaves the loop, or returns 0.
\<close>

datatype hc_label = Main_loop | Search2 | Search3

datatype hc_outcome = Goto hc_label hc_vars | Leave hc_vars | Fail mem LZ4HC_Data_Structure

text \<open>\<open>if (LZ4HC_encodeSequence(&ip, &op, &anchor, ml, ref, limit, oend)) return 0;\<close> and what follows.\<close>

definition hc_encode :: "hc_env \<Rightarrow> hc_vars \<Rightarrow> int \<Rightarrow> addr \<Rightarrow> (hc_vars \<Rightarrow> hc_outcome option) \<Rightarrow> hc_outcome option" where
  "hc_encode e s ml ref next =
     do { r \<leftarrow> LZ4HC_encodeSequence (v_m s) (v_ip s) (v_op s) (v_anchor s) ml ref (h_limit e) (h_oend e);
          case r of
            Inl m \<Rightarrow> Some (Fail m (v_ctx s))
          | Inr (m, ip, op, anchor) \<Rightarrow> next (s\<lparr>v_m := m, v_ip := ip, v_op := op, v_anchor := anchor\<rparr>) }"

definition hc_main :: "hc_env \<Rightarrow> hc_vars \<Rightarrow> hc_outcome option" where
  "hc_main e s =
     (if v_ip s < h_mflimit e
      then do { (ctx, ml, ref) \<leftarrow> LZ4HC_InsertAndFindBestMatch (v_m s) (v_ctx s) (v_ip s) (h_matchlimit e) (v_ref s)
                                  (h_maxNbAttempts e);
                let s = s\<lparr>v_ctx := ctx, v_ml := ml, v_ref := ref\<rparr>;
                Some (if ml = 0 then Goto Main_loop (s\<lparr>v_ip := v_ip s + 1\<rparr>)
                      else Goto Search2 (s\<lparr>v_start0 := v_ip s, v_ref0 := ref, v_ml0 := ml\<rparr>)) }
      else Some (Leave s))"

definition hc_search2 :: "hc_env \<Rightarrow> hc_vars \<Rightarrow> hc_outcome option" where
  "hc_search2 e s =
     do { s \<leftarrow> (if v_ip s + v_ml s < h_mflimit e
               then do { (ctx, ml2, ref2, start2) \<leftarrow>
                           LZ4HC_InsertAndGetWiderMatch (v_m s) (v_ctx s) (v_ip s + v_ml s - 2) (v_ip s + 1)
                             (h_matchlimit e) (v_ml s) (v_ref2 s) (v_start2 s) (h_maxNbAttempts e);
                         Some (s\<lparr>v_ctx := ctx, v_ml2 := ml2, v_ref2 := ref2, v_start2 := start2\<rparr>) }
               else Some (s\<lparr>v_ml2 := v_ml s\<rparr>));
          if v_ml2 s = v_ml s
          then hc_encode e s (v_ml s) (v_ref s) (\<lambda>s. Some (Goto Main_loop s))
          else
            let s = (if v_start0 s < v_ip s \<and> v_start2 s < v_ip s + v_ml0 s
                     then s\<lparr>v_ip := v_start0 s, v_ref := v_ref0 s, v_ml := v_ml0 s\<rparr> else s)
            in if v_start2 s - v_ip s < 3
               then Some (Goto Search2 (s\<lparr>v_ml := v_ml2 s, v_ip := v_start2 s, v_ref := v_ref2 s\<rparr>))
               else Some (Goto Search3 s) }"

text \<open>
  The first match is shortened to \<open>OPTIMAL_ML\<close> and so that the second keeps \<open>MINMATCH\<close> bytes; the
  second one then starts where the first ends.
\<close>

definition hc_new_ml :: "hc_vars \<Rightarrow> int" where
  "hc_new_ml s =
     (let new_ml = v_ml s;
          new_ml = (if new_ml > OPTIMAL_ML then OPTIMAL_ML else new_ml)
      in if v_ip s + new_ml > v_start2 s + v_ml2 s - MINMATCH
         then (v_start2 s - v_ip s) + v_ml2 s - MINMATCH else new_ml)"

definition hc_correct2 :: "int \<Rightarrow> hc_vars \<Rightarrow> hc_vars" where
  "hc_correct2 correction s =
     (if correction > 0
      then s\<lparr>v_start2 := v_start2 s + correction, v_ref2 := v_ref2 s + correction, v_ml2 := v_ml2 s - correction\<rparr>
      else s)"

text \<open>\<open>start2 = start3; ref2 = ref3; ml2 = ml3;\<close>\<close>

definition hc_third_is_second :: "hc_vars \<Rightarrow> hc_vars" where
  "hc_third_is_second s = s\<lparr>v_start2 := v_start3 s, v_ref2 := v_ref3 s, v_ml2 := v_ml3 s\<rparr>"

text \<open>No better match: two sequences to encode.\<close>

definition hc_two_sequences :: "hc_env \<Rightarrow> hc_vars \<Rightarrow> hc_outcome option" where
  "hc_two_sequences e s =
     (let s = (if v_start2 s < v_ip s + v_ml s then s\<lparr>v_ml := v_start2 s - v_ip s\<rparr> else s)
      in hc_encode e s (v_ml s) (v_ref s)
           (\<lambda>s. hc_encode e (s\<lparr>v_ip := v_start2 s\<rparr>) (v_ml2 s) (v_ref2 s) (\<lambda>s. Some (Goto Main_loop s))))"

text \<open>Not enough space for match 2: it is removed.\<close>

definition hc_remove_second :: "hc_env \<Rightarrow> hc_vars \<Rightarrow> hc_outcome option" where
  "hc_remove_second e s =
     (if v_start3 s \<ge> v_ip s + v_ml s
      then
        let s = (if v_start2 s < v_ip s + v_ml s
                 then let correction = v_ip s + v_ml s - v_start2 s;
                          s = s\<lparr>v_start2 := v_start2 s + correction, v_ref2 := v_ref2 s + correction,
                                v_ml2 := v_ml2 s - correction\<rparr>
                      in if v_ml2 s < MINMATCH then hc_third_is_second s else s
                 else s)
        in hc_encode e s (v_ml s) (v_ref s)
             (\<lambda>s. Some (Goto Search2
                (s\<lparr>v_ip := v_start3 s, v_ref := v_ref3 s, v_ml := v_ml3 s,
                   v_start0 := v_start2 s, v_ref0 := v_ref2 s, v_ml0 := v_ml2 s\<rparr>)))
      else Some (Goto Search3 (hc_third_is_second s)))"

text \<open>Three ascending matches: the first one is written.\<close>

definition hc_three_matches :: "hc_env \<Rightarrow> hc_vars \<Rightarrow> hc_outcome option" where
  "hc_three_matches e s =
     (let s = (if v_start2 s < v_ip s + v_ml s
               then if v_start2 s - v_ip s < ML_MASK
                    then let ml = hc_new_ml s
                         in hc_correct2 (ml - (v_start2 s - v_ip s)) (s\<lparr>v_ml := ml\<rparr>)
                    else s\<lparr>v_ml := v_start2 s - v_ip s\<rparr>
               else s)
      in hc_encode e s (v_ml s) (v_ref s)
           (\<lambda>s. Some (Goto Search3
              (hc_third_is_second (s\<lparr>v_ip := v_start2 s, v_ref := v_ref2 s, v_ml := v_ml2 s\<rparr>)))))"

definition hc_search3 :: "hc_env \<Rightarrow> hc_vars \<Rightarrow> hc_outcome option" where
  "hc_search3 e s =
     do { let s = (if v_start2 s - v_ip s < OPTIMAL_ML
                   then hc_correct2 (hc_new_ml s - (v_start2 s - v_ip s)) s else s);
          s \<leftarrow> (if v_start2 s + v_ml2 s < h_mflimit e
               then do { (ctx, ml3, ref3, start3) \<leftarrow>
                           LZ4HC_InsertAndGetWiderMatch (v_m s) (v_ctx s) (v_start2 s + v_ml2 s - 3) (v_start2 s)
                             (h_matchlimit e) (v_ml2 s) (v_ref3 s) (v_start3 s) (h_maxNbAttempts e);
                         Some (s\<lparr>v_ctx := ctx, v_ml3 := ml3, v_ref3 := ref3, v_start3 := start3\<rparr>) }
               else Some (s\<lparr>v_ml3 := v_ml2 s\<rparr>));
          if v_ml3 s = v_ml2 s then hc_two_sequences e s
          else if v_start3 s < v_ip s + v_ml s + 3 then hc_remove_second e s
          else hc_three_matches e s }"

definition hc_step :: "hc_env \<Rightarrow> hc_label \<Rightarrow> hc_vars \<Rightarrow> hc_outcome option" where
  "hc_step e l s = (case l of Main_loop \<Rightarrow> hc_main e s | Search2 \<Rightarrow> hc_search2 e s | Search3 \<Rightarrow> hc_search3 e s)"

partial_function (option) hc_loop :: "hc_env \<Rightarrow> hc_label \<Rightarrow> hc_vars \<Rightarrow> (mem \<times> LZ4HC_Data_Structure + hc_vars) option" where
  "hc_loop e l s =
     do { r \<leftarrow> hc_step e l s;
          case r of
            Goto l s \<Rightarrow> hc_loop e l s
          | Leave s \<Rightarrow> Some (Inr s)
          | Fail m ctx \<Rightarrow> Some (Inl (m, ctx)) }"

text \<open>\<open>Encode Last Literals\<close>.\<close>

definition hc_encode_last :: "hc_env \<Rightarrow> mem \<Rightarrow> addr \<Rightarrow> addr \<Rightarrow> (mem \<times> int) option" where
  "hc_encode_last e m op anchor =
     (let lastRun = cast_int (h_iend e - anchor)
      in if h_limit e = HC_limitedOutput \<and>
            (op - h_dest e) + lastRun + 1 + (lastRun + 255 - RUN_MASK) div 255 > cast_u32 (h_maxOutputSize e)
         then Some (m, 0)
         else do {
           (m, op) \<leftarrow> LZ4_put_token m op lastRun;
           m \<leftarrow> memcpy m op anchor (h_iend e - anchor);
           Some (m, cast_int (op + (h_iend e - anchor) - h_dest e)) })"

definition LZ4HC_compress_generic ::
  "mem \<Rightarrow> LZ4HC_Data_Structure \<Rightarrow> addr \<Rightarrow> addr \<Rightarrow> int \<Rightarrow> int \<Rightarrow> int \<Rightarrow> LZ4HC_limitedOutput_directive \<Rightarrow>
   (mem \<times> LZ4HC_Data_Structure \<times> int) option" where
  "LZ4HC_compress_generic m ctx source dest inputSize maxOutputSize compressionLevel limit =
     (let compressionLevel = (if compressionLevel > g_maxCompressionLevel then g_maxCompressionLevel else compressionLevel);
          compressionLevel = (if compressionLevel < 1 then LZ4HC_compressionLevel_default else compressionLevel);
          e = \<lparr>h_source = source, h_dest = dest, h_maxOutputSize = maxOutputSize, h_limit = limit,
               h_iend = source + inputSize, h_mflimit = source + inputSize - MFLIMIT,
               h_matchlimit = source + inputSize - LASTLITERALS, h_oend = dest + maxOutputSize,
               h_maxNbAttempts = 2 ^ nat (compressionLevel - 1)\<rparr>;
          ctx = ctx\<lparr>hc_end := hc_end ctx + inputSize\<rparr>;
          s = \<lparr>v_m = m, v_ctx = ctx, v_ip = source + 1, v_op = dest, v_anchor = source,
               v_ml = 0, v_ref = 0, v_ml2 = 0, v_ref2 = 0, v_start2 = 0, v_ml3 = 0, v_ref3 = 0, v_start3 = 0,
               v_ml0 = 0, v_ref0 = 0, v_start0 = 0\<rparr>
      in do { r \<leftarrow> hc_loop e Main_loop s;
              case r of
                Inl (m, ctx) \<Rightarrow> Some (m, ctx, 0)
              | Inr s \<Rightarrow> do { (m, n) \<leftarrow> hc_encode_last e (v_m s) (v_op s) (v_anchor s); Some (m, v_ctx s, n) } })"

declare LZ4HC_Insert_loop.simps [code] LZ4HC_back.simps [code] hc_loop.simps [code]

section \<open>One-shot compression\<close>

text \<open>The state is given with its address, which must be aligned for pointers.\<close>

definition LZ4_compress_HC_extStateHC ::
  "mem \<Rightarrow> addr \<Rightarrow> LZ4HC_Data_Structure \<Rightarrow> addr \<Rightarrow> addr \<Rightarrow> int \<Rightarrow> int \<Rightarrow> int \<Rightarrow>
   (mem \<times> LZ4HC_Data_Structure \<times> int) option" where
  "LZ4_compress_HC_extStateHC m state ctx src dst srcSize maxDstSize compressionLevel =
     (if state AND 7 \<noteq> 0 then Some (m, ctx, 0)
      else let ctx = LZ4HC_init ctx src
           in if maxDstSize < LZ4_compressBound srcSize
              then LZ4HC_compress_generic m ctx src dst srcSize maxDstSize compressionLevel HC_limitedOutput
              else LZ4HC_compress_generic m ctx src dst srcSize maxDstSize compressionLevel noLimit)"

text \<open>The state is a local variable, aligned and with arbitrary contents.\<close>

definition LZ4_compress_HC ::
  "LZ4HC_Data_Structure \<Rightarrow> mem \<Rightarrow> addr \<Rightarrow> addr \<Rightarrow> int \<Rightarrow> int \<Rightarrow> int \<Rightarrow> (mem \<times> int) option" where
  "LZ4_compress_HC state m src dst srcSize maxDstSize compressionLevel =
     do { (m, ctx, r) \<leftarrow> LZ4_compress_HC_extStateHC m 0 state src dst srcSize maxDstSize compressionLevel;
          Some (m, r) }"

section \<open>Streaming\<close>

definition LZ4_resetStreamHC :: "LZ4HC_Data_Structure \<Rightarrow> int \<Rightarrow> LZ4HC_Data_Structure" where
  "LZ4_resetStreamHC ctx compressionLevel =
     ctx\<lparr>hc_base := 0, hc_compressionLevel := cast_u32 compressionLevel\<rparr>"

definition LZ4_loadDictHC ::
  "mem \<Rightarrow> LZ4HC_Data_Structure \<Rightarrow> addr \<Rightarrow> int \<Rightarrow> (LZ4HC_Data_Structure \<times> int) option" where
  "LZ4_loadDictHC m ctx dict_start dict_size =
     (let (dict_start, dict_size) =
            (if dict_size > KB64 then (dict_start + (dict_size - KB64), KB64) else (dict_start, dict_size));
          ctx = LZ4HC_init ctx dict_start
      in do { ctx \<leftarrow> (if dict_size \<ge> 4 then LZ4HC_Insert m ctx (dict_start + (dict_size - 3)) else Some ctx);
              Some (ctx\<lparr>hc_end := dict_start + dict_size\<rparr>, dict_size) })"

definition LZ4HC_setExternalDict ::
  "mem \<Rightarrow> LZ4HC_Data_Structure \<Rightarrow> addr \<Rightarrow> LZ4HC_Data_Structure option" where
  "LZ4HC_setExternalDict m ctx newBlock =
     do { ctx \<leftarrow> (if hc_end ctx \<ge> hc_base ctx + 4 then LZ4HC_Insert m ctx (hc_end ctx - 3) else Some ctx);
          let ctx = ctx\<lparr>hc_lowLimit := hc_dictLimit ctx\<rparr>;
          let ctx = ctx\<lparr>hc_dictLimit := cast_u32 (hc_end ctx - hc_base ctx)\<rparr>;
          let ctx = ctx\<lparr>hc_dictBase := hc_base ctx\<rparr>;
          let ctx = ctx\<lparr>hc_base := newBlock - hc_dictLimit ctx\<rparr>;
          let ctx = ctx\<lparr>hc_end := newBlock\<rparr>;
          Some (ctx\<lparr>hc_nextToUpdate := hc_dictLimit ctx\<rparr>) }"

text \<open>\<open>Check overflow\<close>: after 2 GB the end of the prefix is loaded as a new dictionary.\<close>

definition hc_check_overflow :: "mem \<Rightarrow> LZ4HC_Data_Structure \<Rightarrow> LZ4HC_Data_Structure option" where
  "hc_check_overflow m ctx =
     (if cast_u64 (hc_end ctx - hc_base ctx) > 2 * 2 ^ 30
      then do { let size = cast_u64 (cast_u64 (hc_end ctx - hc_base ctx) - hc_dictLimit ctx);
                let size = (if size > KB64 then KB64 else size);
                (ctx, _) \<leftarrow> LZ4_loadDictHC m ctx (hc_end ctx - size) size;
                Some ctx }
      else Some ctx)"

text \<open>\<open>Check overlapping input/dictionary space\<close>.\<close>

definition hc_check_overlap :: "LZ4HC_Data_Structure \<Rightarrow> addr \<Rightarrow> int \<Rightarrow> LZ4HC_Data_Structure" where
  "hc_check_overlap ctx source inputSize =
     (let sourceEnd = source + inputSize;
          dictBegin = hc_dictBase ctx + hc_lowLimit ctx;
          dictEnd = hc_dictBase ctx + hc_dictLimit ctx
      in if sourceEnd > dictBegin \<and> source < dictEnd
         then let sourceEnd = (if sourceEnd > dictEnd then dictEnd else sourceEnd);
                  ctx = ctx\<lparr>hc_lowLimit := cast_u32 (sourceEnd - hc_dictBase ctx)\<rparr>
              in if cast_u32 (hc_dictLimit ctx - hc_lowLimit ctx) < 4 then ctx\<lparr>hc_lowLimit := hc_dictLimit ctx\<rparr> else ctx
         else ctx)"

definition LZ4_compressHC_continue_generic ::
  "mem \<Rightarrow> LZ4HC_Data_Structure \<Rightarrow> addr \<Rightarrow> addr \<Rightarrow> int \<Rightarrow> int \<Rightarrow> LZ4HC_limitedOutput_directive \<Rightarrow>
   (mem \<times> LZ4HC_Data_Structure \<times> int) option" where
  "LZ4_compressHC_continue_generic m ctx source dest inputSize maxOutputSize limit =
     do { let ctx = (if hc_base ctx = 0 then LZ4HC_init ctx source else ctx);
          ctx \<leftarrow> hc_check_overflow m ctx;
          ctx \<leftarrow> (if source \<noteq> hc_end ctx then LZ4HC_setExternalDict m ctx source else Some ctx);
          let ctx = hc_check_overlap ctx source inputSize;
          LZ4HC_compress_generic m ctx source dest inputSize maxOutputSize (cast_int (hc_compressionLevel ctx)) limit }"

definition LZ4_compress_HC_continue ::
  "mem \<Rightarrow> LZ4HC_Data_Structure \<Rightarrow> addr \<Rightarrow> addr \<Rightarrow> int \<Rightarrow> int \<Rightarrow> (mem \<times> LZ4HC_Data_Structure \<times> int) option" where
  "LZ4_compress_HC_continue m ctx source dest inputSize maxOutputSize =
     (if maxOutputSize < LZ4_compressBound inputSize
      then LZ4_compressHC_continue_generic m ctx source dest inputSize maxOutputSize HC_limitedOutput
      else LZ4_compressHC_continue_generic m ctx source dest inputSize maxOutputSize noLimit)"

definition LZ4_saveDictHC ::
  "mem \<Rightarrow> LZ4HC_Data_Structure \<Rightarrow> addr \<Rightarrow> int \<Rightarrow> (mem \<times> LZ4HC_Data_Structure \<times> int) option" where
  "LZ4_saveDictHC m ctx safeBuffer dict_size =
     (let prefixSize = cast_int (hc_end ctx - (hc_base ctx + hc_dictLimit ctx));
          dict_size = (if dict_size > KB64 then KB64 else dict_size);
          dict_size = (if dict_size < 4 then 0 else dict_size);
          dict_size = (if dict_size > prefixSize then prefixSize else dict_size)
      in do { m \<leftarrow> memmove m safeBuffer (hc_end ctx - dict_size) dict_size;
              let endIndex = cast_u32 (hc_end ctx - hc_base ctx);
              let ctx = ctx\<lparr>hc_end := safeBuffer + dict_size\<rparr>;
              let ctx = ctx\<lparr>hc_base := hc_end ctx - endIndex\<rparr>;
              let ctx = ctx\<lparr>hc_dictLimit := cast_u32 (endIndex - dict_size)\<rparr>;
              let ctx = ctx\<lparr>hc_lowLimit := cast_u32 (endIndex - dict_size)\<rparr>;
              let ctx = (if hc_nextToUpdate ctx < hc_dictLimit ctx then ctx\<lparr>hc_nextToUpdate := hc_dictLimit ctx\<rparr> else ctx);
              Some (m, ctx, dict_size) })"

section \<open>Deprecated functions\<close>

definition LZ4_compressHC ::
  "LZ4HC_Data_Structure \<Rightarrow> mem \<Rightarrow> addr \<Rightarrow> addr \<Rightarrow> int \<Rightarrow> (mem \<times> int) option" where
  "LZ4_compressHC state m src dst srcSize = LZ4_compress_HC state m src dst srcSize (LZ4_compressBound srcSize) 0"

definition LZ4_compressHC_limitedOutput ::
  "LZ4HC_Data_Structure \<Rightarrow> mem \<Rightarrow> addr \<Rightarrow> addr \<Rightarrow> int \<Rightarrow> int \<Rightarrow> (mem \<times> int) option" where
  "LZ4_compressHC_limitedOutput state m src dst srcSize maxDstSize = LZ4_compress_HC state m src dst srcSize maxDstSize 0"

definition LZ4_compressHC2 ::
  "LZ4HC_Data_Structure \<Rightarrow> mem \<Rightarrow> addr \<Rightarrow> addr \<Rightarrow> int \<Rightarrow> int \<Rightarrow> (mem \<times> int) option" where
  "LZ4_compressHC2 state m src dst srcSize cLevel =
     LZ4_compress_HC state m src dst srcSize (LZ4_compressBound srcSize) cLevel"

definition LZ4_compressHC2_limitedOutput ::
  "LZ4HC_Data_Structure \<Rightarrow> mem \<Rightarrow> addr \<Rightarrow> addr \<Rightarrow> int \<Rightarrow> int \<Rightarrow> int \<Rightarrow> (mem \<times> int) option" where
  "LZ4_compressHC2_limitedOutput state m src dst srcSize maxDstSize cLevel =
     LZ4_compress_HC state m src dst srcSize maxDstSize cLevel"

definition LZ4_compressHC_withStateHC ::
  "mem \<Rightarrow> addr \<Rightarrow> LZ4HC_Data_Structure \<Rightarrow> addr \<Rightarrow> addr \<Rightarrow> int \<Rightarrow> (mem \<times> LZ4HC_Data_Structure \<times> int) option" where
  "LZ4_compressHC_withStateHC m state ctx src dst srcSize =
     LZ4_compress_HC_extStateHC m state ctx src dst srcSize (LZ4_compressBound srcSize) 0"

definition LZ4_compressHC_limitedOutput_withStateHC ::
  "mem \<Rightarrow> addr \<Rightarrow> LZ4HC_Data_Structure \<Rightarrow> addr \<Rightarrow> addr \<Rightarrow> int \<Rightarrow> int \<Rightarrow>
   (mem \<times> LZ4HC_Data_Structure \<times> int) option" where
  "LZ4_compressHC_limitedOutput_withStateHC m state ctx src dst srcSize maxDstSize =
     LZ4_compress_HC_extStateHC m state ctx src dst srcSize maxDstSize 0"

definition LZ4_compressHC2_withStateHC ::
  "mem \<Rightarrow> addr \<Rightarrow> LZ4HC_Data_Structure \<Rightarrow> addr \<Rightarrow> addr \<Rightarrow> int \<Rightarrow> int \<Rightarrow>
   (mem \<times> LZ4HC_Data_Structure \<times> int) option" where
  "LZ4_compressHC2_withStateHC m state ctx src dst srcSize cLevel =
     LZ4_compress_HC_extStateHC m state ctx src dst srcSize (LZ4_compressBound srcSize) cLevel"

definition LZ4_compressHC2_limitedOutput_withStateHC ::
  "mem \<Rightarrow> addr \<Rightarrow> LZ4HC_Data_Structure \<Rightarrow> addr \<Rightarrow> addr \<Rightarrow> int \<Rightarrow> int \<Rightarrow> int \<Rightarrow>
   (mem \<times> LZ4HC_Data_Structure \<times> int) option" where
  "LZ4_compressHC2_limitedOutput_withStateHC m state ctx src dst srcSize maxDstSize cLevel =
     LZ4_compress_HC_extStateHC m state ctx src dst srcSize maxDstSize cLevel"

definition LZ4_compressHC_continue ::
  "mem \<Rightarrow> LZ4HC_Data_Structure \<Rightarrow> addr \<Rightarrow> addr \<Rightarrow> int \<Rightarrow> (mem \<times> LZ4HC_Data_Structure \<times> int) option" where
  "LZ4_compressHC_continue m ctx src dst srcSize =
     LZ4_compress_HC_continue m ctx src dst srcSize (LZ4_compressBound srcSize)"

definition LZ4_compressHC_limitedOutput_continue ::
  "mem \<Rightarrow> LZ4HC_Data_Structure \<Rightarrow> addr \<Rightarrow> addr \<Rightarrow> int \<Rightarrow> int \<Rightarrow> (mem \<times> LZ4HC_Data_Structure \<times> int) option" where
  "LZ4_compressHC_limitedOutput_continue m ctx src dst srcSize maxDstSize =
     LZ4_compress_HC_continue m ctx src dst srcSize maxDstSize"

text \<open>The result 1 is an error.\<close>

definition LZ4_resetStreamStateHC ::
  "addr \<Rightarrow> LZ4HC_Data_Structure \<Rightarrow> addr \<Rightarrow> LZ4HC_Data_Structure \<times> int" where
  "LZ4_resetStreamStateHC state ctx inputBuffer =
     (if state AND 7 \<noteq> 0 then (ctx, 1) else ((LZ4HC_init ctx inputBuffer)\<lparr>hc_inputBuffer := inputBuffer\<rparr>, 0))"

definition LZ4_compressHC2_continue ::
  "mem \<Rightarrow> LZ4HC_Data_Structure \<Rightarrow> addr \<Rightarrow> addr \<Rightarrow> int \<Rightarrow> int \<Rightarrow> (mem \<times> LZ4HC_Data_Structure \<times> int) option" where
  "LZ4_compressHC2_continue m ctx source dest inputSize compressionLevel =
     LZ4HC_compress_generic m ctx source dest inputSize 0 compressionLevel noLimit"

definition LZ4_compressHC2_limitedOutput_continue ::
  "mem \<Rightarrow> LZ4HC_Data_Structure \<Rightarrow> addr \<Rightarrow> addr \<Rightarrow> int \<Rightarrow> int \<Rightarrow> int \<Rightarrow> (mem \<times> LZ4HC_Data_Structure \<times> int) option" where
  "LZ4_compressHC2_limitedOutput_continue m ctx source dest inputSize maxOutputSize compressionLevel =
     LZ4HC_compress_generic m ctx source dest inputSize maxOutputSize compressionLevel HC_limitedOutput"

definition LZ4_slideInputBufferHC ::
  "mem \<Rightarrow> LZ4HC_Data_Structure \<Rightarrow> (mem \<times> LZ4HC_Data_Structure \<times> addr) option" where
  "LZ4_slideInputBufferHC m ctx =
     do { (m, ctx, size) \<leftarrow> LZ4_saveDictHC m ctx (hc_inputBuffer ctx) KB64;
          Some (m, ctx, hc_inputBuffer ctx + size) }"

end
