(* ===== verification/LZ4_HC_Find.thy ===== *)
theory LZ4_HC_Find
  imports LZ4_HC LZ4_Sequence
begin

text \<open>
  The hash chains and the two searches of \<^verbatim>\<open>lz4hc.c\<close>. Whatever a search returns is a match in the
  data: the chains only propose positions, and every proposal is compared. The invariant of
  the tables says that a proposal is never one of the last three bytes of the dictionary, where
  four bytes cannot be read.
\<close>

section \<open>Data\<close>

definition hc_read :: "LZ4HC_Data_Structure \<Rightarrow> mem \<Rightarrow> int \<Rightarrow> byte option" where
  "hc_read ctx m i = (if i < hc_dictLimit ctx then m (hc_dictBase ctx + i) else m (hc_base ctx + i))"

text \<open>The data \<open>D\<close> are the bytes from index \<open>lowLimit\<close> on, to the end of the input.\<close>

definition hc_data :: "LZ4HC_Data_Structure \<Rightarrow> mem \<Rightarrow> byte list \<Rightarrow> bool" where
  "hc_data ctx m D \<longleftrightarrow>
     65536 \<le> hc_lowLimit ctx \<and> hc_lowLimit ctx \<le> hc_dictLimit ctx \<and>
     hc_dictLimit ctx \<le> hc_lowLimit ctx + int (length D) \<and> hc_lowLimit ctx + int (length D) + 65536 < 2 ^ 32 \<and>
     (\<forall>k < length D. hc_read ctx m (hc_lowLimit ctx + int k) = Some (D ! k))"

definition hc_size :: "LZ4HC_Data_Structure \<Rightarrow> byte list \<Rightarrow> int" where
  "hc_size ctx D = hc_lowLimit ctx + int (length D)"

lemma hc_data_limits:
  assumes "hc_data ctx m D"
  shows "65536 \<le> hc_lowLimit ctx" "hc_lowLimit ctx \<le> hc_dictLimit ctx" "hc_dictLimit ctx \<le> hc_size ctx D"
    "hc_size ctx D + 65536 < 2 ^ 32"
  using assms by (auto simp: hc_data_def hc_size_def)

lemma hc_data_at:
  assumes "hc_data ctx m D" "hc_lowLimit ctx \<le> i" "i < hc_size ctx D"
  shows "hc_read ctx m i = Some (D ! nat (i - hc_lowLimit ctx))"
proof -
  have "nat (i - hc_lowLimit ctx) < length D" "hc_lowLimit ctx + int (nat (i - hc_lowLimit ctx)) = i"
    using assms by (auto simp: hc_size_def)
  then show ?thesis using assms(1) unfolding hc_data_def by metis
qed

lemma hc_prefix_mapped:
  assumes "hc_data ctx m D"
  shows "mapped m (hc_base ctx + hc_dictLimit ctx) (hc_base ctx + hc_size ctx D)"
  unfolding mapped_def
proof (intro allI impI)
  fix a assume a: "hc_base ctx + hc_dictLimit ctx \<le> a \<and> a < hc_base ctx + hc_size ctx D"
  then have "hc_read ctx m (a - hc_base ctx) \<noteq> None"
    using hc_data_at [OF assms, of "a - hc_base ctx"] hc_data_limits(2) [OF assms] by simp
  then show "m a \<noteq> None" using a by (simp add: hc_read_def)
qed

lemma hc_dict_mapped:
  assumes "hc_data ctx m D"
  shows "mapped m (hc_dictBase ctx + hc_lowLimit ctx) (hc_dictBase ctx + hc_dictLimit ctx)"
  unfolding mapped_def
proof (intro allI impI)
  fix a assume a: "hc_dictBase ctx + hc_lowLimit ctx \<le> a \<and> a < hc_dictBase ctx + hc_dictLimit ctx"
  then have "hc_read ctx m (a - hc_dictBase ctx) \<noteq> None"
    using hc_data_at [OF assms, of "a - hc_dictBase ctx"] hc_data_limits(3) [OF assms] by simp
  then show "m a \<noteq> None" using a by (simp add: hc_read_def)
qed

text \<open>The \<open>n\<close> bytes from index \<open>i\<close> on repeat the ones from \<open>j\<close> on.\<close>

definition hc_rep :: "LZ4HC_Data_Structure \<Rightarrow> mem \<Rightarrow> int \<Rightarrow> int \<Rightarrow> int \<Rightarrow> bool" where
  "hc_rep ctx m i j n \<longleftrightarrow> (\<forall>k. 0 \<le> k \<and> k < n \<longrightarrow> hc_read ctx m (i + k) = hc_read ctx m (j + k))"

lemma agree_hc_rep:
  assumes "agree m (hc_base ctx + i) (hc_base ctx + j) n" "hc_dictLimit ctx \<le> i" "hc_dictLimit ctx \<le> j"
  shows "hc_rep ctx m i j n"
  using assms by (auto simp: hc_rep_def agree_def hc_read_def add.assoc)

lemma agree_hc_rep_dict:
  assumes "agree m (hc_base ctx + i) (hc_dictBase ctx + j) n" "hc_dictLimit ctx \<le> i" "j + n \<le> hc_dictLimit ctx"
  shows "hc_rep ctx m i j n"
  using assms by (auto simp: hc_rep_def agree_def hc_read_def add.assoc)

lemma hc_rep_extend:
  assumes "hc_rep ctx m i j a" "hc_rep ctx m (i + a) (j + a) b" "0 \<le> a"
  shows "hc_rep ctx m i j (a + b)"
  unfolding hc_rep_def
proof (intro allI impI)
  fix k assume k: "0 \<le> k \<and> k < a + b"
  show "hc_read ctx m (i + k) = hc_read ctx m (j + k)"
  proof (cases "k < a")
    case True
    then show ?thesis using assms(1) k by (simp add: hc_rep_def)
  next
    case False
    moreover have "i + a + (k - a) = i + k" "j + a + (k - a) = j + k" by simp_all
    ultimately show ?thesis using assms(2) k unfolding hc_rep_def by (metis diff_ge_0_iff_ge diff_less_eq add.commute not_less)
  qed
qed

lemma hc_rep_rmatch:
  assumes "hc_data ctx m D" "hc_rep ctx m i j (int n)" "hc_lowLimit ctx \<le> j" "j < i" "i - j \<le> 65535"
    "i + int n \<le> hc_size ctx D"
  shows "rmatch D (nat (i - hc_lowLimit ctx)) (nat (i - j)) n"
proof -
  have "D ! (nat (i - hc_lowLimit ctx) + k) = D ! (nat (i - hc_lowLimit ctx) - nat (i - j) + k)" if "k < n" for k
  proof -
    have "hc_read ctx m (i + int k) = hc_read ctx m (j + int k)" using assms(2) that by (simp add: hc_rep_def)
    moreover have "nat (i + int k - hc_lowLimit ctx) = nat (i - hc_lowLimit ctx) + k"
      "nat (j + int k - hc_lowLimit ctx) = nat (i - hc_lowLimit ctx) - nat (i - j) + k" using assms by auto
    ultimately show ?thesis
      using hc_data_at [OF assms(1), of "i + int k"] hc_data_at [OF assms(1), of "j + int k"] assms that by simp
  qed
  then show ?thesis using assms by (auto simp: rmatch_def hc_size_def)
qed

section \<open>Tables\<close>

definition tail_free :: "LZ4HC_Data_Structure \<Rightarrow> int \<Rightarrow> bool" where
  "tail_free ctx i \<longleftrightarrow> i < hc_lowLimit ctx \<or> i + 4 \<le> hc_dictLimit ctx \<or> hc_dictLimit ctx \<le> i"

definition hc_tables :: "LZ4HC_Data_Structure \<Rightarrow> bool" where
  "hc_tables ctx \<longleftrightarrow>
     (\<forall>h < 2 ^ 15. 0 \<le> hc_hashTable ctx h \<and> hc_hashTable ctx h < hc_nextToUpdate ctx \<and> tail_free ctx (hc_hashTable ctx h)) \<and>
     (\<forall>k. 0 \<le> hc_chainTable ctx k \<and> hc_chainTable ctx k \<le> 65535) \<and>
     (\<forall>i. hc_lowLimit ctx \<le> i \<and> i < hc_nextToUpdate ctx \<and> hc_nextToUpdate ctx \<le> i + 65536 \<and> tail_free ctx i \<longrightarrow>
        i - DELTANEXTU16 (hc_chainTable ctx) i + 65535 < hc_nextToUpdate ctx \<or>
        tail_free ctx (i - DELTANEXTU16 (hc_chainTable ctx) i))"

lemma HASH_FUNCTION_less: "HASH_FUNCTION w < 2 ^ 15"
proof -
  have "unat (w * 2654435761) < 2 ^ 32" by (rule order_less_le_trans [OF unsigned_less]) simp
  then have "drop_bit 17 (unat (w * 2654435761)) < 2 ^ 15" by (simp add: drop_bit_eq_div less_mult_imp_div_less)
  then show ?thesis by (simp add: HASH_FUNCTION_def unat_drop_bit_eq)
qed

lemma hashPtr_defined:
  assumes "mapped m p (p + 4)"
  shows "\<exists>h < 2 ^ 15. LZ4HC_hashPtr m p = Some h"
  using LZ4_read32_mapped [OF assms] HASH_FUNCTION_less by (auto simp: LZ4HC_hashPtr_def)

abbreviation with_tables ::
  "LZ4HC_Data_Structure \<Rightarrow> (nat \<Rightarrow> int) \<Rightarrow> (nat \<Rightarrow> int) \<Rightarrow> int \<Rightarrow> LZ4HC_Data_Structure" where
  "with_tables ctx HT CT n \<equiv> ctx\<lparr>hc_hashTable := HT, hc_chainTable := CT, hc_nextToUpdate := n\<rparr>"

lemma with_tables_data [simp]:
  "hc_data (with_tables ctx HT CT n) m D = hc_data ctx m D"
  "hc_size (with_tables ctx HT CT n) D = hc_size ctx D"
  "hc_read (with_tables ctx HT CT n) m i = hc_read ctx m i"
  "hc_rep (with_tables ctx HT CT n) m i j l = hc_rep ctx m i j l"
  "tail_free (with_tables ctx HT CT n) i = tail_free ctx i"
  by (simp_all add: hc_data_def hc_size_def hc_read_def hc_rep_def tail_free_def)

lemma hc_tables_insert:
  assumes T: "hc_tables (with_tables ctx HT CT idx)" and idx: "hc_dictLimit ctx \<le> idx" "0 \<le> idx" "idx < 2 ^ 32" and h: "h < 2 ^ 15"
  defines "delta \<equiv> (let d = cast_u32 (idx - HT h) in if d > MAX_DISTANCE then MAX_DISTANCE else d)"
  shows "hc_tables (with_tables ctx (HT(h := idx)) (CT(nat (cast_u16 idx) := cast_u16 delta)) (idx + 1))"
proof -
  have HT: "0 \<le> HT h" "HT h < idx" "tail_free ctx (HT h)" using T h by (auto simp: hc_tables_def)
  then have d: "delta = min (idx - HT h) 65535" using idx by (simp add: delta_def Let_def)
  have step: "i - DELTANEXTU16 (CT(nat (idx mod 2 ^ 16) := delta)) i + 65535 < idx + 1 \<or>
      tail_free ctx (i - DELTANEXTU16 (CT(nat (idx mod 2 ^ 16) := delta)) i)"
    if i: "hc_lowLimit ctx \<le> i" "i < idx + 1" "idx + 1 \<le> i + 65536" "tail_free ctx i" for i
  proof (cases "i = idx")
    case True
    then show ?thesis using HT d by (auto simp: DELTANEXTU16_def min_def)
  next
    case False
    have "idx mod 65536 \<noteq> i mod 65536"
    proof
      assume eq: "idx mod 65536 = i mod 65536"
      have "65536 dvd idx - i" using eq by (simp add: mod_eq_dvd_iff)
      then show False using zdvd_not_zless [of "idx - i" 65536] i False by simp
    qed
    then have "DELTANEXTU16 (CT(nat (idx mod 2 ^ 16) := delta)) i = DELTANEXTU16 CT i"
      by (simp add: DELTANEXTU16_def eq_nat_nat_iff)
    then show ?thesis using T i False by (fastforce simp: hc_tables_def)
  qed
  have "cast_u16 delta = delta" using d HT by auto
  moreover have "tail_free ctx idx" using idx by (simp add: tail_free_def)
  ultimately show ?thesis
    using T HT d step idx by (auto simp: hc_tables_def less_Suc_eq intro: less_trans)
qed

lemma Insert_loop_spec:
  assumes data: "hc_data ctx m D" and "hc_tables (with_tables ctx HT CT idx)"
    and "hc_dictLimit ctx \<le> idx" "idx \<le> target" "target + 3 \<le> hc_size ctx D"
  shows "\<exists>HT' CT'. LZ4HC_Insert_loop m (hc_base ctx) target HT CT idx = Some (HT', CT') \<and>
    hc_tables (with_tables ctx HT' CT' target)"
  using assms(2-)
proof (induction "nat (target - idx)" arbitrary: HT CT idx)
  case 0
  then show ?case by (subst LZ4HC_Insert_loop.simps) simp
next
  case (Suc n)
  note lims = hc_data_limits [OF data]
  have lt: "idx < target" using Suc.hyps(2) by simp
  have "mapped m (hc_base ctx + idx) (hc_base ctx + idx + 4)"
    using hc_prefix_mapped [OF data] Suc.prems lt by (auto intro: mapped_subset)
  then obtain h where h: "LZ4HC_hashPtr m (hc_base ctx + idx) = Some h" "h < 2 ^ 15"
    using hashPtr_defined by blast
  define CT' where "CT' = CT(nat (cast_u16 idx) := cast_u16 (let d = cast_u32 (idx - HT h) in if d > MAX_DISTANCE then MAX_DISTANCE else d))"
  have "hc_tables (with_tables ctx (HT(h := idx)) CT' (idx + 1))"
    unfolding CT'_def using hc_tables_insert [OF Suc.prems(1,2) _ _ h(2)] lims lt Suc.prems by simp
  moreover have "LZ4HC_Insert_loop m (hc_base ctx) target HT CT idx =
      LZ4HC_Insert_loop m (hc_base ctx) target (HT(h := idx)) CT' (idx + 1)"
    using lt h(1) lims Suc.prems
    by (subst LZ4HC_Insert_loop.simps) (simp add: CT'_def Let_def)
  ultimately show ?case
    using Suc.hyps(1) [of "idx + 1" CT' "HT(h := idx)"] Suc.hyps(2) Suc.prems lt by auto
qed

lemma Insert_spec:
  assumes "hc_data ctx m D" "hc_tables ctx" "hc_dictLimit ctx \<le> hc_nextToUpdate ctx"
    and "hc_nextToUpdate ctx \<le> ip - hc_base ctx" "ip + 3 \<le> hc_base ctx + hc_size ctx D"
  shows "\<exists>HT CT. LZ4HC_Insert m ctx ip = Some (with_tables ctx HT CT (ip - hc_base ctx)) \<and>
    hc_tables (with_tables ctx HT CT (ip - hc_base ctx))"
proof -
  have "(ip - hc_base ctx) mod 2 ^ 32 = ip - hc_base ctx"
    using assms hc_data_limits [OF assms(1)] by auto
  moreover have "hc_tables (with_tables ctx (hc_hashTable ctx) (hc_chainTable ctx) (hc_nextToUpdate ctx))"
    using assms(2) by simp
  from Insert_loop_spec [OF assms(1) this assms(3,4)] assms(5)
  obtain HT CT where "LZ4HC_Insert_loop m (hc_base ctx) (ip - hc_base ctx) (hc_hashTable ctx) (hc_chainTable ctx)
      (hc_nextToUpdate ctx) = Some (HT, CT)" "hc_tables (with_tables ctx HT CT (ip - hc_base ctx))" by auto
  ultimately show ?thesis by (auto simp: LZ4HC_Insert_def Let_def)
qed

section \<open>Candidates\<close>

text \<open>What both searches know of a position \<open>j\<close> that the chains propose for \<open>i\<close>.\<close>

definition hc_candidate :: "LZ4HC_Data_Structure \<Rightarrow> int \<Rightarrow> int \<Rightarrow> bool" where
  "hc_candidate ctx i j \<longleftrightarrow> hc_lowLimit ctx \<le> j \<and> j < i \<and> i - j \<le> 65535 \<and> tail_free ctx j"

text \<open>A match of length \<open>ml\<close> at \<open>ip\<close> with the virtual address \<open>ref\<close>, up to \<open>lim\<close>.\<close>

definition hc_found :: "LZ4HC_Data_Structure \<Rightarrow> mem \<Rightarrow> addr \<Rightarrow> addr \<Rightarrow> addr \<Rightarrow> int \<Rightarrow> bool" where
  "hc_found ctx m lim ip ref ml \<longleftrightarrow>
     hc_lowLimit ctx \<le> ref - hc_base ctx \<and> ref < ip \<and> ip - ref \<le> 65535 \<and> 4 \<le> ml \<and> ip + ml \<le> lim \<and>
     hc_rep ctx m (ip - hc_base ctx) (ref - hc_base ctx) ml"

lemma hc_window_eq:
  assumes "hc_data ctx m D" "hc_dictLimit ctx \<le> ip - hc_base ctx" "ip - hc_base ctx \<le> hc_size ctx D"
  shows "hc_window ctx ip = max (hc_lowLimit ctx) (ip - hc_base ctx - 65535)"
  using assms hc_data_limits [OF assms(1)] by (simp add: hc_window_def max_def)

lemma candidate_next:
  assumes T: "hc_tables ctx" "hc_nextToUpdate ctx = i" and low: "65536 \<le> hc_lowLimit ctx" "i < 2 ^ 32"
    and j: "hc_candidate ctx i j"
  defines "j' \<equiv> cast_u32 (j - DELTANEXTU16 (hc_chainTable ctx) j)"
  shows "0 \<le> j'" "j' < i" "max (hc_lowLimit ctx) (i - 65535) \<le> j' \<Longrightarrow> hc_candidate ctx i j'"
proof -
  have d: "0 \<le> DELTANEXTU16 (hc_chainTable ctx) j" "DELTANEXTU16 (hc_chainTable ctx) j \<le> 65535"
    using T(1) by (simp_all add: hc_tables_def DELTANEXTU16_def)
  have j': "j' = j - DELTANEXTU16 (hc_chainTable ctx) j"
    using d j low by (simp add: j'_def hc_candidate_def)
  show "0 \<le> j'" "j' < i" using d j low by (simp_all add: j' hc_candidate_def)
  assume "max (hc_lowLimit ctx) (i - 65535) \<le> j'"
  moreover have "j' + 65535 < i \<or> tail_free ctx j'"
    using T j unfolding hc_tables_def j' hc_candidate_def by auto
  ultimately show "hc_candidate ctx i j'"
    using d j by (auto simp: hc_candidate_def j')
qed

lemma first_candidate:
  assumes "hc_tables ctx" "hc_nextToUpdate ctx = i" "h < 2 ^ 15"
  shows "0 \<le> hc_hashTable ctx h" "hc_hashTable ctx h < i"
    "max (hc_lowLimit ctx) (i - 65535) \<le> hc_hashTable ctx h \<Longrightarrow> hc_candidate ctx i (hc_hashTable ctx h)"
  using assms by (auto simp: hc_tables_def hc_candidate_def)

lemma count_prefix:
  assumes data: "hc_data ctx m D" and i: "hc_dictLimit ctx \<le> j" "j < i" "hc_base ctx + i + 4 \<le> lim" "lim \<le> hc_base ctx + hc_size ctx D"
    and four: "hc_rep ctx m i j 4"
  shows "\<exists>n \<ge> 0. LZ4_count m (hc_base ctx + i + 4) (hc_base ctx + j + 4) lim = Some n \<and>
    hc_base ctx + i + (4 + n) \<le> lim \<and> hc_rep ctx m i j (4 + n)"
proof -
  let ?b = "hc_base ctx"
  note lims = hc_data_limits [OF data]
  have "mapped m (?b + i + 4) lim" "mapped m (?b + j + 4) (?b + j + 4 + (lim - (?b + i + 4)))"
    using hc_prefix_mapped [OF data] i by (auto intro: mapped_subset)
  from LZ4_count_spec [OF this] i lims
  obtain n where n: "LZ4_count m (?b + i + 4) (?b + j + 4) lim = Some n" "0 \<le> n" "n \<le> lim - (?b + i + 4)"
    "agree m (?b + i + 4) (?b + j + 4) n" by auto
  have "hc_rep ctx m (i + 4) (j + 4) n"
    using n(4) i by (intro agree_hc_rep) (simp_all add: add.assoc)
  then show ?thesis using n hc_rep_extend [OF four, of n] by auto
qed

lemma count_ext_spec:
  assumes data: "hc_data ctx m D" and i: "hc_lowLimit ctx \<le> j" "j + 4 \<le> hc_dictLimit ctx" "hc_dictLimit ctx \<le> i"
      "hc_base ctx + i + 4 \<le> lim" "lim \<le> hc_base ctx + hc_size ctx D"
    and four: "hc_rep ctx m i j 4"
  shows "\<exists>n \<ge> 4. LZ4HC_count_ext m ctx (hc_base ctx + i) lim j = Some n \<and> hc_base ctx + i + n \<le> lim \<and> hc_rep ctx m i j n"
proof -
  let ?b = "hc_base ctx" and ?d = "hc_dictBase ctx" and ?l = "hc_dictLimit ctx"
  note lims = hc_data_limits [OF data]
  define v where "v = min lim (?b + i + (?l - j))"
  have v: "?b + i + 4 \<le> v" "v \<le> lim" "v - (?b + i) \<le> ?l - j" using i by (auto simp: v_def)
  have "mapped m (?b + i + 4) v" "mapped m (?d + j + 4) (?d + j + 4 + (v - (?b + i + 4)))"
    using hc_prefix_mapped [OF data] hc_dict_mapped [OF data] i v by (auto intro: mapped_subset)
  from LZ4_count_spec [OF this] v i lims
  obtain k where k: "LZ4_count m (?b + i + 4) (?d + j + 4) v = Some k" "0 \<le> k" "k \<le> v - (?b + i + 4)"
    "agree m (?b + i + 4) (?d + j + 4) k" by auto
  have "hc_rep ctx m (i + 4) (j + 4) k"
    using k i v by (intro agree_hc_rep_dict) (simp_all add: add.assoc)
  then have rep: "hc_rep ctx m i j (4 + k)" using hc_rep_extend [OF four, of k] by simp
  have vdef: "(if ?b + i + (?l - j) > lim then lim else ?b + i + (?l - j)) = v" by (auto simp: v_def)
  have run: "LZ4HC_count_ext m ctx (?b + i) lim j =
      (if ?b + i + (k + 4) = v \<and> v < lim
       then do { n \<leftarrow> LZ4_count m (?b + i + (k + 4)) (?b + ?l) lim; Some (k + 4 + n) } else Some (k + 4))"
    unfolding LZ4HC_count_ext_def Let_def vdef k(1) by simp
  show ?thesis
  proof (cases "?b + i + (k + 4) = v \<and> v < lim")
    case False
    then have "LZ4HC_count_ext m ctx (?b + i) lim j = Some (4 + k)" unfolding run by auto
    then show ?thesis using k rep v(2) by (intro exI [of _ "4 + k"]) auto
  next
    case True
    then have at: "j + (4 + k) = ?l" by (auto simp: v_def min_def split: if_splits)
    have "mapped m v lim" "mapped m (?b + ?l) (?b + ?l + (lim - v))"
      using hc_prefix_mapped [OF data] i v by (auto intro: mapped_subset)
    from LZ4_count_spec [OF this v(2)] v i lims
    obtain n where n: "LZ4_count m v (?b + ?l) lim = Some n" "0 \<le> n" "n \<le> lim - v" "agree m v (?b + ?l) n" by auto
    have "v = ?b + (i + (4 + k))" using True by simp
    then have "hc_rep ctx m (i + (4 + k)) (j + (4 + k)) n"
      using n(4) i k at by (intro agree_hc_rep) simp_all
    then have "hc_rep ctx m i j (4 + k + n)" using hc_rep_extend [OF rep] k by simp
    moreover have "LZ4HC_count_ext m ctx (?b + i) lim j = Some (4 + k + n)"
      unfolding run using True n(1) by simp
    ultimately show ?thesis using k n True by (intro exI [of _ "4 + k + n"]) simp
  qed
qed

lemma best_candidate_spec:
  assumes data: "hc_data ctx m D" and c: "hc_candidate ctx i j" and i: "hc_dictLimit ctx \<le> i"
      "hc_base ctx + i + 4 \<le> lim" "lim < hc_base ctx + hc_size ctx D"
    and best: "ml = 0 \<or> hc_found ctx m lim (hc_base ctx + i) ref ml"
  shows "\<exists>ml' ref'. LZ4HC_best_candidate m ctx (hc_base ctx + i) lim j ml ref = Some (ml', ref') \<and>
    (ml' = 0 \<or> hc_found ctx m lim (hc_base ctx + i) ref' ml')"
proof -
  let ?b = "hc_base ctx"
  have j: "hc_lowLimit ctx \<le> j" "j < i" "i - j \<le> 65535" using c by (auto simp: hc_candidate_def)
  have ml: "0 \<le> ml" "?b + i + ml \<le> lim" using best i by (auto simp: hc_found_def)
  have "mapped m (?b + i) (?b + i + 4)" using hc_prefix_mapped [OF data] i by (auto intro: mapped_subset)
  then obtain w where w: "LZ4_read32 m (?b + i) = Some w" using LZ4_read32_mapped by blast
  show ?thesis
  proof (cases "hc_dictLimit ctx \<le> j")
    case True
    have mem: "m (?b + j + ml) \<noteq> None" "m (?b + i + ml) \<noteq> None"
      using hc_prefix_mapped [OF data] True i j ml by (simp_all add: mapped_def)
    have "mapped m (?b + j) (?b + j + 4)" using hc_prefix_mapped [OF data] i j True by (auto intro: mapped_subset)
    then obtain v where v: "LZ4_read32 m (?b + j) = Some v" using LZ4_read32_mapped by blast
    have "\<exists>n \<ge> 0. LZ4_count m (?b + i + 4) (?b + j + 4) lim = Some n \<and> hc_found ctx m lim (?b + i) (?b + j) (n + 4)"
      if "v = w"
    proof -
      have "hc_rep ctx m i j 4"
        using LZ4_read32_agree [OF v w] that True i by (intro agree_hc_rep) simp_all
      from count_prefix [OF data True j(2) i(2) _ this] i(3) show ?thesis
        using j by (auto simp: hc_found_def add.commute)
    qed
    then show ?thesis
      using mem True v w best by (auto simp: LZ4HC_best_candidate_def Let_def)
  next
    case False
    then have tail: "j + 4 \<le> hc_dictLimit ctx" using c by (auto simp: hc_candidate_def tail_free_def)
    have "mapped m (hc_dictBase ctx + j) (hc_dictBase ctx + j + 4)"
      using hc_dict_mapped [OF data] j tail by (auto intro: mapped_subset)
    then obtain v where v: "LZ4_read32 m (hc_dictBase ctx + j) = Some v" using LZ4_read32_mapped by blast
    have "\<exists>n. LZ4HC_count_ext m ctx (?b + i) lim j = Some n \<and> hc_found ctx m lim (?b + i) (?b + j) n" if "v = w"
    proof -
      have "hc_rep ctx m i j 4"
        using LZ4_read32_agree [OF v w] that tail i by (intro agree_hc_rep_dict) simp_all
      from count_ext_spec [OF data j(1) tail i(1,2) _ this] i(3) show ?thesis
        using j by (auto simp: hc_found_def)
    qed
    then show ?thesis
      using False v w best by (auto simp: LZ4HC_best_candidate_def)
  qed
qed

lemma best_loop_spec:
  assumes data: "hc_data ctx m D" and T: "hc_tables ctx" "hc_nextToUpdate ctx = i" and i: "hc_dictLimit ctx \<le> i"
      "hc_base ctx + i + 4 \<le> lim" "lim < hc_base ctx + hc_size ctx D"
    and "0 \<le> j" "j < i" "max (hc_lowLimit ctx) (i - 65535) \<le> j \<longrightarrow> hc_candidate ctx i j"
    and "ml = 0 \<or> hc_found ctx m lim (hc_base ctx + i) ref ml"
  shows "\<exists>ml' ref'. LZ4HC_best_loop m ctx (hc_base ctx + i) lim (max (hc_lowLimit ctx) (i - 65535)) nb j ml ref = Some (ml', ref') \<and>
    (ml' = 0 \<or> hc_found ctx m lim (hc_base ctx + i) ref' ml')"
  using assms(7-)
proof (induction nb arbitrary: j ml ref)
  case (Suc nb)
  note lims = hc_data_limits [OF data]
  show ?case
  proof (cases "max (hc_lowLimit ctx) (i - 65535) \<le> j")
    case True
    then have c: "hc_candidate ctx i j" using Suc.prems(3) by simp
    obtain ml1 ref1 where m1: "LZ4HC_best_candidate m ctx (hc_base ctx + i) lim j ml ref = Some (ml1, ref1)"
      "ml1 = 0 \<or> hc_found ctx m lim (hc_base ctx + i) ref1 ml1"
      using best_candidate_spec [OF data c i Suc.prems(4)] by blast
    have "i < 2 ^ 32" using i lims by simp
    note next_j = candidate_next [OF T lims(1) this c]
    show ?thesis using Suc.IH [OF next_j(1,2) _ m1(2)] next_j(3) m1(1) True by simp
  qed (use Suc.prems in auto)
qed simp

lemma find_best_spec:
  assumes data: "hc_data ctx m D" and T: "hc_tables ctx" "hc_dictLimit ctx \<le> hc_nextToUpdate ctx"
    and ip: "hc_nextToUpdate ctx \<le> ip - hc_base ctx" "ip + 4 \<le> lim" "lim < hc_base ctx + hc_size ctx D"
  shows "\<exists>HT CT ml ref'. LZ4HC_InsertAndFindBestMatch m ctx ip lim ref nb =
      Some (with_tables ctx HT CT (ip - hc_base ctx), ml, ref') \<and>
    hc_tables (with_tables ctx HT CT (ip - hc_base ctx)) \<and> (ml = 0 \<or> hc_found ctx m lim ip ref' ml)"
proof -
  define i where "i = ip - hc_base ctx"
  have i: "hc_dictLimit ctx \<le> i" "i \<le> hc_size ctx D" "ip = hc_base ctx + i" using T(2) ip by (auto simp: i_def)
  obtain HT CT where ins: "LZ4HC_Insert m ctx ip = Some (with_tables ctx HT CT i)" "hc_tables (with_tables ctx HT CT i)"
    using Insert_spec [OF data T ip(1)] ip(2,3) by (auto simp: i_def)
  have "mapped m ip (ip + 4)" using hc_prefix_mapped [OF data] i ip by (auto intro: mapped_subset)
  then obtain h where h: "LZ4HC_hashPtr m ip = Some h" "h < 2 ^ 15" using hashPtr_defined by blast
  let ?c = "with_tables ctx HT CT i"
  have nx: "hc_nextToUpdate ?c = i" by simp
  have win: "hc_window ctx ip = max (hc_lowLimit ?c) (i - 65535)"
    using hc_window_eq [OF data, of ip] i(1,2) by (simp add: i_def)
  have bounds: "hc_dictLimit ?c \<le> i" "hc_base ?c + i + 4 \<le> lim" "lim < hc_base ?c + hc_size ?c D"
    using i ip by (simp_all add: hc_size_def)
  have d: "hc_data ?c m D" and e: "hc_base ?c + i = ip" using data i(3) by simp_all
  note first = first_candidate [OF ins(2) nx h(2)]
  obtain ml ref' where r: "LZ4HC_best_loop m ?c ip lim (hc_window ctx ip) nb (hc_hashTable ?c h) 0 ref = Some (ml, ref')"
    "ml = 0 \<or> hc_found ?c m lim ip ref' ml"
    using best_loop_spec [OF d ins(2) nx bounds first(1,2), of 0 ref nb, unfolded e, folded win] first(3) unfolding win by blast
  moreover have "hc_found ?c m lim ip ref' ml = hc_found ctx m lim ip ref' ml" by (simp add: hc_found_def)
  ultimately have "LZ4HC_InsertAndFindBestMatch m ctx ip lim ref nb = Some (?c, ml, ref') \<and> hc_tables ?c \<and>
      (ml = 0 \<or> hc_found ctx m lim ip ref' ml)"
    using ins h(1) by (simp add: LZ4HC_InsertAndFindBestMatch_def Let_def)
  then show ?thesis unfolding i_def by blast
qed

section \<open>Wider matches\<close>

lemma back_spec:
  assumes data: "hc_data ctx m D" and l: "hc_dictLimit ctx \<le> l" "i < hc_size ctx D" "j < i"
    and inside: "\<And>b. b \<le> 0 \<Longrightarrow> hc_lowLimit ctx \<le> j + b \<Longrightarrow> inside b \<Longrightarrow>
      hc_lowLimit ctx < j + b \<and> m (mp + b - 1) = hc_read ctx m (j + b - 1)"
    and "b \<le> 0" "l \<le> i + b" "hc_lowLimit ctx \<le> j + b" "hc_rep ctx m (i + b) (j + b) (n - b)"
  shows "\<exists>b'. LZ4HC_back m (hc_base ctx + i) (hc_base ctx + l) mp inside b = Some b' \<and> b' \<le> 0 \<and>
    l \<le> i + b' \<and> hc_lowLimit ctx \<le> j + b' \<and> hc_rep ctx m (i + b') (j + b') (n - b')"
  using assms(6-)
proof (induction "nat (i + b - l)" arbitrary: b rule: less_induct)
  case less
  note lims = hc_data_limits [OF data]
  show ?case
  proof (cases "l < i + b \<and> inside b")
    case False
    then show ?thesis using less.prems by (subst LZ4HC_back.simps) auto
  next
    case True
    then have j: "hc_lowLimit ctx < j + b" "m (mp + b - 1) = hc_read ctx m (j + b - 1)"
      using inside less.prems by auto
    have ri: "m (hc_base ctx + i + b - 1) = hc_read ctx m (i + b - 1)"
      using True l by (simp add: hc_read_def algebra_simps)
    have def: "hc_read ctx m (i + b - 1) \<noteq> None" "hc_read ctx m (j + b - 1) \<noteq> None"
      using hc_data_at [OF data, of "i + b - 1"] hc_data_at [OF data, of "j + b - 1"] True l j(1) lims less.prems by auto
    show ?thesis
    proof (cases "hc_read ctx m (i + b - 1) = hc_read ctx m (j + b - 1)")
      case False
      then have "LZ4HC_back m (hc_base ctx + i) (hc_base ctx + l) mp inside b = Some b"
        using True ri j(2) def by (subst LZ4HC_back.simps) auto
      then show ?thesis using less.prems by auto
    next
      case eq: True
      then have "LZ4HC_back m (hc_base ctx + i) (hc_base ctx + l) mp inside b =
          LZ4HC_back m (hc_base ctx + i) (hc_base ctx + l) mp inside (b - 1)"
        using True ri j(2) def by (subst LZ4HC_back.simps) auto
      moreover have "hc_rep ctx m (i + (b - 1)) (j + (b - 1)) (1 + (n - b))"
      proof (rule hc_rep_extend)
        show "hc_rep ctx m (i + (b - 1)) (j + (b - 1)) 1"
          using eq by (auto simp: hc_rep_def algebra_simps intro: arg_cong2 [where f = "hc_read"] dest: order_antisym)
        show "hc_rep ctx m (i + (b - 1) + 1) (j + (b - 1) + 1) (n - b)" using less.prems(4) by (simp add: algebra_simps)
      qed simp
      ultimately show ?thesis
        using less.hyps [of "b - 1"] True j(1) less.prems by (simp add: algebra_simps)
    qed
  qed
qed

text \<open>What the wider search has found: a match that starts between \<open>lo\<close> and \<open>ip\<close>.\<close>

definition hc_wider :: "LZ4HC_Data_Structure \<Rightarrow> mem \<Rightarrow> addr \<Rightarrow> addr \<Rightarrow> addr \<Rightarrow> int \<times> addr \<times> addr \<Rightarrow> bool" where
  "hc_wider ctx m lim lo ip b \<longleftrightarrow> (case b of (ml, ref, start) \<Rightarrow> lo \<le> start \<and> start \<le> ip \<and> hc_found ctx m lim start ref ml)"

lemma wider_candidate_spec:
  assumes data: "hc_data ctx m D" and c: "hc_candidate ctx i j" and i: "hc_dictLimit ctx \<le> l" "l \<le> i"
      "hc_base ctx + i + 4 \<le> lim" "lim < hc_base ctx + hc_size ctx D"
    and ml: "i - l \<le> ml" "i - l < 2 ^ 31" "hc_base ctx + l + ml \<le> lim"
    and low: "low = max (hc_lowLimit ctx) (i - 65535)"
  shows "\<exists>r. LZ4HC_wider_candidate m ctx (hc_base ctx + i) (hc_base ctx + l) lim low j ml ref start = Some r \<and>
    (r = (ml, ref, start) \<or> ml < fst r \<and> hc_wider ctx m lim (hc_base ctx + l) (hc_base ctx + i) r)"
proof -
  let ?b = "hc_base ctx"
  note lims = hc_data_limits [OF data]
  have j: "hc_lowLimit ctx \<le> j" "j < i" "i - j \<le> 65535" using c by (auto simp: hc_candidate_def)
  have sz: "i < hc_size ctx D" "i < 2 ^ 32" using i lims by auto
  have delta: "(?b + i - (?b + l) + 2 ^ 31) mod 2 ^ 32 - 2 ^ 31 = i - l"
    using i(2) ml(2) by simp
  have "mapped m (?b + i) (?b + i + 4)" using hc_prefix_mapped [OF data] i by (auto intro: mapped_subset)
  then obtain w where w: "LZ4_read32 m (?b + i) = Some w" using LZ4_read32_mapped by blast
  have found: "hc_found ctx m lim (?b + i + b) (?b + j + b) (n - b)"
    if "b \<le> 0" "hc_lowLimit ctx \<le> j + b" "hc_rep ctx m (i + b) (j + b) (n - b)" "4 \<le> n" "?b + i + n \<le> lim" for b n
    using that j by (simp add: hc_found_def algebra_simps)
  show ?thesis
  proof (cases "hc_dictLimit ctx \<le> j")
    case True
    have mem: "m (?b + l + ml) \<noteq> None" "m (?b + j - (i - l) + ml) \<noteq> None"
      using hc_prefix_mapped [OF data] True i j ml by (simp_all add: mapped_def)
    have "mapped m (?b + j) (?b + j + 4)" using hc_prefix_mapped [OF data] i j True by (auto intro: mapped_subset)
    then obtain v where v: "LZ4_read32 m (?b + j) = Some v" using LZ4_read32_mapped by blast
    have "\<exists>n b. LZ4_count m (?b + i + 4) (?b + j + 4) lim = Some n \<and>
        LZ4HC_back m (?b + i) (?b + l) (?b + j) (\<lambda>b. ?b + j + b > ?b + hc_dictLimit ctx) 0 = Some b \<and>
        hc_wider ctx m lim (?b + l) (?b + i) (4 + n - b, ?b + j + b, ?b + i + b)" if "v = w"
    proof -
      have four: "hc_rep ctx m i j 4"
        using LZ4_read32_agree [OF v w] that True i by (intro agree_hc_rep) simp_all
      obtain n where n: "0 \<le> n" "LZ4_count m (?b + i + 4) (?b + j + 4) lim = Some n" "?b + i + (4 + n) \<le> lim" "hc_rep ctx m i j (4 + n)"
        using count_prefix [OF data True j(2) i(3) _ four] i(4) by auto
      have "\<exists>b. LZ4HC_back m (?b + i) (?b + l) (?b + j) (\<lambda>b. ?b + j + b > ?b + hc_dictLimit ctx) 0 = Some b \<and> b \<le> 0 \<and>
          l \<le> i + b \<and> hc_lowLimit ctx \<le> j + b \<and> hc_rep ctx m (i + b) (j + b) (4 + n - b)"
        using data i(1) sz(1) j(2)
      proof (rule back_spec)
        fix b assume "hc_lowLimit ctx \<le> j + b" "?b + j + b > ?b + hc_dictLimit ctx"
        then show "hc_lowLimit ctx < j + b \<and> m (?b + j + b - 1) = hc_read ctx m (j + b - 1)"
          using lims by (simp add: hc_read_def algebra_simps)
      qed (use i j n in simp_all)
      then show ?thesis using n found [of _ "4 + n"] by (fastforce simp: hc_wider_def)
    qed
    then show ?thesis
      using mem True v w delta unfolding LZ4HC_wider_candidate_def Let_def by auto
  next
    case False
    then have tail: "j + 4 \<le> hc_dictLimit ctx" using c by (auto simp: hc_candidate_def tail_free_def)
    have "mapped m (hc_dictBase ctx + j) (hc_dictBase ctx + j + 4)"
      using hc_dict_mapped [OF data] j tail by (auto intro: mapped_subset)
    then obtain v where v: "LZ4_read32 m (hc_dictBase ctx + j) = Some v" using LZ4_read32_mapped by blast
    have "\<exists>n b. LZ4HC_count_ext m ctx (?b + i) lim j = Some n \<and>
        LZ4HC_back m (?b + i) (?b + l) (hc_dictBase ctx + j) (\<lambda>b. (j + b) mod 2 ^ 32 > low) 0 = Some b \<and>
        hc_wider ctx m lim (?b + l) (?b + i) (n - b, ?b + j + b, ?b + i + b)" if "v = w"
    proof -
      have four: "hc_rep ctx m i j 4"
        using LZ4_read32_agree [OF v w] that tail i by (intro agree_hc_rep_dict) simp_all
      obtain n where n: "4 \<le> n" "LZ4HC_count_ext m ctx (?b + i) lim j = Some n" "?b + i + n \<le> lim" "hc_rep ctx m i j n"
        using count_ext_spec [OF data j(1) tail _ i(3) _ four] i by auto
      have "\<exists>b. LZ4HC_back m (?b + i) (?b + l) (hc_dictBase ctx + j) (\<lambda>b. (j + b) mod 2 ^ 32 > low) 0 = Some b \<and> b \<le> 0 \<and>
          l \<le> i + b \<and> hc_lowLimit ctx \<le> j + b \<and> hc_rep ctx m (i + b) (j + b) (n - b)"
        using data i(1) sz(1) j(2)
      proof (rule back_spec)
        fix b assume b: "b \<le> 0" "hc_lowLimit ctx \<le> j + b" "(j + b) mod 2 ^ 32 > low"
        then have "(j + b) mod 2 ^ 32 = j + b" using lims j sz by simp
        then show "hc_lowLimit ctx < j + b \<and> m (hc_dictBase ctx + j + b - 1) = hc_read ctx m (j + b - 1)"
          using b low tail by (simp add: hc_read_def algebra_simps)
      qed (use i j n in simp_all)
      then show ?thesis using n found [of _ n] by (fastforce simp: hc_wider_def)
    qed
    then show ?thesis
      using False v w unfolding LZ4HC_wider_candidate_def Let_def by auto
  qed
qed

lemma wider_loop_spec:
  assumes data: "hc_data ctx m D" and T: "hc_tables ctx" "hc_nextToUpdate ctx = i" and i: "hc_dictLimit ctx \<le> l" "l \<le> i"
      "hc_base ctx + i + 4 \<le> lim" "lim < hc_base ctx + hc_size ctx D" "i - l < 2 ^ 31"
    and "0 \<le> j" "j < i" "max (hc_lowLimit ctx) (i - 65535) \<le> j \<longrightarrow> hc_candidate ctx i j"
    and "i - l \<le> ml" "hc_base ctx + l + ml \<le> lim"
  shows "\<exists>r. LZ4HC_wider_loop m ctx (hc_base ctx + i) (hc_base ctx + l) lim (max (hc_lowLimit ctx) (i - 65535)) nb j
      (ml, ref, start) = Some r \<and>
    (r = (ml, ref, start) \<or> ml < fst r \<and> hc_wider ctx m lim (hc_base ctx + l) (hc_base ctx + i) r)"
  using assms(9-)
proof (induction nb arbitrary: j ml ref start)
  case (Suc nb)
  note lims = hc_data_limits [OF data]
  show ?case
  proof (cases "max (hc_lowLimit ctx) (i - 65535) \<le> j")
    case True
    then have c: "hc_candidate ctx i j" using Suc.prems(3) by simp
    obtain ml1 ref1 start1 where r1: "LZ4HC_wider_candidate m ctx (hc_base ctx + i) (hc_base ctx + l) lim
        (max (hc_lowLimit ctx) (i - 65535)) j ml ref start = Some (ml1, ref1, start1)"
      "(ml1, ref1, start1) = (ml, ref, start) \<or>
       ml < ml1 \<and> hc_wider ctx m lim (hc_base ctx + l) (hc_base ctx + i) (ml1, ref1, start1)"
      using wider_candidate_spec [OF data c i(1-4) Suc.prems(4) i(5) Suc.prems(5) refl, of ref start] by auto
    have "i - l \<le> ml1" "hc_base ctx + l + ml1 \<le> lim" "ml \<le> ml1"
      using r1(2) Suc.prems(4,5) by (auto simp: hc_wider_def hc_found_def)
    moreover have "i < 2 ^ 32" using i lims by simp
    note next_j = candidate_next [OF T lims(1) this c]
    ultimately obtain r where r: "LZ4HC_wider_loop m ctx (hc_base ctx + i) (hc_base ctx + l) lim (max (hc_lowLimit ctx) (i - 65535)) nb
        (cast_u32 (j - DELTANEXTU16 (hc_chainTable ctx) j)) (ml1, ref1, start1) = Some r"
      "r = (ml1, ref1, start1) \<or> ml1 < fst r \<and> hc_wider ctx m lim (hc_base ctx + l) (hc_base ctx + i) r"
      using Suc.IH [OF next_j(1,2), of ml1 ref1 start1] next_j(3) by auto
    then have "LZ4HC_wider_loop m ctx (hc_base ctx + i) (hc_base ctx + l) lim (max (hc_lowLimit ctx) (i - 65535)) (Suc nb) j
        (ml, ref, start) = Some r"
      using r1(1) True by simp
    moreover have "r = (ml, ref, start) \<or> ml < fst r \<and> hc_wider ctx m lim (hc_base ctx + l) (hc_base ctx + i) r"
      using r(2) r1(2) by auto
    ultimately show ?thesis by blast
  qed (use Suc.prems in auto)
qed simp

lemma get_wider_spec:
  assumes data: "hc_data ctx m D" and T: "hc_tables ctx" "hc_dictLimit ctx \<le> hc_nextToUpdate ctx"
    and ip: "hc_nextToUpdate ctx \<le> ip - hc_base ctx" "ip + 4 \<le> lim" "lim < hc_base ctx + hc_size ctx D"
    and lo: "hc_base ctx + hc_dictLimit ctx \<le> lo" "lo \<le> ip" "ip - lo < 2 ^ 31" and ml: "ip - lo \<le> ml" "lo + ml \<le> lim"
  shows "\<exists>HT CT ml' ref' start'. LZ4HC_InsertAndGetWiderMatch m ctx ip lo lim ml ref start nb =
      Some (with_tables ctx HT CT (ip - hc_base ctx), ml', ref', start') \<and>
    hc_tables (with_tables ctx HT CT (ip - hc_base ctx)) \<and>
    ((ml', ref', start') = (ml, ref, start) \<or>
     ml < ml' \<and> lo \<le> start' \<and> start' \<le> ip \<and> hc_found ctx m lim start' ref' ml')"
proof -
  define i where "i = ip - hc_base ctx"
  define l where "l = lo - hc_base ctx"
  have i: "hc_dictLimit ctx \<le> i" "i \<le> hc_size ctx D" using T(2) ip by (auto simp: i_def)
  obtain HT CT where ins: "LZ4HC_Insert m ctx ip = Some (with_tables ctx HT CT i)" "hc_tables (with_tables ctx HT CT i)"
    using Insert_spec [OF data T ip(1)] ip(2,3) by (auto simp: i_def)
  have "mapped m ip (ip + 4)" using hc_prefix_mapped [OF data] lo ip by (auto intro: mapped_subset)
  then obtain h where h: "LZ4HC_hashPtr m ip = Some h" "h < 2 ^ 15" using hashPtr_defined by blast
  let ?c = "with_tables ctx HT CT i"
  have nx: "hc_nextToUpdate ?c = i" by simp
  have win: "hc_window ctx ip = max (hc_lowLimit ?c) (i - 65535)"
    using hc_window_eq [OF data, of ip] i by (simp add: i_def)
  have e: "hc_base ?c + i = ip" "hc_base ?c + l = lo" by (simp_all add: i_def l_def)
  have bounds: "hc_dictLimit ?c \<le> l" "l \<le> i" "hc_base ?c + i + 4 \<le> lim" "lim < hc_base ?c + hc_size ?c D" "i - l < 2 ^ 31"
    and b2: "i - l \<le> ml" "hc_base ?c + l + ml \<le> lim"
    using i ip lo ml by (simp_all add: hc_size_def i_def l_def)
  have d: "hc_data ?c m D" using data by simp
  note first = first_candidate [OF ins(2) nx h(2)]
  obtain ml' ref' start' where r: "LZ4HC_wider_loop m ?c ip lo lim (hc_window ctx ip) nb (hc_hashTable ?c h) (ml, ref, start) =
      Some (ml', ref', start')"
    "(ml', ref', start') = (ml, ref, start) \<or> ml < ml' \<and> hc_wider ?c m lim lo ip (ml', ref', start')"
    using wider_loop_spec [OF d ins(2) nx bounds first(1,2) _ b2, of nb ref start, unfolded e, folded win] first(3)
    unfolding win by auto
  have "LZ4HC_InsertAndGetWiderMatch m ctx ip lo lim ml ref start nb = Some (?c, ml', ref', start')"
    using ins(1) h(1) r(1) by (simp add: LZ4HC_InsertAndGetWiderMatch_def Let_def)
  moreover have "(ml', ref', start') = (ml, ref, start) \<or>
      ml < ml' \<and> lo \<le> start' \<and> start' \<le> ip \<and> hc_found ctx m lim start' ref' ml'"
    using r(2) by (simp add: hc_wider_def hc_found_def)
  ultimately show ?thesis using ins(2) unfolding i_def by blast
qed

end
