(* ===== verification/LZ4_HC_Correct.thy ===== *)
theory LZ4_HC_Correct
  imports LZ4_HC_Find
begin

text \<open>
  The main loop of the high compression mode: an invariant for each of its three labels, a measure
  that every step decreases, and the whole of \<open>LZ4HC_compress_generic\<close>.
\<close>

section \<open>Runs\<close>

text \<open>The environment in the terms of the lemmas on sequences.\<close>

definition hc_cmp :: "hc_env \<Rightarrow> cmp_env" where
  "hc_cmp e = cmp_env_of LZ4_resetStream (h_source e) (h_dest e) (h_iend e - h_source e) (h_maxOutputSize e)
     notLimited byU32 noDict noDictIssue 1"

lemma hc_cmp_simps [simp]:
  "c_source (hc_cmp e) = h_source e" "c_dest (hc_cmp e) = h_dest e" "c_iend (hc_cmp e) = h_iend e"
  "mflimit (hc_cmp e) = h_iend e - 12" "matchlimit (hc_cmp e) = h_iend e - 5"
  by (simp_all add: hc_cmp_def cmp_env_of_def)

text \<open>
  The tests of the output limit count a byte for 256 of length where one for 255 is written. On
  inputs over 4094 bytes up to this number of bytes may be written after the limit.
\<close>

definition hc_slack :: "nat \<Rightarrow> int" where
  "hc_slack n = (if n \<le> 4094 then 0 else int n div 65280 + 1)"

definition hc_room :: "hc_env \<Rightarrow> byte list \<Rightarrow> addr \<Rightarrow> bool" where
  "hc_room e src lim \<longleftrightarrow>
     (case h_limit e of
        noLimit \<Rightarrow> bound_room (hc_cmp e) src lim
      | HC_limitedOutput \<Rightarrow> h_oend e + hc_slack (length src) \<le> lim \<and> h_oend e = h_dest e + h_maxOutputSize e \<and>
          0 \<le> h_maxOutputSize e \<and> h_maxOutputSize e < 2 ^ 31)"

text \<open>The output is apart from the input and from all the history.\<close>

definition hc_apart :: "LZ4HC_Data_Structure \<Rightarrow> hc_env \<Rightarrow> addr \<Rightarrow> bool" where
  "hc_apart ctx e lim \<longleftrightarrow>
     (lim \<le> hc_base ctx + hc_dictLimit ctx \<or> h_iend e \<le> h_dest e) \<and>
     (hc_dictLimit ctx = hc_lowLimit ctx \<or> lim \<le> hc_dictBase ctx + hc_lowLimit ctx \<or>
      hc_dictBase ctx + hc_dictLimit ctx \<le> h_dest e)"

definition hc_run :: "hc_env \<Rightarrow> mem \<Rightarrow> LZ4HC_Data_Structure \<Rightarrow> byte list \<Rightarrow> byte list \<Rightarrow> addr \<Rightarrow> bool" where
  "hc_run e m0 ctx0 hist src lim \<longleftrightarrow>
     src_input (hc_cmp e) m0 src \<and> src_apart (hc_cmp e) m0 lim \<and>
     h_mflimit e = h_iend e - 12 \<and> h_matchlimit e = h_iend e - 5 \<and>
     hc_data ctx0 m0 (hist @ src) \<and> hc_base ctx0 + hc_size ctx0 (hist @ src) = h_iend e \<and>
     hc_base ctx0 + hc_dictLimit ctx0 \<le> h_source e \<and> hc_apart ctx0 e lim \<and> hc_room e src lim"

lemma hc_runD:
  assumes "hc_run e m0 ctx0 hist src lim"
  shows "src_input (hc_cmp e) m0 src" "src_apart (hc_cmp e) m0 lim" "h_mflimit e = h_iend e - 12" "h_matchlimit e = h_iend e - 5"
    "hc_base ctx0 + hc_size ctx0 (hist @ src) = h_iend e" "hc_base ctx0 + hc_dictLimit ctx0 \<le> h_source e"
    "hc_room e src lim" "h_iend e = h_source e + int (length src)" "int (length src) \<le> 2113929216"
    "hc_base ctx0 + hc_lowLimit ctx0 = h_source e - int (length hist)"
  using assms by (auto simp: hc_run_def src_input_def hc_size_def)

lemma hc_run_data:
  assumes run: "hc_run e m0 ctx0 hist src lim" and same: "same_outside m0 m (h_dest e) lim"
  shows "hc_data ctx0 m (hist @ src)"
proof -
  have data: "hc_data ctx0 m0 (hist @ src)" and apart: "hc_apart ctx0 e lim" using run by (auto simp: hc_run_def)
  note lims = hc_data_limits [OF data] and size = hc_runD(5) [OF run]
  have "hc_read ctx0 m (hc_lowLimit ctx0 + int k) = hc_read ctx0 m0 (hc_lowLimit ctx0 + int k)" if "k < length (hist @ src)" for k
  proof -
    have "hc_lowLimit ctx0 + int k < hc_size ctx0 (hist @ src)" using that by (simp add: hc_size_def)
    then show ?thesis
      unfolding hc_read_def using apart size
      by (auto simp: hc_apart_def intro!: same_outsideD [OF same])
  qed
  then show ?thesis using data by (auto simp: hc_data_def)
qed

section \<open>Matches\<close>

definition gmatch :: "hc_env \<Rightarrow> byte list \<Rightarrow> byte list \<Rightarrow> addr \<Rightarrow> addr \<Rightarrow> int \<Rightarrow> bool" where
  "gmatch e hist src ip ref ml \<longleftrightarrow>
     rmatch (hist @ src) (length hist + nat (ip - h_source e)) (nat (ip - ref)) (nat ml) \<and>
     4 \<le> ml \<and> ip + ml \<le> h_iend e - 5 \<and> h_source e \<le> ip"

lemma gmatch_less: "gmatch e hist src ip ref ml \<Longrightarrow> 4 \<le> k \<Longrightarrow> k \<le> ml \<Longrightarrow> gmatch e hist src ip ref k"
  by (auto simp: gmatch_def intro: rmatch_less)

lemma gmatch_shift:
  assumes "gmatch e hist src ip ref ml" "0 \<le> k" "4 \<le> ml - k"
  shows "gmatch e hist src (ip + k) (ref + k) (ml - k)"
proof -
  have "rmatch (hist @ src) (length hist + nat (ip - h_source e) + nat k) (nat (ip - ref)) (nat ml - nat k)"
    using assms by (intro rmatch_shift) (auto simp: gmatch_def)
  moreover have "length hist + nat (ip - h_source e) + nat k = length hist + nat (ip + k - h_source e)" "nat ml - nat k = nat (ml - k)"
    using assms by (auto simp: gmatch_def nat_diff_distrib)
  ultimately show ?thesis using assms by (simp add: gmatch_def)
qed

lemma found_gmatch:
  assumes run: "hc_run e m0 ctx0 hist src lim" and data: "hc_data ctx0 m (hist @ src)"
    and f: "hc_found ctx0 m (h_matchlimit e) ip ref ml" and ip: "h_source e \<le> ip"
  shows "gmatch e hist src ip ref ml"
proof -
  note r = hc_runD [OF run]
  have "rmatch (hist @ src) (nat (ip - hc_base ctx0 - hc_lowLimit ctx0)) (nat (ip - hc_base ctx0 - (ref - hc_base ctx0))) (nat ml)"
    using f r by (intro hc_rep_rmatch [OF data]) (auto simp: hc_found_def)
  moreover have "nat (ip - hc_base ctx0 - hc_lowLimit ctx0) = length hist + nat (ip - h_source e)"
    using ip r(10) by linarith
  ultimately show ?thesis using f ip r(4) by (simp add: gmatch_def hc_found_def)
qed

section \<open>Sequences\<close>

lemma slack_bounds:
  fixes n N :: nat
  assumes "n \<le> N"
  shows "int (length (len_ext n)) \<le> int n div 256 + 1 + hc_slack N"
    "int (length (len_ext n)) \<le> int n div 256 + 6 + hc_slack N"
proof -
  define q k d where "q = int (length (len_ext n))" and "k = int n div 256" and "d = int N div 65280"
  have q: "255 * q \<le> int n + 240" using len_ext_bound(2) [of n] by (simp add: q_def)
  have k: "int n < 256 * k + 256" "int n \<ge> 256 * k" by (simp_all add: k_def)
  have d: "int N < 65280 * d + 65280" "0 \<le> d" by (simp_all add: d_def)
  have "q \<le> k + 1 + hc_slack N"
    using q k d assms by (auto simp: hc_slack_def d_def [symmetric])
  moreover have "0 \<le> hc_slack N" by (simp add: hc_slack_def)
  ultimately show "int (length (len_ext n)) \<le> int n div 256 + 1 + hc_slack N"
    "int (length (len_ext n)) \<le> int n div 256 + 6 + hc_slack N"
    by (simp_all add: q_def k_def)
qed

lemma encodeSequence_spec:
  assumes run: "hc_run e m0 ctx0 hist src lim" and em: "emitted (hc_cmp e) m0 m hist src lim anchor op ss"
    and ip: "anchor \<le> ip" "ip \<le> h_mflimit e" and g: "gmatch e hist src ip ref ml"
  shows "(\<exists>m'. LZ4HC_encodeSequence m ip op anchor ml ref (h_limit e) (h_oend e) = Some (Inl m') \<and>
      h_limit e = HC_limitedOutput \<and> same_dom m0 m' \<and> same_outside m0 m' (h_dest e) lim) \<or>
    (\<exists>m' op' s. LZ4HC_encodeSequence m ip op anchor ml ref (h_limit e) (h_oend e) = Some (Inr (m', ip + ml, op', ip + ml)) \<and>
      emitted (hc_cmp e) m0 m' hist src lim (ip + ml) op' (ss @ [s]))"
proof (cases "h_limit e = HC_limitedOutput \<and> op + 1 + drop_bit 8 (ip - anchor) + (ip - anchor) + 8 > h_oend e")
  case True
  note r = hc_runD [OF run]
  have "(ip - anchor + 2 ^ 31) mod 2 ^ 32 - 2 ^ 31 = ip - anchor"
    using ip r em by (auto simp: emitted_def)
  then show ?thesis
    using True emitted_same [OF em] by (auto simp: LZ4HC_encodeSequence_def Let_def)
next
  case chk: False
  note r = hc_runD [OF run] and src = emitted_src [OF hc_runD(1,2) [OF run] em]
  have an: "h_source e \<le> anchor" using em by (simp add: emitted_def)
  have cast: "(ip - anchor + 2 ^ 31) mod 2 ^ 32 - 2 ^ 31 = ip - anchor"
    using ip r an by auto
  define L where "L = nat (ip - anchor)"
  have L: "int L = ip - anchor" "L \<le> length src" using ip an r by (auto simp: L_def)
  have ip': "ip \<le> mflimit (hc_cmp e)" using ip(2) r(3) by simp
  have room: "op + 1 + int (length (len_ext (nat (ip - anchor)))) + max 8 (ip - anchor + 7) \<le> lim"
  proof (cases "h_limit e")
    case noLimit
    then show ?thesis using literals_bound [OF src(1) em _ ip(1) ip'] r(7) by (simp add: hc_room_def)
  next
    case HC_limitedOutput
    then have "op + 1 + int L div 256 + int L + 8 + hc_slack (length src) \<le> lim"
      using chk r(7) L(1) by (simp add: hc_room_def drop_bit_eq_div)
    moreover have "0 \<le> hc_slack (length src)" "0 \<le> int L div 256" by (simp_all add: hc_slack_def)
    ultimately show ?thesis
      using slack_bounds(1) [OF L(2)] len_ext_bound(3) [of L] unfolding L(1) [symmetric] nat_int by linarith
  qed
  obtain m1 op1 m2 where m1: "LZ4_put_token m op (ip - anchor) = Some (m1, op1)"
    "LZ4_wildCopy m1 op1 anchor (op1 + (ip - anchor)) = Some m2"
    and pe: "pending (hc_cmp e) m0 m2 hist src lim anchor ip op (op1 + (ip - anchor)) ss"
    using put_literals_spec [OF src em ip(1) ip' room] by blast
  define op2 where "op2 = op1 + (ip - anchor)"
  obtain m3 where m3: "LZ4_writeLE16 m2 op2 (word_of_int (ip - ref)) = Some m3"
    "emits m2 m3 op2 (le_bytes 2 (word_of_int (ip - ref) :: u16)) lim" "same_dom m0 m3" "same_outside m0 m3 (h_dest e) lim"
    using write_offset_spec [OF r(1,2) pe, of "word_of_int (ip - ref)"] by (auto simp: op2_def)
  define k where "k = nat (ml - 4)"
  have k: "int k = ml - 4" "k \<le> length src" "nat ml = 4 + k" using g an r by (auto simp: k_def gmatch_def)
  note run_eq = LZ4HC_encodeSequence_def [of m ip op anchor ml ref "h_limit e" "h_oend e", unfolded Let_def cast]
  show ?thesis
  proof (cases "h_limit e = HC_limitedOutput \<and> op2 + 2 + drop_bit 8 (ml - 4) + 6 > h_oend e")
    case True
    then have "LZ4HC_encodeSequence m ip op anchor ml ref (h_limit e) (h_oend e) = Some (Inl m3)"
      using chk m1 m3(1) unfolding run_eq op2_def by simp
    then show ?thesis using True m3 by blast
  next
    case False
    have "op2 + 2 + int (length (len_ext k)) \<le> lim"
    proof (cases "h_limit e")
      case noLimit
      then have "bound_room (hc_cmp e) src lim" using r(7) by (simp add: hc_room_def)
      then show ?thesis
        using match_bound [OF r(1) pe, of k] g k by (simp add: op2_def gmatch_def)
    next
      case HC_limitedOutput
      then have "op2 + 2 + int k div 256 + 6 + hc_slack (length src) \<le> lim"
        using False r(7) k(1) by (simp add: hc_room_def drop_bit_eq_div)
      then show ?thesis using slack_bounds(2) [OF k(2)] by linarith
    qed
    moreover have "ip + 4 + int k \<le> matchlimit (hc_cmp e)" using g k(1) by (simp add: gmatch_def)
    moreover have "rmatch (hist @ src) (length hist + nat (ip - c_source (hc_cmp e))) (nat (ip - ref)) (4 + k)"
      using g k(3) by (simp add: gmatch_def)
    ultimately obtain m4 s where m4: "LZ4_encode_matchLength m3 op (op2 + 2) (int k) = Some (m4, op2 + 2 + int (length (len_ext k)))"
      "emitted (hc_cmp e) m0 m4 hist src lim (ip + 4 + int k) (op2 + 2 + int (length (len_ext k))) (ss @ [s])"
      using write_matchLength_spec [OF r(1,2) pe] m3(2) unfolding op2_def by blast
    have "LZ4HC_encodeSequence m ip op anchor ml ref (h_limit e) (h_oend e) =
        Some (Inr (m4, ip + ml, op2 + 2 + int (length (len_ext k)), ip + ml))"
      using chk False m1 m3(1) m4(1) k(1) unfolding run_eq op2_def by simp
    moreover have "ip + 4 + int k = ip + ml" using k(1) by simp
    ultimately show ?thesis using m4(2) by metis
  qed
qed

section \<open>The invariants\<close>

text \<open>Only the tables of the context change, and nothing beyond \<open>mflimit\<close> is inserted.\<close>

definition hc_ctx_ok :: "hc_env \<Rightarrow> LZ4HC_Data_Structure \<Rightarrow> LZ4HC_Data_Structure \<Rightarrow> bool" where
  "hc_ctx_ok e ctx0 ctx \<longleftrightarrow>
     ctx = with_tables ctx0 (hc_hashTable ctx) (hc_chainTable ctx) (hc_nextToUpdate ctx) \<and> hc_tables ctx \<and>
     hc_dictLimit ctx0 \<le> hc_nextToUpdate ctx \<and>
     (hc_nextToUpdate ctx = hc_nextToUpdate ctx0 \<or> hc_base ctx0 + hc_nextToUpdate ctx \<le> h_mflimit e)"

text \<open>
  In every state the output so far is a sequence of the block, and the chains hold what was
  inserted up to the address \<open>U\<close>.
\<close>

definition hc_common ::
  "hc_env \<Rightarrow> mem \<Rightarrow> LZ4HC_Data_Structure \<Rightarrow> byte list \<Rightarrow> byte list \<Rightarrow> addr \<Rightarrow> addr \<Rightarrow> hc_vars \<Rightarrow> bool" where
  "hc_common e m0 ctx0 hist src lim U s \<longleftrightarrow>
     (\<exists>ss. emitted (hc_cmp e) m0 (v_m s) hist src lim (v_anchor s) (v_op s) ss) \<and>
     hc_ctx_ok e ctx0 (v_ctx s) \<and> hc_base ctx0 + hc_nextToUpdate (v_ctx s) \<le> U"

definition at_main where
  "at_main e m0 ctx0 hist src lim s \<longleftrightarrow> hc_common e m0 ctx0 hist src lim (v_ip s) s \<and> v_anchor s \<le> v_ip s"

definition at_search2 where
  "at_search2 e m0 ctx0 hist src lim s \<longleftrightarrow>
     hc_common e m0 ctx0 hist src lim (v_ip s + v_ml s - 2) s \<and> v_anchor s \<le> v_start0 s \<and>
     v_start0 s \<le> v_ip s \<and> v_ip s - v_start0 s \<le> 2 \<and> (v_start0 s < v_ip s \<longrightarrow> 5 \<le> v_ml s) \<and>
     gmatch e hist src (v_ip s) (v_ref s) (v_ml s) \<and> gmatch e hist src (v_start0 s) (v_ref0 s) (v_ml0 s) \<and>
     v_start0 s + v_ml0 s \<le> v_ip s + v_ml s \<and> v_ip s \<le> h_mflimit e"

text \<open>
  At \<open>_Search3\<close> the second match may start before the first ends, but both can be cut to at least
  \<open>MINMATCH\<close> bytes. After the correction, \<open>after_correction\<close>, the first already has that room.
\<close>

definition two_matches where
  "two_matches e m0 ctx0 hist src lim s \<longleftrightarrow>
     hc_common e m0 ctx0 hist src lim (v_start2 s + v_ml2 s - 3) s \<and> v_anchor s \<le> v_ip s \<and>
     gmatch e hist src (v_ip s) (v_ref s) (v_ml s) \<and> gmatch e hist src (v_start2 s) (v_ref2 s) (v_ml2 s) \<and>
     v_ip s + v_ml s < h_mflimit e \<and> v_start2 s \<le> h_mflimit e \<and> v_ip s \<le> v_start2 s \<and>
     v_start2 s \<le> v_ip s + v_ml s + 1 \<and> (v_start2 s = v_ip s + v_ml s + 1 \<longrightarrow> 5 \<le> v_ml2 s)"

definition at_search3 where
  "at_search3 e m0 ctx0 hist src lim s \<longleftrightarrow>
     two_matches e m0 ctx0 hist src lim s \<and> 8 \<le> v_start2 s - v_ip s + v_ml2 s"

definition after_correction where
  "after_correction e m0 ctx0 hist src lim s \<longleftrightarrow>
     two_matches e m0 ctx0 hist src lim s \<and> v_ip s + 4 \<le> v_start2 s"

definition hc_inv where
  "hc_inv e m0 ctx0 hist src lim l s \<longleftrightarrow>
     (case l of Main_loop \<Rightarrow> at_main e m0 ctx0 hist src lim s
      | Search2 \<Rightarrow> at_search2 e m0 ctx0 hist src lim s
      | Search3 \<Rightarrow> at_search3 e m0 ctx0 hist src lim s)"

text \<open>How far the matches at hand reach; every jump takes that further.\<close>

definition hc_reach :: "hc_label \<Rightarrow> hc_vars \<Rightarrow> addr" where
  "hc_reach l s = (case l of Main_loop \<Rightarrow> v_ip s | Search2 \<Rightarrow> v_ip s + v_ml s | Search3 \<Rightarrow> v_start2 s + v_ml2 s)"

definition hc_measure :: "hc_env \<Rightarrow> hc_label \<Rightarrow> hc_vars \<Rightarrow> nat" where
  "hc_measure e l s = nat (2 * (h_iend e - hc_reach l s) + (if l = Main_loop then 0 else 1))"

definition hc_outcome_ok where
  "hc_outcome_ok e m0 ctx0 hist src lim l s r \<longleftrightarrow>
     (case r of
        Goto l' s' \<Rightarrow> hc_inv e m0 ctx0 hist src lim l' s' \<and> hc_measure e l' s' < hc_measure e l s
      | Leave s' \<Rightarrow> at_main e m0 ctx0 hist src lim s'
      | Fail m ctx \<Rightarrow> h_limit e = HC_limitedOutput \<and> same_dom m0 m \<and> same_outside m0 m (h_dest e) lim \<and>
          hc_ctx_ok e ctx0 ctx)"

lemma hc_common_cong:
  "hc_common e m0 ctx0 hist src lim U s \<Longrightarrow> v_m t = v_m s \<Longrightarrow> v_ctx t = v_ctx s \<Longrightarrow> v_op t = v_op s \<Longrightarrow>
   v_anchor t = v_anchor s \<Longrightarrow> U \<le> U' \<Longrightarrow> hc_common e m0 ctx0 hist src lim U' t"
  by (simp add: hc_common_def)

text \<open>Encoding a match and going on.\<close>

lemma hc_encode_spec:
  assumes run: "hc_run e m0 ctx0 hist src lim" and s: "hc_common e m0 ctx0 hist src lim U s"
    and ip: "v_anchor s \<le> v_ip s" "v_ip s \<le> h_mflimit e" and g: "gmatch e hist src (v_ip s) ref ml"
    and nxt: "\<And>t. t = s\<lparr>v_m := v_m t, v_ip := v_ip s + ml, v_op := v_op t, v_anchor := v_ip s + ml\<rparr> \<Longrightarrow>
      hc_common e m0 ctx0 hist src lim U t \<Longrightarrow> \<exists>r. next t = Some r \<and> hc_outcome_ok e m0 ctx0 hist src lim l0 s0 r"
  shows "\<exists>r. hc_encode e s ml ref next = Some r \<and> hc_outcome_ok e m0 ctx0 hist src lim l0 s0 r"
proof -
  obtain ss where em: "emitted (hc_cmp e) m0 (v_m s) hist src lim (v_anchor s) (v_op s) ss"
    using s by (auto simp: hc_common_def)
  from encodeSequence_spec [OF run em ip g] show ?thesis
  proof (elim disjE exE conjE)
    fix m' assume "LZ4HC_encodeSequence (v_m s) (v_ip s) (v_op s) (v_anchor s) ml ref (h_limit e) (h_oend e) = Some (Inl m')"
      "h_limit e = HC_limitedOutput" "same_dom m0 m'" "same_outside m0 m' (h_dest e) lim"
    then show ?thesis using s by (auto simp: hc_encode_def hc_outcome_ok_def hc_common_def)
  next
    fix m' op' x
    assume enc: "LZ4HC_encodeSequence (v_m s) (v_ip s) (v_op s) (v_anchor s) ml ref (h_limit e) (h_oend e) =
        Some (Inr (m', v_ip s + ml, op', v_ip s + ml))"
      and em': "emitted (hc_cmp e) m0 m' hist src lim (v_ip s + ml) op' (ss @ [x])"
    let ?t = "s\<lparr>v_m := m', v_ip := v_ip s + ml, v_op := op', v_anchor := v_ip s + ml\<rparr>"
    have "hc_common e m0 ctx0 hist src lim U ?t" using s em' by (auto simp: hc_common_def)
    moreover have "?t = s\<lparr>v_m := v_m ?t, v_ip := v_ip s + ml, v_op := v_op ?t, v_anchor := v_ip s + ml\<rparr>" by simp
    ultimately show ?thesis using nxt [of ?t] enc by (simp add: hc_encode_def)
  qed
qed

section \<open>Searching\<close>

lemma hc_ctx_ok_view:
  assumes "hc_ctx_ok e ctx0 ctx"
  shows "hc_base ctx = hc_base ctx0" "hc_dictLimit ctx = hc_dictLimit ctx0" "hc_size ctx D = hc_size ctx0 D"
    "hc_data ctx m D = hc_data ctx0 m D" "hc_found ctx m lim ip ref ml = hc_found ctx0 m lim ip ref ml"
proof -
  obtain HT CT n where "ctx = with_tables ctx0 HT CT n" using assms by (auto simp: hc_ctx_ok_def)
  then show "hc_base ctx = hc_base ctx0" "hc_dictLimit ctx = hc_dictLimit ctx0" "hc_size ctx D = hc_size ctx0 D"
    "hc_data ctx m D = hc_data ctx0 m D" "hc_found ctx m lim ip ref ml = hc_found ctx0 m lim ip ref ml"
    by (simp_all add: hc_found_def)
qed

lemma hc_ctx_ok_step:
  assumes "hc_ctx_ok e ctx0 ctx" "hc_tables (with_tables ctx HT CT n)" "hc_nextToUpdate ctx \<le> n" "hc_base ctx0 + n \<le> h_mflimit e"
  shows "hc_ctx_ok e ctx0 (with_tables ctx HT CT n)"
proof -
  obtain HT' CT' n' where "ctx = with_tables ctx0 HT' CT' n'" using assms(1) by (auto simp: hc_ctx_ok_def)
  then show ?thesis using assms by (auto simp: hc_ctx_ok_def)
qed

lemma hc_common_data:
  assumes run: "hc_run e m0 ctx0 hist src lim" and s: "hc_common e m0 ctx0 hist src lim U s"
  shows "hc_data ctx0 (v_m s) (hist @ src)" "hc_ctx_ok e ctx0 (v_ctx s)" "h_source e \<le> v_anchor s"
proof -
  obtain ss where em: "emitted (hc_cmp e) m0 (v_m s) hist src lim (v_anchor s) (v_op s) ss" using s by (auto simp: hc_common_def)
  then show "h_source e \<le> v_anchor s" by (simp add: emitted_def)
  show "hc_data ctx0 (v_m s) (hist @ src)" using hc_run_data [OF run] emitted_same [OF em] by simp
  show "hc_ctx_ok e ctx0 (v_ctx s)" using s by (simp add: hc_common_def)
qed

lemma common_best:
  assumes run: "hc_run e m0 ctx0 hist src lim" and s: "hc_common e m0 ctx0 hist src lim (v_ip s) s"
    and ip: "v_anchor s \<le> v_ip s" "v_ip s < h_mflimit e"
  shows "\<exists>ctx ml ref'. LZ4HC_InsertAndFindBestMatch (v_m s) (v_ctx s) (v_ip s) (h_matchlimit e) ref nb = Some (ctx, ml, ref') \<and>
    hc_common e m0 ctx0 hist src lim (v_ip s) (s\<lparr>v_ctx := ctx\<rparr>) \<and>
    (ml = 0 \<or> gmatch e hist src (v_ip s) ref' ml)"
proof -
  note r = hc_runD [OF run] and d = hc_common_data [OF run s]
  note view = hc_ctx_ok_view [OF d(2)]
  have "hc_data (v_ctx s) (v_m s) (hist @ src)" "hc_tables (v_ctx s)" "hc_dictLimit (v_ctx s) \<le> hc_nextToUpdate (v_ctx s)"
    "hc_nextToUpdate (v_ctx s) \<le> v_ip s - hc_base (v_ctx s)" "v_ip s + 4 \<le> h_matchlimit e"
    "h_matchlimit e < hc_base (v_ctx s) + hc_size (v_ctx s) (hist @ src)"
    using d s ip r view by (auto simp: hc_ctx_ok_def hc_common_def)
  from find_best_spec [OF this, of ref nb]
  obtain HT CT ml ref' where f: "LZ4HC_InsertAndFindBestMatch (v_m s) (v_ctx s) (v_ip s) (h_matchlimit e) ref nb =
      Some (with_tables (v_ctx s) HT CT (v_ip s - hc_base ctx0), ml, ref')"
    "hc_tables (with_tables (v_ctx s) HT CT (v_ip s - hc_base ctx0))" "ml = 0 \<or> hc_found ctx0 (v_m s) (h_matchlimit e) (v_ip s) ref' ml"
    by (auto simp: view)
  have "hc_ctx_ok e ctx0 (with_tables (v_ctx s) HT CT (v_ip s - hc_base ctx0))"
    using hc_ctx_ok_step [OF d(2) f(2)] s ip by (simp add: hc_common_def)
  then have "hc_common e m0 ctx0 hist src lim (v_ip s) (s\<lparr>v_ctx := with_tables (v_ctx s) HT CT (v_ip s - hc_base ctx0)\<rparr>)"
    using s by (simp add: hc_common_def)
  moreover have "ml = 0 \<or> gmatch e hist src (v_ip s) ref' ml"
    using f(3) found_gmatch [OF run d(1)] ip(1) d(3) by auto
  ultimately show ?thesis using f(1) by blast
qed

lemma common_wider:
  assumes run: "hc_run e m0 ctx0 hist src lim" and s: "hc_common e m0 ctx0 hist src lim p s"
    and p: "p + 2 \<le> h_mflimit e" and lo: "v_anchor s \<le> lo" "lo \<le> p" "p - lo \<le> ml" "lo + ml \<le> h_matchlimit e"
  shows "\<exists>ctx ml' ref' start'. LZ4HC_InsertAndGetWiderMatch (v_m s) (v_ctx s) p lo (h_matchlimit e) ml ref start nb =
      Some (ctx, ml', ref', start') \<and> hc_common e m0 ctx0 hist src lim p (s\<lparr>v_ctx := ctx\<rparr>) \<and>
    ((ml', ref', start') = (ml, ref, start) \<or> ml < ml' \<and> lo \<le> start' \<and> start' \<le> p \<and> gmatch e hist src start' ref' ml')"
proof -
  note r = hc_runD [OF run] and d = hc_common_data [OF run s]
  note view = hc_ctx_ok_view [OF d(2)]
  have "hc_data (v_ctx s) (v_m s) (hist @ src)" "hc_tables (v_ctx s)" "hc_dictLimit (v_ctx s) \<le> hc_nextToUpdate (v_ctx s)"
    "hc_nextToUpdate (v_ctx s) \<le> p - hc_base (v_ctx s)" "p + 4 \<le> h_matchlimit e"
    "h_matchlimit e < hc_base (v_ctx s) + hc_size (v_ctx s) (hist @ src)"
    "hc_base (v_ctx s) + hc_dictLimit (v_ctx s) \<le> lo" "p - lo < 2 ^ 31"
    using d s p lo r view by (auto simp: hc_ctx_ok_def hc_common_def)
  from get_wider_spec [OF this(1-7) lo(2) this(8) lo(3,4), of ref start nb]
  obtain HT CT ml' ref' start' where f: "LZ4HC_InsertAndGetWiderMatch (v_m s) (v_ctx s) p lo (h_matchlimit e) ml ref start nb =
      Some (with_tables (v_ctx s) HT CT (p - hc_base ctx0), ml', ref', start')"
    "hc_tables (with_tables (v_ctx s) HT CT (p - hc_base ctx0))"
    "(ml', ref', start') = (ml, ref, start) \<or>
     ml < ml' \<and> lo \<le> start' \<and> start' \<le> p \<and> hc_found ctx0 (v_m s) (h_matchlimit e) start' ref' ml'"
    unfolding view by blast
  have "hc_ctx_ok e ctx0 (with_tables (v_ctx s) HT CT (p - hc_base ctx0))"
    using hc_ctx_ok_step [OF d(2) f(2)] s p by (simp add: hc_common_def)
  then have "hc_common e m0 ctx0 hist src lim p (s\<lparr>v_ctx := with_tables (v_ctx s) HT CT (p - hc_base ctx0)\<rparr>)"
    using s by (simp add: hc_common_def)
  moreover have "(ml', ref', start') = (ml, ref, start) \<or>
      ml < ml' \<and> lo \<le> start' \<and> start' \<le> p \<and> gmatch e hist src start' ref' ml'"
    using f(3) found_gmatch [OF run d(1)] lo(1) d(3) by auto
  ultimately show ?thesis using f(1) by blast
qed

section \<open>Steps\<close>

lemma hc_main_spec:
  assumes run: "hc_run e m0 ctx0 hist src lim" and s: "at_main e m0 ctx0 hist src lim s"
  shows "\<exists>r. hc_main e s = Some r \<and> hc_outcome_ok e m0 ctx0 hist src lim Main_loop s r"
proof (cases "v_ip s < h_mflimit e")
  case False
  then show ?thesis using s by (simp add: hc_main_def hc_outcome_ok_def)
next
  case True
  have c: "hc_common e m0 ctx0 hist src lim (v_ip s) s" "v_anchor s \<le> v_ip s" using s by (auto simp: at_main_def)
  obtain ctx ml ref where b: "LZ4HC_InsertAndFindBestMatch (v_m s) (v_ctx s) (v_ip s) (h_matchlimit e) (v_ref s) (h_maxNbAttempts e) =
      Some (ctx, ml, ref)" "hc_common e m0 ctx0 hist src lim (v_ip s) (s\<lparr>v_ctx := ctx\<rparr>)"
    "ml = 0 \<or> gmatch e hist src (v_ip s) ref ml"
    using common_best [OF run c True] by blast
  define t where "t = s\<lparr>v_ctx := ctx, v_ml := ml, v_ref := ref\<rparr>"
  show ?thesis
  proof (cases "ml = 0")
    case ml: True
    have "at_main e m0 ctx0 hist src lim (t\<lparr>v_ip := v_ip s + 1\<rparr>)"
      using hc_common_cong [OF b(2), of "t\<lparr>v_ip := v_ip s + 1\<rparr>" "v_ip s + 1"] c(2) by (simp add: at_main_def t_def)
    then show ?thesis
      using True ml b(1) hc_runD(3) [OF run]
      by (auto simp: hc_main_def hc_outcome_ok_def hc_inv_def hc_measure_def hc_reach_def t_def)
  next
    case False
    then have g: "gmatch e hist src (v_ip s) ref ml" "4 \<le> ml" "v_ip s + ml \<le> h_iend e - 5" using b(3) by (auto simp: gmatch_def)
    define u where "u = t\<lparr>v_start0 := v_ip s, v_ref0 := ref, v_ml0 := ml\<rparr>"
    have "hc_common e m0 ctx0 hist src lim (v_ip s + ml - 2) u"
      using hc_common_cong [OF b(2), of u "v_ip s + ml - 2"] g(2) by (simp add: u_def t_def)
    then have "at_search2 e m0 ctx0 hist src lim u"
      using c(2) g True by (simp add: at_search2_def u_def t_def)
    then show ?thesis
      using True False b(1) g by (auto simp: hc_main_def hc_outcome_ok_def hc_inv_def hc_measure_def hc_reach_def t_def u_def)
  qed
qed

lemma goto_ok:
  assumes "hc_inv e m0 ctx0 hist src lim l' s'" "l \<noteq> Main_loop" "hc_reach l s \<le> h_iend e - 5"
    and "hc_reach l s < hc_reach l' s' \<or> l' = Main_loop \<and> hc_reach l s \<le> hc_reach l' s'"
  shows "hc_outcome_ok e m0 ctx0 hist src lim l s (Goto l' s')"
  using assms by (auto simp: hc_outcome_ok_def hc_measure_def)

lemma search2_wider:
  assumes run: "hc_run e m0 ctx0 hist src lim" and s: "at_search2 e m0 ctx0 hist src lim s"
  shows "\<exists>t. (if v_ip s + v_ml s < h_mflimit e
        then do { (ctx, ml2, ref2, start2) \<leftarrow>
                    LZ4HC_InsertAndGetWiderMatch (v_m s) (v_ctx s) (v_ip s + v_ml s - 2) (v_ip s + 1)
                      (h_matchlimit e) (v_ml s) (v_ref2 s) (v_start2 s) (h_maxNbAttempts e);
                  Some (s\<lparr>v_ctx := ctx, v_ml2 := ml2, v_ref2 := ref2, v_start2 := start2\<rparr>) }
        else Some (s\<lparr>v_ml2 := v_ml s\<rparr>)) = Some t \<and>
    t = s\<lparr>v_ctx := v_ctx t, v_ml2 := v_ml2 t, v_ref2 := v_ref2 t, v_start2 := v_start2 t\<rparr> \<and> at_search2 e m0 ctx0 hist src lim t \<and>
    (v_ml2 t = v_ml s \<or> v_ml s < v_ml2 t \<and> v_ip s + v_ml s < h_mflimit e \<and> v_ip s + 1 \<le> v_start2 t \<and>
       v_start2 t \<le> v_ip s + v_ml s - 2 \<and> gmatch e hist src (v_start2 t) (v_ref2 t) (v_ml2 t))"
proof (cases "v_ip s + v_ml s < h_mflimit e")
  case False
  then show ?thesis using s by (auto simp: at_search2_def hc_common_def)
next
  case True
  have c: "hc_common e m0 ctx0 hist src lim (v_ip s + v_ml s - 2) s" "4 \<le> v_ml s"
    using s by (auto simp: at_search2_def gmatch_def)
  have "v_ip s + v_ml s - 2 + 2 \<le> h_mflimit e" "v_anchor s \<le> v_ip s + 1" "v_ip s + 1 \<le> v_ip s + v_ml s - 2"
    "v_ip s + v_ml s - 2 - (v_ip s + 1) \<le> v_ml s" "v_ip s + 1 + v_ml s \<le> h_matchlimit e"
    using True c(2) s hc_runD(3,4) [OF run] by (auto simp: at_search2_def)
  from common_wider [OF run c(1) this, of "v_ref2 s" "v_start2 s" "h_maxNbAttempts e"]
  obtain ctx ml2 ref2 start2 where w: "LZ4HC_InsertAndGetWiderMatch (v_m s) (v_ctx s) (v_ip s + v_ml s - 2) (v_ip s + 1)
      (h_matchlimit e) (v_ml s) (v_ref2 s) (v_start2 s) (h_maxNbAttempts e) = Some (ctx, ml2, ref2, start2)"
    "hc_common e m0 ctx0 hist src lim (v_ip s + v_ml s - 2) (s\<lparr>v_ctx := ctx\<rparr>)"
    "(ml2, ref2, start2) = (v_ml s, v_ref2 s, v_start2 s) \<or>
     v_ml s < ml2 \<and> v_ip s + 1 \<le> start2 \<and> start2 \<le> v_ip s + v_ml s - 2 \<and> gmatch e hist src start2 ref2 ml2" by blast
  define t where "t = s\<lparr>v_ctx := ctx, v_ml2 := ml2, v_ref2 := ref2, v_start2 := start2\<rparr>"
  have "hc_common e m0 ctx0 hist src lim (v_ip s + v_ml s - 2) t"
    using hc_common_cong [OF w(2), of t] by (simp add: t_def)
  then have "at_search2 e m0 ctx0 hist src lim t" using s by (simp add: at_search2_def t_def)
  then show ?thesis using w True by (auto simp: t_def)
qed

lemma hc_search2_spec:
  assumes run: "hc_run e m0 ctx0 hist src lim" and s: "at_search2 e m0 ctx0 hist src lim s"
  shows "\<exists>r. hc_search2 e s = Some r \<and> hc_outcome_ok e m0 ctx0 hist src lim Search2 s r"
proof -
  obtain t where t: "(if v_ip s + v_ml s < h_mflimit e
        then do { (ctx, ml2, ref2, start2) \<leftarrow>
                    LZ4HC_InsertAndGetWiderMatch (v_m s) (v_ctx s) (v_ip s + v_ml s - 2) (v_ip s + 1)
                      (h_matchlimit e) (v_ml s) (v_ref2 s) (v_start2 s) (h_maxNbAttempts e);
                  Some (s\<lparr>v_ctx := ctx, v_ml2 := ml2, v_ref2 := ref2, v_start2 := start2\<rparr>) }
        else Some (s\<lparr>v_ml2 := v_ml s\<rparr>)) = Some t"
    "t = s\<lparr>v_ctx := v_ctx t, v_ml2 := v_ml2 t, v_ref2 := v_ref2 t, v_start2 := v_start2 t\<rparr>"
    and inv: "at_search2 e m0 ctx0 hist src lim t"
    and wide: "v_ml2 t = v_ml s \<or> v_ml s < v_ml2 t \<and> v_ip s + v_ml s < h_mflimit e \<and> v_ip s + 1 \<le> v_start2 t \<and>
       v_start2 t \<le> v_ip s + v_ml s - 2 \<and> gmatch e hist src (v_start2 t) (v_ref2 t) (v_ml2 t)"
    using search2_wider [OF run s] by blast
  have same: "v_ip t = v_ip s" "v_ml t = v_ml s" by (subst t(2), simp)+
  note r = hc_runD [OF run]
  have c: "hc_common e m0 ctx0 hist src lim (v_ip t + v_ml t - 2) t" "v_anchor t \<le> v_start0 t" "v_start0 t \<le> v_ip t"
    "v_ip t - v_start0 t \<le> 2" "v_start0 t < v_ip t \<longrightarrow> 5 \<le> v_ml t" "gmatch e hist src (v_ip t) (v_ref t) (v_ml t)"
    "gmatch e hist src (v_start0 t) (v_ref0 t) (v_ml0 t)" "v_start0 t + v_ml0 t \<le> v_ip t + v_ml t" "v_ip t \<le> h_mflimit e"
    using inv by (simp_all add: at_search2_def)
  have ml: "4 \<le> v_ml t" "4 \<le> v_ml0 t" "v_ip t + v_ml t \<le> h_iend e - 5" using c(6,7) by (simp_all add: gmatch_def)
  have reach: "hc_reach Search2 s = v_ip t + v_ml t" "hc_reach Search2 s \<le> h_iend e - 5" using same ml(3) by (simp_all add: hc_reach_def)
  note step = hc_search2_def [of e s, unfolded t(1) bind.bind_lunit Let_def]
  show ?thesis
  proof (cases "v_ml2 t = v_ml t")
    case True
    have "\<exists>r. hc_encode e t (v_ml t) (v_ref t) (\<lambda>s. Some (Goto Main_loop s)) = Some r \<and>
        hc_outcome_ok e m0 ctx0 hist src lim Search2 s r"
    proof (rule hc_encode_spec [OF run c(1)])
      fix u assume u: "u = t\<lparr>v_m := v_m u, v_ip := v_ip t + v_ml t, v_op := v_op u, v_anchor := v_ip t + v_ml t\<rparr>"
        and cu: "hc_common e m0 ctx0 hist src lim (v_ip t + v_ml t - 2) u"
      have eq: "v_ip u = v_ip t + v_ml t" "v_anchor u = v_ip t + v_ml t" by (subst u, simp)+
      then have "at_main e m0 ctx0 hist src lim u"
        using hc_common_cong [OF cu, of u "v_ip u"] by (simp add: at_main_def)
      then show "\<exists>r. Some (Goto Main_loop u) = Some r \<and> hc_outcome_ok e m0 ctx0 hist src lim Search2 s r"
        using goto_ok [of e m0 ctx0 hist src lim Main_loop u Search2 s] reach eq by (simp add: hc_inv_def hc_reach_def)
    qed (use c in auto)
    then show ?thesis using True step by simp
  next
    case False
    then have w: "v_ml t < v_ml2 t" "v_ip t + v_ml t < h_mflimit e" "v_ip t + 1 \<le> v_start2 t" "v_start2 t \<le> v_ip t + v_ml t - 2"
      "gmatch e hist src (v_start2 t) (v_ref2 t) (v_ml2 t)" using wide same by auto
    define u where "u = (if v_start0 t < v_ip t \<and> v_start2 t < v_ip t + v_ml0 t
      then t\<lparr>v_ip := v_start0 t, v_ref := v_ref0 t, v_ml := v_ml0 t\<rparr> else t)"
    have u: "v_m u = v_m t" "v_ctx u = v_ctx t" "v_op u = v_op t" "v_anchor u = v_anchor t" "v_start0 u = v_start0 t"
      "v_ml0 u = v_ml0 t" "v_ref0 u = v_ref0 t" "v_ml2 u = v_ml2 t" "v_start2 u = v_start2 t" "v_ref2 u = v_ref2 t"
      by (simp_all add: u_def)
    have ug: "gmatch e hist src (v_ip u) (v_ref u) (v_ml u)" "v_start0 t \<le> v_ip u" "v_ip u + v_ml u \<le> v_ip t + v_ml t"
      using c by (auto simp: u_def)
    show ?thesis
    proof (cases "v_start2 u - v_ip u < 3")
      case True
      then have near: "v_start2 t - v_start0 t \<le> 2" using c(3) ml(2) by (auto simp: u_def split: if_splits)
      define x where "x = u\<lparr>v_ml := v_ml2 u, v_ip := v_start2 u, v_ref := v_ref2 u\<rparr>"
      have "hc_common e m0 ctx0 hist src lim (v_ip x + v_ml x - 2) x"
        using hc_common_cong [OF c(1), of x "v_ip x + v_ml x - 2"] w u by (simp add: x_def)
      then have "at_search2 e m0 ctx0 hist src lim x"
        using c w ml near u by (simp add: at_search2_def x_def)
      moreover have "hc_search2 e s = Some (Goto Search2 x)" using False True step by (simp add: u_def [symmetric] x_def)
      moreover have "hc_reach Search2 s < hc_reach Search2 x" using w reach u by (simp add: hc_reach_def x_def)
      ultimately show ?thesis
        using goto_ok [of e m0 ctx0 hist src lim Search2 x Search2 s] reach(2) by (simp add: hc_inv_def)
    next
      case far: False
      have "hc_common e m0 ctx0 hist src lim (v_start2 u + v_ml2 u - 3) u"
        using hc_common_cong [OF c(1), of u "v_start2 u + v_ml2 u - 3"] w u by simp
      moreover have "v_start2 u \<le> v_ip u + v_ml u + 1" "v_start2 u = v_ip u + v_ml u + 1 \<longrightarrow> 5 \<le> v_ml2 u"
        using c w ml by (auto simp: u_def)
      ultimately have "at_search3 e m0 ctx0 hist src lim u"
        using c w ml ug far u by (simp add: at_search3_def two_matches_def)
      moreover have "hc_search2 e s = Some (Goto Search3 u)" using False far step by (simp add: u_def [symmetric])
      moreover have "hc_reach Search2 s < hc_reach Search3 u" using w reach u by (simp add: hc_reach_def)
      ultimately show ?thesis
        using goto_ok [of e m0 ctx0 hist src lim Search3 u Search2 s] reach(2) by (simp add: hc_inv_def)
    qed
  qed
qed

text \<open>The corrections.\<close>

lemma hc_new_ml_bounds:
  assumes "4 \<le> v_ml s" "8 \<le> v_start2 s - v_ip s + v_ml2 s"
  shows "4 \<le> hc_new_ml s" "hc_new_ml s \<le> v_ml s" "hc_new_ml s \<le> v_start2 s - v_ip s + v_ml2 s - 4"
  using assms by (simp_all add: hc_new_ml_def Let_def)

lemma hc_correct2_simps [simp]:
  "v_m (hc_correct2 k s) = v_m s" "v_ctx (hc_correct2 k s) = v_ctx s" "v_ip (hc_correct2 k s) = v_ip s"
  "v_op (hc_correct2 k s) = v_op s" "v_anchor (hc_correct2 k s) = v_anchor s" "v_ml (hc_correct2 k s) = v_ml s"
  "v_ref (hc_correct2 k s) = v_ref s" "v_ml3 (hc_correct2 k s) = v_ml3 s" "v_ref3 (hc_correct2 k s) = v_ref3 s"
  "v_start3 (hc_correct2 k s) = v_start3 s" "v_ml0 (hc_correct2 k s) = v_ml0 s" "v_ref0 (hc_correct2 k s) = v_ref0 s"
  "v_start0 (hc_correct2 k s) = v_start0 s"
  "v_start2 (hc_correct2 k s) = v_start2 s + max 0 k" "v_ml2 (hc_correct2 k s) = v_ml2 s - max 0 k"
  "v_ref2 (hc_correct2 k s) = v_ref2 s + max 0 k"
  by (simp_all add: hc_correct2_def)

lemma correction_spec:
  assumes s: "at_search3 e m0 ctx0 hist src lim s"
  defines "t \<equiv> (if v_start2 s - v_ip s < OPTIMAL_ML then hc_correct2 (hc_new_ml s - (v_start2 s - v_ip s)) s else s)"
  shows "after_correction e m0 ctx0 hist src lim t" "v_start2 t + v_ml2 t = v_start2 s + v_ml2 s" "v_ip t = v_ip s" "v_ml t = v_ml s"
proof -
  have inv: "two_matches e m0 ctx0 hist src lim s" "8 \<le> v_start2 s - v_ip s + v_ml2 s" using s by (simp_all add: at_search3_def)
  then have g: "gmatch e hist src (v_start2 s) (v_ref2 s) (v_ml2 s)" "4 \<le> v_ml s" "4 \<le> v_ml2 s"
    "hc_common e m0 ctx0 hist src lim (v_start2 s + v_ml2 s - 3) s"
    by (auto simp: two_matches_def gmatch_def)
  note new = hc_new_ml_bounds [OF g(2) inv(2)]
  show "v_start2 t + v_ml2 t = v_start2 s + v_ml2 s" "v_ip t = v_ip s" "v_ml t = v_ml s" by (simp_all add: t_def)
  show "after_correction e m0 ctx0 hist src lim t"
  proof (cases "v_start2 s - v_ip s < OPTIMAL_ML")
    case False
    then show ?thesis using inv by (simp add: t_def after_correction_def)
  next
    case True
    define k where "k = max 0 (hc_new_ml s - (v_start2 s - v_ip s))"
    have k: "0 \<le> k" "4 \<le> v_ml2 s - k" using g(3) new by (auto simp: k_def)
    have tk: "v_start2 t = v_start2 s + k" "v_ml2 t = v_ml2 s - k" "v_ref2 t = v_ref2 s + k"
      using True by (simp_all add: t_def k_def)
    have "gmatch e hist src (v_start2 t) (v_ref2 t) (v_ml2 t)" using gmatch_shift [OF g(1) k] tk by simp
    moreover have "hc_common e m0 ctx0 hist src lim (v_start2 t + v_ml2 t - 3) t"
      using hc_common_cong [OF g(4), of t "v_start2 t + v_ml2 t - 3"] tk by (simp add: t_def)
    moreover have "v_ip s + 4 \<le> v_start2 t" "v_start2 t \<le> h_mflimit e" "v_start2 t \<le> v_ip s + v_ml s + 1" "v_ip s \<le> v_start2 t"
      "v_start2 t = v_ip s + v_ml s + 1 \<longrightarrow> 5 \<le> v_ml2 t"
      using inv new unfolding tk k_def by (auto simp: two_matches_def)
    ultimately show ?thesis
      using inv True by (simp add: after_correction_def two_matches_def t_def)
  qed
qed

text \<open>A third match, better than the second, has been found.\<close>

definition third_match where
  "third_match e hist src s \<longleftrightarrow>
     v_ml2 s < v_ml3 s \<and> v_start2 s + v_ml2 s < h_mflimit e \<and> v_start2 s \<le> v_start3 s \<and>
     v_start3 s \<le> v_start2 s + v_ml2 s - 3 \<and> gmatch e hist src (v_start3 s) (v_ref3 s) (v_ml3 s)"

lemma search3_wider:
  assumes run: "hc_run e m0 ctx0 hist src lim" and s: "after_correction e m0 ctx0 hist src lim s"
  shows "\<exists>t. (if v_start2 s + v_ml2 s < h_mflimit e
        then do { (ctx, ml3, ref3, start3) \<leftarrow>
                    LZ4HC_InsertAndGetWiderMatch (v_m s) (v_ctx s) (v_start2 s + v_ml2 s - 3) (v_start2 s)
                      (h_matchlimit e) (v_ml2 s) (v_ref3 s) (v_start3 s) (h_maxNbAttempts e);
                  Some (s\<lparr>v_ctx := ctx, v_ml3 := ml3, v_ref3 := ref3, v_start3 := start3\<rparr>) }
        else Some (s\<lparr>v_ml3 := v_ml2 s\<rparr>)) = Some t \<and>
    t = s\<lparr>v_ctx := v_ctx t, v_ml3 := v_ml3 t, v_ref3 := v_ref3 t, v_start3 := v_start3 t\<rparr> \<and>
    after_correction e m0 ctx0 hist src lim t \<and> (v_ml3 t = v_ml2 t \<or> third_match e hist src t)"
proof (cases "v_start2 s + v_ml2 s < h_mflimit e")
  case False
  then show ?thesis using s by (auto simp: after_correction_def two_matches_def hc_common_def)
next
  case True
  have c: "hc_common e m0 ctx0 hist src lim (v_start2 s + v_ml2 s - 3) s" "4 \<le> v_ml2 s"
    using s by (auto simp: after_correction_def two_matches_def gmatch_def)
  have "v_start2 s + v_ml2 s - 3 + 2 \<le> h_mflimit e" "v_anchor s \<le> v_start2 s" "v_start2 s \<le> v_start2 s + v_ml2 s - 3"
    "v_start2 s + v_ml2 s - 3 - v_start2 s \<le> v_ml2 s" "v_start2 s + v_ml2 s \<le> h_matchlimit e"
    using True c(2) s hc_runD(3,4) [OF run] by (auto simp: after_correction_def two_matches_def)
  from common_wider [OF run c(1) this, of "v_ref3 s" "v_start3 s" "h_maxNbAttempts e"]
  obtain ctx ml3 ref3 start3 where w: "LZ4HC_InsertAndGetWiderMatch (v_m s) (v_ctx s) (v_start2 s + v_ml2 s - 3) (v_start2 s)
      (h_matchlimit e) (v_ml2 s) (v_ref3 s) (v_start3 s) (h_maxNbAttempts e) = Some (ctx, ml3, ref3, start3)"
    "hc_common e m0 ctx0 hist src lim (v_start2 s + v_ml2 s - 3) (s\<lparr>v_ctx := ctx\<rparr>)"
    "(ml3, ref3, start3) = (v_ml2 s, v_ref3 s, v_start3 s) \<or>
     v_ml2 s < ml3 \<and> v_start2 s \<le> start3 \<and> start3 \<le> v_start2 s + v_ml2 s - 3 \<and> gmatch e hist src start3 ref3 ml3" by blast
  define t where "t = s\<lparr>v_ctx := ctx, v_ml3 := ml3, v_ref3 := ref3, v_start3 := start3\<rparr>"
  have "hc_common e m0 ctx0 hist src lim (v_start2 s + v_ml2 s - 3) t"
    using hc_common_cong [OF w(2), of t] by (simp add: t_def)
  then have "after_correction e m0 ctx0 hist src lim t" using s by (simp add: after_correction_def two_matches_def t_def)
  then show ?thesis using w True by (auto simp: t_def third_match_def)
qed

lemma two_sequences_spec:
  assumes run: "hc_run e m0 ctx0 hist src lim" and s: "after_correction e m0 ctx0 hist src lim s"
    and reach: "hc_reach Search3 s0 = v_start2 s + v_ml2 s"
  shows "\<exists>r. hc_two_sequences e s = Some r \<and> hc_outcome_ok e m0 ctx0 hist src lim Search3 s0 r"
proof -
  define t where "t = (if v_start2 s < v_ip s + v_ml s then s\<lparr>v_ml := v_start2 s - v_ip s\<rparr> else s)"
  have inv: "two_matches e m0 ctx0 hist src lim s" "v_ip s + 4 \<le> v_start2 s" using s by (simp_all add: after_correction_def)
  have c: "hc_common e m0 ctx0 hist src lim (v_start2 t + v_ml2 t - 3) t"
    using inv by (auto simp: t_def two_matches_def hc_common_def)
  have g: "gmatch e hist src (v_ip t) (v_ref t) (v_ml t)" "v_ip t + v_ml t \<le> v_start2 t"
    using inv gmatch_less [of e hist src "v_ip s" "v_ref s" "v_ml s" "v_start2 s - v_ip s"]
    by (auto simp: t_def two_matches_def)
  have eq: "v_ip t = v_ip s" "v_start2 t = v_start2 s" "v_ml2 t = v_ml2 s" "v_ref2 t = v_ref2 s" "v_anchor t = v_anchor s"
    by (simp_all add: t_def)
  have g2: "gmatch e hist src (v_start2 t) (v_ref2 t) (v_ml2 t)" "v_start2 t \<le> h_mflimit e" "v_anchor t \<le> v_ip t" "v_ip t \<le> h_mflimit e"
    using inv eq by (auto simp: two_matches_def)
  have ml2: "4 \<le> v_ml2 t" "v_start2 t + v_ml2 t \<le> h_iend e - 5" using g2(1) by (auto simp: gmatch_def)
  have "\<exists>r. hc_encode e t (v_ml t) (v_ref t)
      (\<lambda>s. hc_encode e (s\<lparr>v_ip := v_start2 s\<rparr>) (v_ml2 s) (v_ref2 s) (\<lambda>s. Some (Goto Main_loop s))) = Some r \<and>
    hc_outcome_ok e m0 ctx0 hist src lim Search3 s0 r"
  proof (rule hc_encode_spec [OF run c g2(3,4) g(1)])
    fix u assume u: "u = t\<lparr>v_m := v_m u, v_ip := v_ip t + v_ml t, v_op := v_op u, v_anchor := v_ip t + v_ml t\<rparr>"
      and cu: "hc_common e m0 ctx0 hist src lim (v_start2 t + v_ml2 t - 3) u"
    have equ: "v_anchor u = v_ip t + v_ml t" "v_start2 u = v_start2 t" "v_ml2 u = v_ml2 t" "v_ref2 u = v_ref2 t"
      by (subst u, simp)+
    let ?v = "u\<lparr>v_ip := v_start2 u\<rparr>"
    have "hc_common e m0 ctx0 hist src lim (v_start2 t + v_ml2 t - 3) ?v" using hc_common_cong [OF cu, of ?v] by simp
    then show "\<exists>r. hc_encode e ?v (v_ml2 u) (v_ref2 u) (\<lambda>s. Some (Goto Main_loop s)) = Some r \<and>
        hc_outcome_ok e m0 ctx0 hist src lim Search3 s0 r"
    proof (rule hc_encode_spec [OF run])
      fix x assume x: "x = ?v\<lparr>v_m := v_m x, v_ip := v_ip ?v + v_ml2 u, v_op := v_op x, v_anchor := v_ip ?v + v_ml2 u\<rparr>"
        and cx: "hc_common e m0 ctx0 hist src lim (v_start2 t + v_ml2 t - 3) x"
      have eqx: "v_ip x = v_start2 t + v_ml2 t" "v_anchor x = v_start2 t + v_ml2 t"
        by (subst x, simp add: equ)+
      then have "at_main e m0 ctx0 hist src lim x"
        using hc_common_cong [OF cx, of x "v_ip x"] by (simp add: at_main_def)
      then show "\<exists>r. Some (Goto Main_loop x) = Some r \<and> hc_outcome_ok e m0 ctx0 hist src lim Search3 s0 r"
        using goto_ok [of e m0 ctx0 hist src lim Main_loop x Search3 s0] reach eqx eq ml2 by (simp add: hc_inv_def hc_reach_def)
    qed (use g g2 equ in auto)
  qed
  then show ?thesis by (simp add: hc_two_sequences_def Let_def t_def [symmetric])
qed

lemma hc_third_is_second_simps [simp]:
  "v_m (hc_third_is_second s) = v_m s" "v_ctx (hc_third_is_second s) = v_ctx s" "v_ip (hc_third_is_second s) = v_ip s"
  "v_op (hc_third_is_second s) = v_op s" "v_anchor (hc_third_is_second s) = v_anchor s" "v_ml (hc_third_is_second s) = v_ml s"
  "v_ref (hc_third_is_second s) = v_ref s" "v_ml3 (hc_third_is_second s) = v_ml3 s" "v_ref3 (hc_third_is_second s) = v_ref3 s"
  "v_start3 (hc_third_is_second s) = v_start3 s" "v_ml0 (hc_third_is_second s) = v_ml0 s"
  "v_ref0 (hc_third_is_second s) = v_ref0 s" "v_start0 (hc_third_is_second s) = v_start0 s"
  "v_start2 (hc_third_is_second s) = v_start3 s" "v_ml2 (hc_third_is_second s) = v_ml3 s" "v_ref2 (hc_third_is_second s) = v_ref3 s"
  by (simp_all add: hc_third_is_second_def)

lemma remove_second_spec:
  assumes run: "hc_run e m0 ctx0 hist src lim" and s: "after_correction e m0 ctx0 hist src lim s"
    and third: "third_match e hist src s" and near: "v_start3 s < v_ip s + v_ml s + 3"
    and reach: "hc_reach Search3 s0 = v_start2 s + v_ml2 s"
  shows "\<exists>r. hc_remove_second e s = Some r \<and> hc_outcome_ok e m0 ctx0 hist src lim Search3 s0 r"
proof -
  have inv: "two_matches e m0 ctx0 hist src lim s" "v_ip s + 4 \<le> v_start2 s" using s by (simp_all add: after_correction_def)
  have th: "v_ml2 s < v_ml3 s" "v_start2 s + v_ml2 s < h_mflimit e" "v_start2 s \<le> v_start3 s"
    "v_start3 s \<le> v_start2 s + v_ml2 s - 3" "gmatch e hist src (v_start3 s) (v_ref3 s) (v_ml3 s)"
    using third by (simp_all add: third_match_def)
  have g: "gmatch e hist src (v_ip s) (v_ref s) (v_ml s)" "gmatch e hist src (v_start2 s) (v_ref2 s) (v_ml2 s)"
    "hc_common e m0 ctx0 hist src lim (v_start2 s + v_ml2 s - 3) s" "v_anchor s \<le> v_ip s" "v_ip s + v_ml s < h_mflimit e"
    using inv by (auto simp: two_matches_def)
  have ml: "4 \<le> v_ml s" "4 \<le> v_ml2 s" "v_start2 s + v_ml2 s \<le> h_iend e - 5" using g(1,2) by (auto simp: gmatch_def)
  have r0: "hc_reach Search3 s0 \<le> h_iend e - 5" using reach ml(3) by simp
  show ?thesis
  proof (cases "v_start3 s \<ge> v_ip s + v_ml s")
    case False
    let ?t = "hc_third_is_second s"
    have "hc_common e m0 ctx0 hist src lim (v_start2 ?t + v_ml2 ?t - 3) ?t"
      using hc_common_cong [OF g(3), of ?t "v_start2 ?t + v_ml2 ?t - 3"] th by simp
    then have "at_search3 e m0 ctx0 hist src lim ?t"
      using False inv th g ml by (simp add: at_search3_def two_matches_def)
    then show ?thesis
      using False goto_ok [of e m0 ctx0 hist src lim Search3 ?t Search3 s0] reach r0 th
      by (simp add: hc_remove_second_def hc_inv_def hc_reach_def)
  next
    case True
    define k where "k = v_ip s + v_ml s - v_start2 s"
    define t where "t = (if v_start2 s < v_ip s + v_ml s
        then let x = s\<lparr>v_start2 := v_start2 s + k, v_ref2 := v_ref2 s + k, v_ml2 := v_ml2 s - k\<rparr>
             in if v_ml2 x < MINMATCH then hc_third_is_second x else x
        else s)"
    have eq: "v_m t = v_m s" "v_ctx t = v_ctx s" "v_op t = v_op s" "v_anchor t = v_anchor s" "v_ip t = v_ip s" "v_ml t = v_ml s"
      "v_ref t = v_ref s" "v_start3 t = v_start3 s" "v_ref3 t = v_ref3 s" "v_ml3 t = v_ml3 s"
      by (auto simp: t_def Let_def)
    have t2: "gmatch e hist src (v_start2 t) (v_ref2 t) (v_ml2 t)" "v_ip s + v_ml s \<le> v_start2 t" "v_start2 t \<le> v_start3 s"
      "v_start2 t + v_ml2 t \<le> v_start3 s + v_ml3 s"
      using gmatch_shift [OF g(2), of k] g(2) th True by (auto simp: t_def Let_def k_def)
    have c: "hc_common e m0 ctx0 hist src lim (v_start2 s + v_ml2 s - 3) t" using hc_common_cong [OF g(3)] eq by simp
    have "\<exists>r. hc_encode e t (v_ml t) (v_ref t) (\<lambda>s. Some (Goto Search2
          (s\<lparr>v_ip := v_start3 s, v_ref := v_ref3 s, v_ml := v_ml3 s,
             v_start0 := v_start2 s, v_ref0 := v_ref2 s, v_ml0 := v_ml2 s\<rparr>))) = Some r \<and>
        hc_outcome_ok e m0 ctx0 hist src lim Search3 s0 r"
    proof (rule hc_encode_spec [OF run c])
      fix u assume u: "u = t\<lparr>v_m := v_m u, v_ip := v_ip t + v_ml t, v_op := v_op u, v_anchor := v_ip t + v_ml t\<rparr>"
        and cu: "hc_common e m0 ctx0 hist src lim (v_start2 s + v_ml2 s - 3) u"
      have equ: "v_anchor u = v_ip s + v_ml s" "v_start3 u = v_start3 s" "v_ref3 u = v_ref3 s" "v_ml3 u = v_ml3 s"
        "v_start2 u = v_start2 t" "v_ref2 u = v_ref2 t" "v_ml2 u = v_ml2 t"
        by (subst u, simp add: eq)+
      define x where "x = u\<lparr>v_ip := v_start3 u, v_ref := v_ref3 u, v_ml := v_ml3 u,
        v_start0 := v_start2 u, v_ref0 := v_ref2 u, v_ml0 := v_ml2 u\<rparr>"
      have "hc_common e m0 ctx0 hist src lim (v_ip x + v_ml x - 2) x"
        using hc_common_cong [OF cu, of x "v_ip x + v_ml x - 2"] th equ by (simp add: x_def)
      then have "at_search2 e m0 ctx0 hist src lim x"
        using t2 th near ml True equ by (simp add: at_search2_def x_def)
      then show "\<exists>r. Some (Goto Search2 (u\<lparr>v_ip := v_start3 u, v_ref := v_ref3 u, v_ml := v_ml3 u,
            v_start0 := v_start2 u, v_ref0 := v_ref2 u, v_ml0 := v_ml2 u\<rparr>)) = Some r \<and>
          hc_outcome_ok e m0 ctx0 hist src lim Search3 s0 r"
        using goto_ok [of e m0 ctx0 hist src lim Search2 x Search3 s0] reach r0 th equ
        by (simp add: hc_inv_def hc_reach_def x_def)
    qed (use eq g ml in auto)
    then show ?thesis using True unfolding hc_remove_second_def t_def k_def Let_def by (simp only: if_True)
  qed
qed

lemma three_matches_spec:
  assumes run: "hc_run e m0 ctx0 hist src lim" and s: "after_correction e m0 ctx0 hist src lim s"
    and third: "third_match e hist src s" and far: "v_ip s + v_ml s + 3 \<le> v_start3 s"
    and reach: "hc_reach Search3 s0 = v_start2 s + v_ml2 s"
  shows "\<exists>r. hc_three_matches e s = Some r \<and> hc_outcome_ok e m0 ctx0 hist src lim Search3 s0 r"
proof -
  have inv: "two_matches e m0 ctx0 hist src lim s" "v_ip s + 4 \<le> v_start2 s" using s by (simp_all add: after_correction_def)
  have th: "v_ml2 s < v_ml3 s" "v_start2 s + v_ml2 s < h_mflimit e" "v_start2 s \<le> v_start3 s"
    "v_start3 s \<le> v_start2 s + v_ml2 s - 3" "gmatch e hist src (v_start3 s) (v_ref3 s) (v_ml3 s)"
    using third by (simp_all add: third_match_def)
  have g: "gmatch e hist src (v_ip s) (v_ref s) (v_ml s)" "gmatch e hist src (v_start2 s) (v_ref2 s) (v_ml2 s)"
    "hc_common e m0 ctx0 hist src lim (v_start2 s + v_ml2 s - 3) s" "v_anchor s \<le> v_ip s" "v_ip s + v_ml s < h_mflimit e"
    "v_start2 s \<le> v_ip s + v_ml s + 1" "v_start2 s = v_ip s + v_ml s + 1 \<longrightarrow> 5 \<le> v_ml2 s"
    using inv by (auto simp: two_matches_def)
  have ml: "4 \<le> v_ml s" "4 \<le> v_ml2 s" "v_start2 s + v_ml2 s \<le> h_iend e - 5" using g(1,2) by (auto simp: gmatch_def)
  have "8 \<le> v_start2 s - v_ip s + v_ml2 s" using inv(2) ml by simp
  note new = hc_new_ml_bounds [OF ml(1) this]
  define k where "k = max 0 (hc_new_ml s - (v_start2 s - v_ip s))"
  have k: "0 \<le> k" "4 \<le> v_ml2 s - k" using ml new by (auto simp: k_def)
  define t where "t = (if v_start2 s < v_ip s + v_ml s
      then if v_start2 s - v_ip s < ML_MASK
           then let ml = hc_new_ml s in hc_correct2 (ml - (v_start2 s - v_ip s)) (s\<lparr>v_ml := ml\<rparr>)
           else s\<lparr>v_ml := v_start2 s - v_ip s\<rparr>
      else s)"
  have eq: "v_m t = v_m s" "v_ctx t = v_ctx s" "v_op t = v_op s" "v_anchor t = v_anchor s" "v_ip t = v_ip s"
    "v_ref t = v_ref s" "v_start3 t = v_start3 s" "v_ref3 t = v_ref3 s" "v_ml3 t = v_ml3 s"
    "v_start2 t + v_ml2 t = v_start2 s + v_ml2 s"
    by (auto simp: t_def Let_def)
  have t1: "4 \<le> v_ml t" "v_ml t \<le> v_ml s" "v_ip s + v_ml t \<le> v_start2 t"
    using inv(2) ml new by (auto simp: t_def Let_def)
  then have g1: "gmatch e hist src (v_ip s) (v_ref s) (v_ml t)" using gmatch_less [OF g(1)] by simp
  have g2: "gmatch e hist src (v_start2 t) (v_ref2 t) (v_ml2 t)"
    using gmatch_shift [OF g(2) k] g(2) by (auto simp: t_def Let_def k_def)
  have d: "8 \<le> v_start3 s - v_start2 t + v_ml3 s" "v_start2 t \<le> v_start3 s"
    using far th g(6,7) new ml by (auto simp: t_def Let_def)
  have c: "hc_common e m0 ctx0 hist src lim (v_start2 s + v_ml2 s - 3) t" using hc_common_cong [OF g(3)] eq by simp
  have "\<exists>r. hc_encode e t (v_ml t) (v_ref t) (\<lambda>s. Some (Goto Search3
        (hc_third_is_second (s\<lparr>v_ip := v_start2 s, v_ref := v_ref2 s, v_ml := v_ml2 s\<rparr>)))) = Some r \<and>
      hc_outcome_ok e m0 ctx0 hist src lim Search3 s0 r"
  proof (rule hc_encode_spec [OF run c])
    fix u assume u: "u = t\<lparr>v_m := v_m u, v_ip := v_ip t + v_ml t, v_op := v_op u, v_anchor := v_ip t + v_ml t\<rparr>"
      and cu: "hc_common e m0 ctx0 hist src lim (v_start2 s + v_ml2 s - 3) u"
    have equ: "v_anchor u = v_ip s + v_ml t" "v_start3 u = v_start3 s" "v_ref3 u = v_ref3 s" "v_ml3 u = v_ml3 s"
      "v_start2 u = v_start2 t" "v_ref2 u = v_ref2 t" "v_ml2 u = v_ml2 t"
      by (subst u, simp add: eq)+
    define x where "x = hc_third_is_second (u\<lparr>v_ip := v_start2 u, v_ref := v_ref2 u, v_ml := v_ml2 u\<rparr>)"
    have eqx: "v_anchor x = v_ip s + v_ml t" "v_ip x = v_start2 t" "v_ref x = v_ref2 t" "v_ml x = v_ml2 t"
      "v_start2 x = v_start3 s" "v_ref2 x = v_ref3 s" "v_ml2 x = v_ml3 s"
      by (simp_all add: x_def equ)
    have "hc_common e m0 ctx0 hist src lim (v_start2 x + v_ml2 x - 3) x"
      using hc_common_cong [OF cu, of x "v_start2 x + v_ml2 x - 3"] th eqx by (simp add: x_def)
    then have "at_search3 e m0 ctx0 hist src lim x"
      using t1 g2 th d eq(10) unfolding at_search3_def two_matches_def eqx by auto
    then show "\<exists>r. Some (Goto Search3 (hc_third_is_second (u\<lparr>v_ip := v_start2 u, v_ref := v_ref2 u, v_ml := v_ml2 u\<rparr>))) = Some r \<and>
        hc_outcome_ok e m0 ctx0 hist src lim Search3 s0 r"
      using goto_ok [of e m0 ctx0 hist src lim Search3 x Search3 s0] reach ml th eqx
      by (simp add: hc_inv_def hc_reach_def x_def)
  qed (use eq g g1 t1 ml in auto)
  then show ?thesis by (simp add: hc_three_matches_def Let_def t_def)
qed

lemma hc_search3_spec:
  assumes run: "hc_run e m0 ctx0 hist src lim" and s: "at_search3 e m0 ctx0 hist src lim s"
  shows "\<exists>r. hc_search3 e s = Some r \<and> hc_outcome_ok e m0 ctx0 hist src lim Search3 s r"
proof -
  define s1 where "s1 = (if v_start2 s - v_ip s < OPTIMAL_ML then hc_correct2 (hc_new_ml s - (v_start2 s - v_ip s)) s else s)"
  note c1 = correction_spec [OF s, folded s1_def]
  obtain t where t: "(if v_start2 s1 + v_ml2 s1 < h_mflimit e
        then do { (ctx, ml3, ref3, start3) \<leftarrow>
                    LZ4HC_InsertAndGetWiderMatch (v_m s1) (v_ctx s1) (v_start2 s1 + v_ml2 s1 - 3) (v_start2 s1)
                      (h_matchlimit e) (v_ml2 s1) (v_ref3 s1) (v_start3 s1) (h_maxNbAttempts e);
                  Some (s1\<lparr>v_ctx := ctx, v_ml3 := ml3, v_ref3 := ref3, v_start3 := start3\<rparr>) }
        else Some (s1\<lparr>v_ml3 := v_ml2 s1\<rparr>)) = Some t"
    "t = s1\<lparr>v_ctx := v_ctx t, v_ml3 := v_ml3 t, v_ref3 := v_ref3 t, v_start3 := v_start3 t\<rparr>"
    and inv: "after_correction e m0 ctx0 hist src lim t" "v_ml3 t = v_ml2 t \<or> third_match e hist src t"
    using search3_wider [OF run c1(1)] by blast
  have "v_start2 t = v_start2 s1" "v_ml2 t = v_ml2 s1" by (subst t(2), simp)+
  then have reach: "hc_reach Search3 s = v_start2 t + v_ml2 t" using c1(2) by (simp add: hc_reach_def)
  have "hc_search3 e s = (if v_ml3 t = v_ml2 t then hc_two_sequences e t
      else if v_start3 t < v_ip t + v_ml t + 3 then hc_remove_second e t else hc_three_matches e t)"
    unfolding hc_search3_def Let_def s1_def [symmetric] t(1) bind.bind_lunit ..
  then show ?thesis
    using two_sequences_spec [OF run inv(1) reach] remove_second_spec [OF run inv(1) _ _ reach]
      three_matches_spec [OF run inv(1) _ _ reach] inv(2) by auto
qed

section \<open>The whole compressor\<close>

lemma hc_step_spec:
  assumes "hc_run e m0 ctx0 hist src lim" "hc_inv e m0 ctx0 hist src lim l s"
  shows "\<exists>r. hc_step e l s = Some r \<and> hc_outcome_ok e m0 ctx0 hist src lim l s r"
  using assms(2) hc_main_spec [OF assms(1), of s] hc_search2_spec [OF assms(1), of s] hc_search3_spec [OF assms(1), of s]
  by (cases l) (simp_all add: hc_inv_def hc_step_def)

text \<open>The loop ends: it leaves at its head, or returns 0 because the output is full.\<close>

lemma hc_loop_spec:
  assumes run: "hc_run e m0 ctx0 hist src lim" and "hc_inv e m0 ctx0 hist src lim l s"
  shows "\<exists>r. hc_loop e l s = Some r \<and>
    (case r of
       Inl (m, ctx) \<Rightarrow> h_limit e = HC_limitedOutput \<and> same_dom m0 m \<and> same_outside m0 m (h_dest e) lim \<and> hc_ctx_ok e ctx0 ctx
     | Inr s' \<Rightarrow> at_main e m0 ctx0 hist src lim s')"
  using assms(2)
proof (induction "hc_measure e l s" arbitrary: l s rule: less_induct)
  case less
  obtain r where r: "hc_step e l s = Some r" "hc_outcome_ok e m0 ctx0 hist src lim l s r"
    using hc_step_spec [OF run less.prems] by blast
  show ?case
  proof (cases r)
    case (Goto l' s')
    then show ?thesis
      using r less.hyps [of l' s'] by (subst hc_loop.simps) (simp add: hc_outcome_ok_def)
  next
    case (Leave s')
    then show ?thesis using r by (subst hc_loop.simps) (simp add: hc_outcome_ok_def)
  next
    case (Fail m ctx)
    then show ?thesis using r by (subst hc_loop.simps) (simp add: hc_outcome_ok_def)
  qed
qed

lemma hc_encode_last_spec:
  assumes run: "hc_run e m0 ctx0 hist src lim" and em: "emitted (hc_cmp e) m0 m hist src lim anchor op ss"
  shows "(h_limit e = HC_limitedOutput \<and> hc_encode_last e m op anchor = Some (m, 0)) \<or>
    (\<exists>m' r. hc_encode_last e m op anchor = Some (m', r) \<and> compressed_to m0 m' (h_dest e) lim hist src r \<and>
       (h_limit e = HC_limitedOutput \<longrightarrow> r \<le> h_maxOutputSize e))"
proof -
  note r = hc_runD [OF run]
  have an: "h_source e \<le> anchor" "anchor \<le> h_iend e" using em by (simp_all add: emitted_def)
  define L where "L = nat (h_iend e - anchor)"
  have L: "int L = h_iend e - anchor" using an by (simp add: L_def)
  have cast: "(h_iend e - anchor + 2 ^ 31) mod 2 ^ 32 - 2 ^ 31 = int L" using an r L by simp
  note eq = hc_encode_last_def [of e m op anchor, unfolded Let_def cast]
  show ?thesis
  proof (cases "h_limit e = HC_limitedOutput \<and>
      (op - h_dest e) + int L + 1 + (int L + 255 - RUN_MASK) div 255 > h_maxOutputSize e mod 2 ^ 32")
    case True
    then show ?thesis unfolding eq by simp
  next
    case False
    have max: "h_limit e = HC_limitedOutput \<longrightarrow>
        op + 1 + int (length (len_ext L)) + int L \<le> h_dest e + h_maxOutputSize e \<and> h_oend e = h_dest e + h_maxOutputSize e"
      using False r(7) by (auto simp: hc_room_def len_ext_bound(1))
    have "op + 1 + int (length (len_ext L)) + int L \<le> lim"
    proof (cases "h_limit e")
      case noLimit
      then show ?thesis using last_bound [OF r(1) em, of lim L] r(7) by (simp add: hc_room_def L_def)
    next
      case HC_limitedOutput
      moreover have "0 \<le> hc_slack (length src)" by (simp add: hc_slack_def)
      ultimately show ?thesis using max r(7) by (simp add: hc_room_def)
    qed
    moreover have "ss \<noteq> [] \<Longrightarrow> 5 \<le> L \<and> 12 \<le> mlen (last ss) + L" using em L by (auto simp: emitted_def)
    moreover have "take (nat (anchor - h_source e) + L) src = src" using an r(8) by (simp add: L_def)
    ultimately obtain m1 op1 m2 where p: "LZ4_put_token m op (int L) = Some (m1, op1)" "memcpy m1 op1 anchor (int L) = Some m2"
      "op1 + int L - h_dest e < 2 ^ 31" "op1 = op + 1 + int (length (len_ext L))"
      "compressed_to m0 m2 (h_dest e) lim hist src (op1 + int L - h_dest e)"
      using put_last_spec [OF r(1,2) em, of L] L by auto
    have "hc_encode_last e m op anchor = Some (m2, op1 + int L - h_dest e)"
      unfolding eq L [symmetric] using False p(1-3) compressed_to_bound(1) [OF p(5)] by simp
    moreover have "h_limit e = HC_limitedOutput \<longrightarrow> op1 + int L - h_dest e \<le> h_maxOutputSize e" using max p(4) by auto
    ultimately show ?thesis using p(5) by blast
  qed
qed

lemma hc_tables_end: "hc_tables (ctx\<lparr>hc_end := x\<rparr>) = hc_tables ctx"
  unfolding hc_tables_def tail_free_def by simp

lemma hc_generic_spec:
  fixes ctx source dest maxOutputSize limit src level
  defines "e \<equiv> \<lparr>h_source = source, h_dest = dest, h_maxOutputSize = maxOutputSize, h_limit = limit,
               h_iend = source + int (length src), h_mflimit = source + int (length src) - MFLIMIT,
               h_matchlimit = source + int (length src) - LASTLITERALS, h_oend = dest + maxOutputSize,
               h_maxNbAttempts = 2 ^ nat ((if (if level > 16 then 16 else level) < 1 then 9 else (if level > 16 then 16 else level)) - 1)\<rparr>"
    and "ctx1 \<equiv> ctx\<lparr>hc_end := hc_end ctx + int (length src)\<rparr>"
  assumes run: "hc_run e m ctx1 hist src lim" and T: "hc_tables ctx" "hc_dictLimit ctx \<le> hc_nextToUpdate ctx"
    "hc_base ctx + hc_nextToUpdate ctx \<le> source + 1"
  shows "\<exists>m' ctx' r. LZ4HC_compress_generic m ctx source dest (int (length src)) maxOutputSize level limit = Some (m', ctx', r) \<and>
    hc_ctx_ok e ctx1 ctx' \<and>
    (limit = HC_limitedOutput \<and> r = 0 \<and> same_dom m m' \<and> same_outside m m' dest lim \<or>
     compressed_to m m' dest lim hist src r \<and> (limit = HC_limitedOutput \<longrightarrow> r \<le> maxOutputSize))"
proof -
  define s where "s = \<lparr>v_m = m, v_ctx = ctx1, v_ip = source + 1, v_op = dest, v_anchor = source,
               v_ml = 0, v_ref = 0, v_ml2 = 0, v_ref2 = 0, v_start2 = 0, v_ml3 = 0, v_ref3 = 0, v_start3 = 0,
               v_ml0 = 0, v_ref0 = 0, v_start0 = 0\<rparr>"
  have fields: "h_source e = source" "h_dest e = dest" "h_limit e = limit" "h_maxOutputSize e = maxOutputSize" by (simp_all add: e_def)
  have "emitted (hc_cmp e) m m hist src lim source dest []"
    using emitted_init [of "hc_cmp e" m hist src lim] by (simp add: e_def)
  moreover have "hc_tables ctx1" using T(1) by (simp add: ctx1_def hc_tables_end)
  ultimately have "at_main e m ctx1 hist src lim s"
    using T by (auto simp: at_main_def hc_common_def hc_ctx_ok_def s_def ctx1_def)
  then obtain r where r: "hc_loop e Main_loop s = Some r"
    "case r of
       Inl (m', ctx) \<Rightarrow> h_limit e = HC_limitedOutput \<and> same_dom m m' \<and> same_outside m m' (h_dest e) lim \<and> hc_ctx_ok e ctx1 ctx
     | Inr s' \<Rightarrow> at_main e m ctx1 hist src lim s'"
    using hc_loop_spec [OF run, of Main_loop s] by (auto simp: hc_inv_def)
  have eq: "LZ4HC_compress_generic m ctx source dest (int (length src)) maxOutputSize level limit =
      (case r of Inl (m, ctx) \<Rightarrow> Some (m, ctx, 0)
       | Inr s \<Rightarrow> do { (m, n) \<leftarrow> hc_encode_last e (v_m s) (v_op s) (v_anchor s); Some (m, v_ctx s, n) })"
    unfolding LZ4HC_compress_generic_def Let_def e_def [symmetric] ctx1_def [symmetric] s_def [symmetric] r(1) by simp
  show ?thesis
  proof (cases r)
    case (Inl x)
    then show ?thesis using r(2) eq fields by (cases x) auto
  next
    case (Inr s')
    then have inv: "at_main e m ctx1 hist src lim s'" using r(2) by simp
    then obtain ss where em: "emitted (hc_cmp e) m (v_m s') hist src lim (v_anchor s') (v_op s') ss" and c: "hc_ctx_ok e ctx1 (v_ctx s')"
      by (auto simp: at_main_def hc_common_def)
    from hc_encode_last_spec [OF run em] show ?thesis
      using eq Inr c emitted_same [OF em] fields by auto
  qed
qed

end
