(* ===== verification/LZ4_HC_Stream.thy ===== *)
theory LZ4_HC_Stream
  imports LZ4_HC_Correct LZ4_Block_Chain LZ4_Compress_Correct
begin

text \<open>
  One-shot and streaming compression in the high compression mode: the invariant of the state, which
  every function of the interface keeps, and what the functions return.
\<close>

section \<open>The invariant\<close>

text \<open>
  The indices are in order and leave room in 32 bits for a step of 64 KB, and what has not been inserted into
  the chains yet starts in the prefix, not in its last two bytes.
\<close>

definition hc_ok :: "LZ4HC_Data_Structure \<Rightarrow> bool" where
  "hc_ok ctx \<longleftrightarrow> hc_tables ctx \<and> 65536 \<le> hc_lowLimit ctx \<and> hc_lowLimit ctx \<le> hc_dictLimit ctx \<and>
     hc_dictLimit ctx \<le> hc_end ctx - hc_base ctx \<and> hc_end ctx - hc_base ctx < 2 ^ 32 - 2 ^ 17 \<and>
     hc_dictLimit ctx \<le> hc_nextToUpdate ctx \<and>
     (hc_nextToUpdate ctx = hc_dictLimit ctx \<or> hc_nextToUpdate ctx + 3 \<le> hc_end ctx - hc_base ctx)"

text \<open>A state that was only reset has a \<open>base\<close> of 0.\<close>

definition hc_wf :: "LZ4HC_Data_Structure \<Rightarrow> bool" where
  "hc_wf ctx \<longleftrightarrow> hc_base ctx = 0 \<or> hc_ok ctx"

text \<open>The data of the dictionary and of the prefix.\<close>

definition hc_hist :: "LZ4HC_Data_Structure \<Rightarrow> mem \<Rightarrow> byte list \<Rightarrow> bool" where
  "hc_hist ctx m hist \<longleftrightarrow>
     int (length hist) = hc_end ctx - hc_base ctx - hc_lowLimit ctx \<and>
     (\<forall>k < length hist. hc_read ctx m (hc_lowLimit ctx + int k) = Some (hist ! k))"

lemma reset_hc_wf: "hc_wf (LZ4_resetStreamHC ctx level)"
  by (simp add: hc_wf_def LZ4_resetStreamHC_def)

lemma init_ok: "hc_ok (LZ4HC_init ctx start)" "hc_hist (LZ4HC_init ctx start) m []"
  by (auto simp: hc_ok_def hc_hist_def LZ4HC_init_def hc_tables_def tail_free_def DELTANEXTU16_def)

lemma init_fields [simp]:
  "hc_end (LZ4HC_init ctx start) = start" "hc_base (LZ4HC_init ctx start) = start - 65536"
  "hc_lowLimit (LZ4HC_init ctx start) = 65536" "hc_dictLimit (LZ4HC_init ctx start) = 65536"
  "hc_nextToUpdate (LZ4HC_init ctx start) = 65536" "hc_compressionLevel (LZ4HC_init ctx start) = hc_compressionLevel ctx"
  by (simp_all add: LZ4HC_init_def)

text \<open>A state with only a prefix.\<close>

lemma hc_hist_prefix:
  assumes "hc_lowLimit ctx = hc_dictLimit ctx"
  shows "hc_hist ctx m hist \<longleftrightarrow>
    bytes_at m (hc_base ctx + hc_dictLimit ctx) hist \<and> int (length hist) = hc_end ctx - hc_base ctx - hc_dictLimit ctx"
  using assms bytes_at_natD [of m "hc_base ctx + hc_dictLimit ctx" hist]
  by (auto simp: hc_hist_def hc_read_def add.assoc intro!: bytes_at_natI)

lemma hc_tables_raise:
  assumes "hc_tables ctx" "hc_lowLimit ctx \<le> x"
  shows "hc_tables (ctx\<lparr>hc_lowLimit := x\<rparr>)"
proof -
  have up: "tail_free ctx i \<Longrightarrow> tail_free (ctx\<lparr>hc_lowLimit := x\<rparr>) i" for i using assms(2) by (auto simp: tail_free_def)
  have down: "x \<le> i \<Longrightarrow> tail_free (ctx\<lparr>hc_lowLimit := x\<rparr>) i \<Longrightarrow> tail_free ctx i" for i by (auto simp: tail_free_def)
  show ?thesis using assms up down unfolding hc_tables_def by simp (meson order_trans)
qed

lemma hc_ok_raise:
  assumes "hc_ok ctx" "hc_lowLimit ctx \<le> x" "x \<le> hc_dictLimit ctx"
  shows "hc_ok (ctx\<lparr>hc_lowLimit := x\<rparr>)"
  using assms hc_tables_raise [of ctx x] by (auto simp: hc_ok_def)

lemma mapped_bytes:
  assumes "mapped m a (a + n)" "0 \<le> n"
  shows "\<exists>D. bytes_at m a D \<and> int (length D) = n"
proof (intro exI conjI)
  let ?D = "map (\<lambda>k. the (m (a + int k))) [0 ..< nat n]"
  show "bytes_at m a ?D" using assms by (intro bytes_at_natI) (auto simp: mapped_def)
  show "int (length ?D) = n" using assms(2) by simp
qed

section \<open>Inserting the rest of a segment\<close>

lemma Insert_low:
  "LZ4HC_Insert m (ctx\<lparr>hc_lowLimit := x\<rparr>) ip = map_option (\<lambda>c. c\<lparr>hc_lowLimit := x\<rparr>) (LZ4HC_Insert m ctx ip)"
  by (cases "LZ4HC_Insert_loop m (hc_base ctx) ((ip - hc_base ctx) mod 2 ^ 32) (hc_hashTable ctx) (hc_chainTable ctx) (hc_nextToUpdate ctx)")
    (auto simp: LZ4HC_Insert_def Let_def)

text \<open>
  Inserting up to the last three bytes of the prefix: where there is nothing to insert, only the index is
  set back.
\<close>

lemma Insert_rest:
  assumes ok: "hc_ok ctx" and pre: "mapped m (hc_base ctx + hc_dictLimit ctx) (hc_end ctx)"
  defines "n \<equiv> hc_end ctx - hc_base ctx - 3"
  shows "\<exists>HT CT. LZ4HC_Insert m ctx (hc_end ctx - 3) = Some (with_tables ctx HT CT n) \<and>
    (\<forall>h < 2 ^ 15. 0 \<le> HT h \<and> (HT h < n \<or> HT h < hc_dictLimit ctx)) \<and> (\<forall>k. 0 \<le> CT k \<and> CT k \<le> 65535) \<and>
    (hc_nextToUpdate ctx \<le> n \<longrightarrow> hc_tables ((with_tables ctx HT CT n)\<lparr>hc_lowLimit := hc_dictLimit ctx\<rparr>))"
proof (cases "hc_nextToUpdate ctx \<le> n")
  case True
  let ?c = "ctx\<lparr>hc_lowLimit := hc_dictLimit ctx\<rparr>"
  have okc: "hc_ok ?c" using ok by (intro hc_ok_raise) (auto simp: hc_ok_def)
  have "0 \<le> hc_end ctx - hc_base ctx - hc_dictLimit ctx" using ok by (simp add: hc_ok_def)
  from mapped_bytes [OF _ this, of m "hc_base ctx + hc_dictLimit ctx"] pre
  obtain D where D: "bytes_at m (hc_base ctx + hc_dictLimit ctx) D" "int (length D) = hc_end ctx - hc_base ctx - hc_dictLimit ctx"
    by auto
  have "hc_data ?c m D"
    using okc bytes_at_natD [OF D(1)] D(2) by (auto simp: hc_data_def hc_ok_def hc_read_def add.assoc)
  moreover have "hc_size ?c D = hc_end ctx - hc_base ctx" using D by (simp add: hc_size_def)
  ultimately have "\<exists>HT CT. LZ4HC_Insert m ?c (hc_end ctx - 3) = Some (with_tables ?c HT CT (hc_end ctx - 3 - hc_base ?c)) \<and>
      hc_tables (with_tables ?c HT CT (hc_end ctx - 3 - hc_base ?c))"
    using okc True by (intro Insert_spec) (auto simp: hc_ok_def n_def)
  moreover have "hc_end ctx - 3 - hc_base ?c = n" by (simp add: n_def)
  ultimately obtain HT CT where I: "LZ4HC_Insert m ?c (hc_end ctx - 3) = Some (with_tables ?c HT CT n)"
    "hc_tables (with_tables ?c HT CT n)" by auto
  obtain HT0 CT0 where L: "LZ4HC_Insert m ctx (hc_end ctx - 3) = Some (with_tables ctx HT0 CT0 ((hc_end ctx - 3 - hc_base ctx) mod 2 ^ 32))"
    using I(1) unfolding Insert_low by (auto simp: LZ4HC_Insert_def Let_def bind_eq_Some_conv)
  have eq: "(with_tables ctx HT0 CT0 ((hc_end ctx - 3 - hc_base ctx) mod 2 ^ 32))\<lparr>hc_lowLimit := hc_dictLimit ctx\<rparr> = with_tables ?c HT CT n"
    using I(1) unfolding Insert_low L by simp
  have "HT0 = HT" "CT0 = CT" "(hc_end ctx - 3 - hc_base ctx) mod 2 ^ 32 = n"
    using arg_cong [OF eq, of hc_hashTable] arg_cong [OF eq, of hc_chainTable] arg_cong [OF eq, of hc_nextToUpdate] by simp_all
  then have "LZ4HC_Insert m ctx (hc_end ctx - 3) = Some (with_tables ctx HT CT n)" using L by simp
  moreover have "\<forall>h < 2 ^ 15. 0 \<le> HT h \<and> HT h < n" "\<forall>k. 0 \<le> CT k \<and> CT k \<le> 65535"
    using I(2) by (auto simp: hc_tables_def)
  moreover have "hc_tables ((with_tables ctx HT CT n)\<lparr>hc_lowLimit := hc_dictLimit ctx\<rparr>)"
    using I(2) by (simp add: hc_tables_def tail_free_def)
  ultimately show ?thesis by - (rule exI [of _ HT], rule exI [of _ CT], simp)
next
  case False
  then have n: "hc_nextToUpdate ctx = hc_dictLimit ctx" "(hc_end ctx - 3 - hc_base ctx) mod 2 ^ 32 = n"
    "\<not> hc_nextToUpdate ctx < n"
    using ok by (auto simp: hc_ok_def n_def)
  then have "LZ4HC_Insert m ctx (hc_end ctx - 3) = Some (with_tables ctx (hc_hashTable ctx) (hc_chainTable ctx) n)"
    unfolding LZ4HC_Insert_def Let_def n(2) by (subst LZ4HC_Insert_loop.simps) simp
  moreover have "\<forall>h < 2 ^ 15. 0 \<le> hc_hashTable ctx h \<and> hc_hashTable ctx h < hc_dictLimit ctx"
    "\<forall>k. 0 \<le> hc_chainTable ctx k \<and> hc_chainTable ctx k \<le> 65535"
    using ok n(1) by (auto simp: hc_ok_def hc_tables_def)
  ultimately show ?thesis
    using False by - (rule exI [of _ "hc_hashTable ctx"], rule exI [of _ "hc_chainTable ctx"], simp)
qed


section \<open>Dictionaries\<close>

lemma loadDictHC_spec:
  assumes "mapped m d (d + n)" "0 \<le> n" "n \<le> 65536"
  shows "\<exists>ctx'. LZ4_loadDictHC m ctx d n = Some (ctx', n) \<and> hc_ok ctx' \<and> hc_base ctx' = d - 65536 \<and> hc_end ctx' = d + n \<and>
    hc_lowLimit ctx' = 65536 \<and> hc_dictLimit ctx' = 65536 \<and> hc_compressionLevel ctx' = hc_compressionLevel ctx"
proof (cases "n \<ge> 4")
  case False
  then show ?thesis
    using assms init_ok(1) [of ctx d] by (auto simp: LZ4_loadDictHC_def hc_ok_def hc_tables_end)
next
  case True
  let ?c = "(LZ4HC_init ctx d)\<lparr>hc_end := d + n\<rparr>"
  have ok: "hc_ok ?c" using assms init_ok(1) [of ctx d] by (auto simp: hc_ok_def hc_tables_end)
  have raw: "LZ4HC_Insert m ?c (d + n - 3) = map_option (\<lambda>c. c\<lparr>hc_end := d + n\<rparr>) (LZ4HC_Insert m (LZ4HC_init ctx d) (d + n - 3))"
    by (cases "LZ4HC_Insert_loop m (d - 65536) ((d + n - 3 - (d - 65536)) mod 2 ^ 32) (hc_hashTable (LZ4HC_init ctx d))
          (hc_chainTable (LZ4HC_init ctx d)) 65536")
      (auto simp: LZ4HC_Insert_def Let_def)
  obtain HT CT where I: "LZ4HC_Insert m ?c (d + n - 3) = Some (with_tables ?c HT CT (65533 + n))"
    "hc_tables ((with_tables ?c HT CT (65533 + n))\<lparr>hc_lowLimit := 65536\<rparr>)"
    using Insert_rest [OF ok, of m] assms(1) True by auto
  obtain c where c: "LZ4HC_Insert m (LZ4HC_init ctx d) (d + n - 3) = Some c" "c\<lparr>hc_end := d + n\<rparr> = with_tables ?c HT CT (65533 + n)"
    using trans [OF raw [symmetric] I(1)] unfolding map_option_eq_Some by blast
  have "hc_tables (with_tables ?c HT CT (65533 + n))"
    using I(2) by (simp add: hc_tables_def tail_free_def)
  then have "hc_ok (with_tables ?c HT CT (65533 + n))" using ok True by (simp add: hc_ok_def)
  moreover have "LZ4_loadDictHC m ctx d n = Some (with_tables ?c HT CT (65533 + n), n)"
    using True assms(3) c by (simp add: LZ4_loadDictHC_def Let_def add_diff_eq)
  ultimately show ?thesis by simp
qed

lemma setExternalDict_spec:
  assumes ok: "hc_ok ctx" and pre: "mapped m (hc_base ctx + hc_dictLimit ctx) (hc_end ctx)"
  shows "\<exists>ctx'. LZ4HC_setExternalDict m ctx source = Some ctx' \<and> hc_ok ctx' \<and> hc_end ctx' = source \<and>
    hc_dictLimit ctx' = hc_end ctx - hc_base ctx \<and> hc_base ctx' = source - hc_dictLimit ctx' \<and>
    hc_dictBase ctx' = hc_base ctx \<and> hc_lowLimit ctx' = hc_dictLimit ctx \<and> hc_compressionLevel ctx' = hc_compressionLevel ctx"
proof -
  obtain HT CT where I: "LZ4HC_Insert m ctx (hc_end ctx - 3) = Some (with_tables ctx HT CT (hc_end ctx - hc_base ctx - 3))"
    "\<forall>h < 2 ^ 15. 0 \<le> HT h \<and> (HT h < hc_end ctx - hc_base ctx - 3 \<or> HT h < hc_dictLimit ctx)"
    "\<forall>k. 0 \<le> CT k \<and> CT k \<le> 65535"
    using Insert_rest [OF ok pre] by blast
  have cast: "(hc_end ctx - hc_base ctx) mod 2 ^ 32 = hc_end ctx - hc_base ctx" "hc_end ctx \<ge> hc_base ctx + 4"
    using ok by (auto simp: hc_ok_def)
  define ctx' where "ctx' = ctx\<lparr>hc_hashTable := HT, hc_chainTable := CT, hc_nextToUpdate := hc_end ctx - hc_base ctx,
    hc_lowLimit := hc_dictLimit ctx, hc_dictLimit := hc_end ctx - hc_base ctx, hc_dictBase := hc_base ctx,
    hc_base := source - (hc_end ctx - hc_base ctx), hc_end := source\<rparr>"
  have "LZ4HC_setExternalDict m ctx source = Some ctx'"
    using I(1) cast by (simp add: LZ4HC_setExternalDict_def Let_def ctx'_def)
  moreover have "hc_tables ctx'"
  proof -
    have "0 \<le> HT h \<and> HT h < hc_end ctx - hc_base ctx \<and> tail_free ctx' (HT h)" if "h < 2 ^ 15" for h
      using I(2) that ok by (fastforce simp: tail_free_def ctx'_def hc_ok_def)
    moreover have "tail_free ctx' (i - DELTANEXTU16 CT i)"
      if "i < hc_end ctx - hc_base ctx" "hc_dictLimit ctx \<le> i" "tail_free ctx' i" for i
      using that I(3) [rule_format, of "nat (i mod 65536)"] by (auto simp: tail_free_def ctx'_def DELTANEXTU16_def)
    ultimately show ?thesis using I(3) unfolding hc_tables_def by (auto simp: ctx'_def)
  qed
  then have "hc_ok ctx'"
    using ok by (auto simp: hc_ok_def ctx'_def)
  ultimately show ?thesis by (simp add: ctx'_def)
qed

lemma check_overlap_spec:
  assumes "hc_ok ctx"
  obtains x where "hc_check_overlap ctx source n = ctx\<lparr>hc_lowLimit := x\<rparr>" "hc_lowLimit ctx \<le> x" "x \<le> hc_dictLimit ctx"
proof -
  have "\<exists>x. hc_check_overlap ctx source n = ctx\<lparr>hc_lowLimit := x\<rparr> \<and> hc_lowLimit ctx \<le> x \<and> x \<le> hc_dictLimit ctx"
  proof (cases "source + n > hc_dictBase ctx + hc_lowLimit ctx \<and> source < hc_dictBase ctx + hc_dictLimit ctx")
    case False
    then have "hc_check_overlap ctx source n = ctx\<lparr>hc_lowLimit := hc_lowLimit ctx\<rparr>" by (auto simp: hc_check_overlap_def Let_def)
    then show ?thesis using assms by (intro exI [of _ "hc_lowLimit ctx"]) (auto simp: hc_ok_def)
  next
    case True
    define l where "l = (if source + n > hc_dictBase ctx + hc_dictLimit ctx then hc_dictLimit ctx else source + n - hc_dictBase ctx)"
    have l: "hc_lowLimit ctx \<le> l" "l \<le> hc_dictLimit ctx" "l mod 2 ^ 32 = l"
      using True assms by (auto simp: l_def hc_ok_def)
    have "(if source + n > hc_dictBase ctx + hc_dictLimit ctx then hc_dictBase ctx + hc_dictLimit ctx else source + n) - hc_dictBase ctx = l"
      by (simp add: l_def)
    then have "hc_check_overlap ctx source n = (if (hc_dictLimit ctx - l) mod 2 ^ 32 < 4 then ctx\<lparr>hc_lowLimit := hc_dictLimit ctx\<rparr>
        else ctx\<lparr>hc_lowLimit := l\<rparr>)"
      using True l(3) by (simp add: hc_check_overlap_def Let_def)
    then show ?thesis using l assms by (auto simp: hc_ok_def split: if_splits)
  qed
  then show thesis using that by blast
qed


section \<open>Blocks\<close>

text \<open>The state that \<open>LZ4_compressHC_continue_generic\<close> hands to the compressor.\<close>

definition hc_segment :: "mem \<Rightarrow> LZ4HC_Data_Structure \<Rightarrow> addr \<Rightarrow> LZ4HC_Data_Structure option" where
  "hc_segment m ctx source =
     do { ctx \<leftarrow> hc_check_overflow m (if hc_base ctx = 0 then LZ4HC_init ctx source else ctx);
          if source \<noteq> hc_end ctx then LZ4HC_setExternalDict m ctx source else Some ctx }"

definition hc_prepared :: "mem \<Rightarrow> LZ4HC_Data_Structure \<Rightarrow> addr \<Rightarrow> int \<Rightarrow> LZ4HC_Data_Structure option" where
  "hc_prepared m ctx source inputSize = do { ctx \<leftarrow> hc_segment m ctx source; Some (hc_check_overlap ctx source inputSize) }"

lemma continue_generic_prepared:
  "LZ4_compressHC_continue_generic m ctx source dest n k limit =
     do { ctx \<leftarrow> hc_prepared m ctx source n;
          LZ4HC_compress_generic m ctx source dest n k (cast_int (hc_compressionLevel ctx)) limit }"
  by (simp add: LZ4_compressHC_continue_generic_def hc_prepared_def hc_segment_def Let_def)

text \<open>Loading the dictionary again after 2 GB.\<close>

lemma reload_spec:
  assumes ok: "hc_ok ctx" and pre: "mapped m (hc_base ctx + hc_dictLimit ctx) (hc_end ctx)"
  shows "\<exists>ctx'. hc_check_overflow m ctx = Some ctx' \<and> hc_ok ctx' \<and> hc_end ctx' = hc_end ctx \<and> hc_end ctx - hc_base ctx' \<le> 2 ^ 31 \<and>
    hc_compressionLevel ctx' = hc_compressionLevel ctx \<and>
    (ctx' = ctx \<or> hc_lowLimit ctx' = hc_dictLimit ctx' \<and> hc_base ctx + hc_dictLimit ctx \<le> hc_base ctx' + hc_dictLimit ctx')"
proof (cases "hc_end ctx - hc_base ctx > 2 ^ 31")
  case False
  moreover have "(hc_end ctx - hc_base ctx) mod 2 ^ 64 = hc_end ctx - hc_base ctx" using ok by (simp add: hc_ok_def)
  ultimately show ?thesis using ok by (simp add: hc_check_overflow_def)
next
  case True
  define k where "k = (if hc_end ctx - hc_base ctx - hc_dictLimit ctx > 65536 then 65536 else hc_end ctx - hc_base ctx - hc_dictLimit ctx)"
  have c: "(hc_end ctx - hc_base ctx) mod 2 ^ 64 = hc_end ctx - hc_base ctx"
    "(hc_end ctx - hc_base ctx - hc_dictLimit ctx) mod 2 ^ 64 = hc_end ctx - hc_base ctx - hc_dictLimit ctx"
    using ok by (auto simp: hc_ok_def)
  have k: "0 \<le> k" "k \<le> 65536" "k \<le> hc_end ctx - hc_base ctx - hc_dictLimit ctx" using ok by (auto simp: k_def hc_ok_def)
  have "mapped m (hc_end ctx - k) (hc_end ctx - k + k)" using pre k(3) by (auto intro: mapped_subset)
  from loadDictHC_spec [OF this k(1,2), of ctx]
  obtain ctx' where l: "LZ4_loadDictHC m ctx (hc_end ctx - k) k = Some (ctx', k)" "hc_ok ctx'" "hc_base ctx' = hc_end ctx - k - 65536"
    "hc_end ctx' = hc_end ctx" "hc_lowLimit ctx' = 65536" "hc_dictLimit ctx' = 65536" "hc_compressionLevel ctx' = hc_compressionLevel ctx"
    by auto
  have "hc_check_overflow m ctx = Some ctx'"
    using True l(1) unfolding hc_check_overflow_def Let_def c k_def [symmetric] by simp
  then show ?thesis using l k by auto
qed

lemma segment_spec:
  assumes wf: "hc_wf ctx" and pre: "hc_base ctx \<noteq> 0 \<longrightarrow> mapped m (hc_base ctx + hc_dictLimit ctx) (hc_end ctx)"
  obtains p where "hc_segment m ctx source = Some p" "hc_ok p" "hc_end p = source" "source - hc_base p \<le> 2 ^ 31"
    "hc_compressionLevel p = hc_compressionLevel ctx"
    "hc_base ctx = 0 \<Longrightarrow> p = LZ4HC_init ctx source"
    "hc_base ctx \<noteq> 0 \<Longrightarrow> hc_end ctx = source \<Longrightarrow> hc_lowLimit ctx = hc_dictLimit ctx \<Longrightarrow>
       hc_lowLimit p = hc_dictLimit p \<and> hc_base ctx + hc_dictLimit ctx \<le> hc_base p + hc_dictLimit p"
    "hc_base ctx \<noteq> 0 \<Longrightarrow> hc_end ctx \<noteq> source \<Longrightarrow> hc_end ctx - hc_base ctx \<le> 2 ^ 31 \<Longrightarrow>
       hc_dictBase p = hc_base ctx \<and> hc_lowLimit p = hc_dictLimit ctx \<and> hc_dictLimit p = hc_end ctx - hc_base ctx \<and>
       hc_base p = source - hc_dictLimit p"
proof -
  define ctx0 where "ctx0 = (if hc_base ctx = 0 then LZ4HC_init ctx source else ctx)"
  have c0: "hc_ok ctx0" "mapped m (hc_base ctx0 + hc_dictLimit ctx0) (hc_end ctx0)"
    "hc_compressionLevel ctx0 = hc_compressionLevel ctx"
    using wf pre init_ok(1) [of ctx source] by (auto simp: ctx0_def hc_wf_def mapped_def)
  obtain ctx1 where c1: "hc_check_overflow m ctx0 = Some ctx1" "hc_ok ctx1" "hc_end ctx1 = hc_end ctx0"
    "hc_end ctx0 - hc_base ctx1 \<le> 2 ^ 31" "hc_compressionLevel ctx1 = hc_compressionLevel ctx0"
    "ctx1 = ctx0 \<or> hc_lowLimit ctx1 = hc_dictLimit ctx1 \<and> hc_base ctx0 + hc_dictLimit ctx0 \<le> hc_base ctx1 + hc_dictLimit ctx1"
    using reload_spec [OF c0(1,2)] by blast
  have same: "ctx1 = ctx0" if "hc_end ctx0 - hc_base ctx0 \<le> 2 ^ 31"
    using that c0(1) c1(1) by (simp add: hc_check_overflow_def hc_ok_def)
  have "mapped m (hc_base ctx1 + hc_dictLimit ctx1) (hc_end ctx1)" using c0(2) c1(3,6) by (auto intro: mapped_subset)
  from setExternalDict_spec [OF c1(2) this, of source]
  obtain ctx2 where c2: "LZ4HC_setExternalDict m ctx1 source = Some ctx2" "hc_ok ctx2" "hc_end ctx2 = source"
    "source - hc_base ctx2 = hc_end ctx1 - hc_base ctx1" "hc_compressionLevel ctx2 = hc_compressionLevel ctx1"
    "hc_dictBase ctx2 = hc_base ctx1" "hc_lowLimit ctx2 = hc_dictLimit ctx1" "hc_dictLimit ctx2 = hc_end ctx1 - hc_base ctx1"
    by auto
  define p where "p = (if source \<noteq> hc_end ctx1 then ctx2 else ctx1)"
  have init: "p = LZ4HC_init ctx source" if "hc_base ctx = 0"
  proof -
    have "ctx0 = LZ4HC_init ctx source" using that by (simp add: ctx0_def)
    then show ?thesis using same by (simp add: p_def)
  qed
  show thesis
  proof (rule that [of p])
    show "hc_segment m ctx source = Some p"
      unfolding hc_segment_def ctx0_def [symmetric] c1(1) using c2(1) by (simp add: p_def)
    show "hc_dictBase p = hc_base ctx \<and> hc_lowLimit p = hc_dictLimit ctx \<and> hc_dictLimit p = hc_end ctx - hc_base ctx \<and>
        hc_base p = source - hc_dictLimit p"
      if h: "hc_base ctx \<noteq> 0" "hc_end ctx \<noteq> source" "hc_end ctx - hc_base ctx \<le> 2 ^ 31"
    proof -
      have "ctx0 = ctx" using h(1) by (simp add: ctx0_def)
      then have "ctx1 = ctx" using same h(3) by simp
      then show ?thesis using c2(4,6-8) h(2) by (simp add: p_def)
    qed
  qed (use c0(3) c1(2-6) c2(2-5) init in \<open>auto simp: p_def ctx0_def\<close>)
qed

lemma prepared_spec:
  assumes wf: "hc_wf ctx" and pre: "hc_base ctx \<noteq> 0 \<longrightarrow> mapped m (hc_base ctx + hc_dictLimit ctx) (hc_end ctx)"
  obtains p where "hc_prepared m ctx source n = Some p" "hc_ok p" "hc_end p = source" "source - hc_base p \<le> 2 ^ 31"
    "hc_compressionLevel p = hc_compressionLevel ctx"
    "hc_base ctx = 0 \<Longrightarrow> hc_lowLimit p = hc_dictLimit p \<and> hc_dictLimit p = 65536 \<and> hc_base p = source - 65536"
    "hc_base ctx \<noteq> 0 \<Longrightarrow> hc_end ctx = source \<Longrightarrow> hc_lowLimit ctx = hc_dictLimit ctx \<Longrightarrow>
       hc_lowLimit p = hc_dictLimit p \<and> hc_base ctx + hc_dictLimit ctx \<le> hc_base p + hc_dictLimit p"
    "hc_base ctx \<noteq> 0 \<Longrightarrow> hc_end ctx \<noteq> source \<Longrightarrow> hc_end ctx - hc_base ctx \<le> 2 ^ 31 \<Longrightarrow>
       hc_dictBase p = hc_base ctx \<and> hc_dictLimit ctx \<le> hc_lowLimit p \<and> hc_dictLimit p = hc_end ctx - hc_base ctx \<and>
       hc_base p = source - hc_dictLimit p"
proof -
  from segment_spec [OF wf pre, of source] obtain q where q: "hc_segment m ctx source = Some q" "hc_ok q" "hc_end q = source"
    "source - hc_base q \<le> 2 ^ 31" "hc_compressionLevel q = hc_compressionLevel ctx"
    and A: "hc_base ctx = 0 \<Longrightarrow> q = LZ4HC_init ctx source"
    and B: "hc_base ctx \<noteq> 0 \<Longrightarrow> hc_end ctx = source \<Longrightarrow> hc_lowLimit ctx = hc_dictLimit ctx \<Longrightarrow>
       hc_lowLimit q = hc_dictLimit q \<and> hc_base ctx + hc_dictLimit ctx \<le> hc_base q + hc_dictLimit q"
    and C: "hc_base ctx \<noteq> 0 \<Longrightarrow> hc_end ctx \<noteq> source \<Longrightarrow> hc_end ctx - hc_base ctx \<le> 2 ^ 31 \<Longrightarrow>
       hc_dictBase q = hc_base ctx \<and> hc_lowLimit q = hc_dictLimit ctx \<and> hc_dictLimit q = hc_end ctx - hc_base ctx \<and>
       hc_base q = source - hc_dictLimit q" by blast
  obtain x where x: "hc_check_overlap q source n = q\<lparr>hc_lowLimit := x\<rparr>" "hc_lowLimit q \<le> x" "x \<le> hc_dictLimit q"
    using check_overlap_spec [OF q(2)] .
  show thesis
  proof (rule that [of "q\<lparr>hc_lowLimit := x\<rparr>"])
    show "hc_prepared m ctx source n = Some (q\<lparr>hc_lowLimit := x\<rparr>)" using q(1) x(1) by (simp add: hc_prepared_def)
    show "hc_ok (q\<lparr>hc_lowLimit := x\<rparr>)" by (rule hc_ok_raise [OF q(2) x(2,3)])
    let ?p = "q\<lparr>hc_lowLimit := x\<rparr>"
    show "hc_lowLimit ?p = hc_dictLimit ?p \<and> hc_dictLimit ?p = 65536 \<and> hc_base ?p = source - 65536" if "hc_base ctx = 0"
      using A [OF that] x(2,3) by simp
    show "hc_lowLimit ?p = hc_dictLimit ?p \<and> hc_base ctx + hc_dictLimit ctx \<le> hc_base ?p + hc_dictLimit ?p"
      if "hc_base ctx \<noteq> 0" "hc_end ctx = source" "hc_lowLimit ctx = hc_dictLimit ctx"
      using B [OF that] x(2,3) by simp
    show "hc_dictBase ?p = hc_base ctx \<and> hc_dictLimit ctx \<le> hc_lowLimit ?p \<and> hc_dictLimit ?p = hc_end ctx - hc_base ctx \<and>
        hc_base ?p = source - hc_dictLimit ?p"
      if "hc_base ctx \<noteq> 0" "hc_end ctx \<noteq> source" "hc_end ctx - hc_base ctx \<le> 2 ^ 31"
      using C [OF that] x(2) by simp
  qed (use q(3-5) in simp_all)
qed

text \<open>
  What a call needs: the state satisfies the invariant, the previous data is accessible, the prepared
  state has the history \<open>hist\<close>, and the output buffer, up to \<open>lim\<close>, is apart from the input and the history.
\<close>

definition hc_output :: "byte list \<Rightarrow> int \<Rightarrow> int" where
  "hc_output src n = (if n < LZ4_compressBound (int (length src)) then n + hc_slack (length src) else n)"

definition hc_buffers :: "LZ4HC_Data_Structure \<Rightarrow> mem \<Rightarrow> byte list \<Rightarrow> addr \<Rightarrow> int \<Rightarrow> bool" where
  "hc_buffers ctx m src dest n \<longleftrightarrow>
     bytes_at m (hc_end ctx) src \<and> int (length src) \<le> LZ4_MAX_INPUT_SIZE \<and> 0 \<le> n \<and> n < 2 ^ 31 \<and>
     mapped m dest (dest + hc_output src n) \<and>
     (dest + hc_output src n \<le> hc_base ctx + hc_dictLimit ctx \<or> hc_end ctx + int (length src) \<le> dest) \<and>
     (hc_dictLimit ctx = hc_lowLimit ctx \<or> dest + hc_output src n \<le> hc_dictBase ctx + hc_lowLimit ctx \<or>
      hc_dictBase ctx + hc_dictLimit ctx \<le> dest)"

lemma hc_hist_data:
  assumes ok: "hc_ok ctx" and hist: "hc_hist ctx m hist" and src: "bytes_at m (hc_end ctx) src"
    and size: "hc_end ctx - hc_base ctx \<le> 2 ^ 31" "int (length src) \<le> 2113929216"
  shows "hc_data ctx m (hist @ src)"
proof -
  have len: "int (length hist) = hc_end ctx - hc_base ctx - hc_lowLimit ctx" using hist by (simp add: hc_hist_def)
  have "hc_read ctx m (hc_lowLimit ctx + int k) = Some ((hist @ src) ! k)" if "k < length (hist @ src)" for k
  proof (cases "k < length hist")
    case True
    then show ?thesis using hist by (simp add: hc_hist_def nth_append)
  next
    case False
    then have "hc_read ctx m (hc_lowLimit ctx + int k) = m (hc_end ctx + int (k - length hist))"
      using len ok by (simp add: hc_read_def hc_ok_def) (simp add: algebra_simps)
    then show ?thesis using False that bytes_at_natD [OF src, of "k - length hist"] by (simp add: nth_append)
  qed
  then show ?thesis using ok len size by (auto simp: hc_data_def hc_ok_def)
qed

lemma hc_read_fields:
  assumes "hc_base ctx' = hc_base ctx" "hc_dictBase ctx' = hc_dictBase ctx" "hc_dictLimit ctx' = hc_dictLimit ctx"
  shows "hc_read ctx' = hc_read ctx"
  using assms by (intro ext) (simp add: hc_read_def)

lemma hc_data_fields:
  assumes "hc_base ctx' = hc_base ctx" "hc_dictBase ctx' = hc_dictBase ctx" "hc_dictLimit ctx' = hc_dictLimit ctx"
    "hc_lowLimit ctx' = hc_lowLimit ctx"
  shows "hc_data ctx' m D = hc_data ctx m D"
  using assms hc_read_fields [OF assms(1-3)] by (simp add: hc_data_def)

lemma hc_data_end: "hc_data (ctx\<lparr>hc_end := x\<rparr>) m D = hc_data ctx m D"
  by (rule hc_data_fields) simp_all

lemma hc_data_hist:
  assumes "hc_data ctx m (hist @ src)" "int (length (hist @ src)) = hc_end ctx - hc_base ctx - hc_lowLimit ctx"
  shows "hc_hist ctx m (hist @ src)"
  using assms by (auto simp: hc_data_def hc_hist_def)

lemma hc_block_spec:
  assumes ok: "hc_ok ctx" "hc_end ctx - hc_base ctx \<le> 2 ^ 31" and hist: "hc_hist ctx m hist" and buf: "hc_buffers ctx m src dest n"
    and limit: "limit = (if n < LZ4_compressBound (int (length src)) then HC_limitedOutput else noLimit)"
  shows "\<exists>m' ctx' r. LZ4HC_compress_generic m ctx (hc_end ctx) dest (int (length src)) n level limit = Some (m', ctx', r) \<and>
    hc_ok ctx' \<and> hc_hist ctx' m' (hist @ src) \<and> hc_end ctx' = hc_end ctx + int (length src) \<and> hc_base ctx' = hc_base ctx \<and>
    hc_lowLimit ctx' = hc_lowLimit ctx \<and> hc_dictLimit ctx' = hc_dictLimit ctx \<and> hc_compressionLevel ctx' = hc_compressionLevel ctx \<and>
    same_dom m m' \<and> same_outside m m' dest (dest + hc_output src n) \<and>
    (n < LZ4_compressBound (int (length src)) \<and> r = 0 \<or>
     compressed_to m m' dest (dest + hc_output src n) hist src r \<and> r \<le> n)"
proof -
  define e where "e = \<lparr>h_source = hc_end ctx, h_dest = dest, h_maxOutputSize = n, h_limit = limit,
      h_iend = hc_end ctx + int (length src), h_mflimit = hc_end ctx + int (length src) - MFLIMIT,
      h_matchlimit = hc_end ctx + int (length src) - LASTLITERALS, h_oend = dest + n,
      h_maxNbAttempts = 2 ^ nat ((if (if level > 16 then 16 else level) < 1 then 9 else (if level > 16 then 16 else level)) - 1)\<rparr>"
  define ctx1 where "ctx1 = ctx\<lparr>hc_end := hc_end ctx + int (length src)\<rparr>"
  define lim where "lim = dest + hc_output src n"
  have len: "int (length hist) = hc_end ctx - hc_base ctx - hc_lowLimit ctx" using hist by (simp add: hc_hist_def)
  have src: "bytes_at m (hc_end ctx) src" "int (length src) \<le> 2113929216" "0 \<le> n" "n < 2 ^ 31" using buf by (auto simp: hc_buffers_def)
  have bound: "LZ4_compressBound (int (length src)) = int (length src) + int (length src) div 255 + 16"
    using src(2) by (intro compressBound_eq) auto
  have data: "hc_data ctx1 m (hist @ src)"
    using hc_hist_data [OF ok(1) hist src(1) ok(2) src(2)] by (simp add: ctx1_def hc_data_end)
  have "hc_run e m ctx1 hist src lim"
    using data buf src bound len ok limit
    by (auto simp: hc_run_def src_input_def src_apart_def hc_apart_def hc_room_def bound_room_def hc_size_def e_def ctx1_def
        lim_def hc_buffers_def hc_ok_def hc_output_def)
  note run = this
  have "hc_tables ctx" "hc_dictLimit ctx \<le> hc_nextToUpdate ctx" "hc_base ctx + hc_nextToUpdate ctx \<le> hc_end ctx + 1"
    using ok by (auto simp: hc_ok_def)
  from hc_generic_spec [OF run [unfolded e_def ctx1_def] this, folded ctx1_def, folded e_def]
  obtain m' ctx' r where g: "LZ4HC_compress_generic m ctx (hc_end ctx) dest (int (length src)) n level limit = Some (m', ctx', r)"
    "hc_ctx_ok e ctx1 ctx'"
    "limit = HC_limitedOutput \<and> r = 0 \<and> same_dom m m' \<and> same_outside m m' dest lim \<or>
     compressed_to m m' dest lim hist src r \<and> (limit = HC_limitedOutput \<longrightarrow> r \<le> n)" by blast
  have same: "same_dom m m'" "same_outside m m' dest lim" using g(3) by (auto simp: compressed_to_def emits_def)
  have eq: "ctx' = with_tables ctx1 (hc_hashTable ctx') (hc_chainTable ctx') (hc_nextToUpdate ctx')"
    using g(2) by (simp add: hc_ctx_ok_def)
  have fields: "hc_end ctx' = hc_end ctx + int (length src)" "hc_base ctx' = hc_base ctx" "hc_dictBase ctx' = hc_dictBase ctx"
    "hc_lowLimit ctx' = hc_lowLimit ctx" "hc_dictLimit ctx' = hc_dictLimit ctx" "hc_compressionLevel ctx' = hc_compressionLevel ctx"
    by (subst eq, simp add: ctx1_def)+
  have hist': "hc_hist ctx' m' (hist @ src)"
    using hc_run_data [OF run] same(2) len fields hc_data_fields [of ctx' ctx1 m' "hist @ src"]
    by (intro hc_data_hist) (auto simp: e_def ctx1_def)
  have "hc_tables ctx'" "hc_dictLimit ctx \<le> hc_nextToUpdate ctx'"
    "hc_nextToUpdate ctx' = hc_nextToUpdate ctx \<or> hc_base ctx + hc_nextToUpdate ctx' \<le> hc_end ctx + int (length src) - 12"
    using g(2) by (simp_all add: hc_ctx_ok_def e_def ctx1_def)
  then have "hc_ok ctx'"
    using ok fields src(2) by (auto simp: hc_ok_def)
  moreover have "r \<le> n" if "compressed_to m m' dest lim hist src r" "\<not> n < LZ4_compressBound (int (length src))"
    using compressed_to_bound(2) [OF that(1)] that(2) bound by simp
  ultimately show ?thesis
    using g(1,3) same fields limit hist' unfolding lim_def
    by (intro exI [of _ m'] exI [of _ ctx'] exI [of _ r]) (auto split: if_splits)
qed


definition hc_ready :: "mem \<Rightarrow> LZ4HC_Data_Structure \<Rightarrow> addr \<Rightarrow> byte list \<Rightarrow> addr \<Rightarrow> int \<Rightarrow> byte list \<Rightarrow> bool" where
  "hc_ready m ctx source src dest n hist \<longleftrightarrow>
     hc_wf ctx \<and> (hc_base ctx \<noteq> 0 \<longrightarrow> mapped m (hc_base ctx + hc_dictLimit ctx) (hc_end ctx)) \<and>
     (case hc_prepared m ctx source (int (length src)) of
        None \<Rightarrow> False
      | Some ctx' \<Rightarrow> hc_hist ctx' m hist \<and> hc_buffers ctx' m src dest n)"

lemma HC_continue_spec:
  assumes ready: "hc_ready m ctx source src dest n hist"
  shows "\<exists>m' ctx' r. LZ4_compress_HC_continue m ctx source dest (int (length src)) n = Some (m', ctx', r) \<and>
    hc_ok ctx' \<and> hc_hist ctx' m' (hist @ src) \<and> hc_end ctx' = source + int (length src) \<and>
    (\<forall>p. hc_prepared m ctx source (int (length src)) = Some p \<longrightarrow>
       hc_base ctx' = hc_base p \<and> hc_lowLimit ctx' = hc_lowLimit p \<and> hc_dictLimit ctx' = hc_dictLimit p) \<and>
    hc_compressionLevel ctx' = hc_compressionLevel ctx \<and>
    same_dom m m' \<and> same_outside m m' dest (dest + hc_output src n) \<and>
    (n < LZ4_compressBound (int (length src)) \<and> r = 0 \<or>
     compressed_to m m' dest (dest + hc_output src n) hist src r \<and> r \<le> n)"
proof -
  define limit where "limit = (if n < LZ4_compressBound (int (length src)) then HC_limitedOutput else noLimit)"
  have wf: "hc_wf ctx" "hc_base ctx \<noteq> 0 \<longrightarrow> mapped m (hc_base ctx + hc_dictLimit ctx) (hc_end ctx)"
    using ready by (simp_all add: hc_ready_def)
  obtain p where p: "hc_prepared m ctx source (int (length src)) = Some p" "hc_ok p" "hc_end p = source" "hc_end p - hc_base p \<le> 2 ^ 31"
    "hc_compressionLevel p = hc_compressionLevel ctx"
    by (rule prepared_spec [OF wf, of source "int (length src)"]) blast
  have q: "hc_hist p m hist" "hc_buffers p m src dest n" using ready p(1) by (simp_all add: hc_ready_def)
  have "LZ4_compress_HC_continue m ctx source dest (int (length src)) n =
      LZ4HC_compress_generic m p (hc_end p) dest (int (length src)) n (cast_int (hc_compressionLevel p)) limit"
    using p(1,3) by (simp add: LZ4_compress_HC_continue_def continue_generic_prepared limit_def)
  with hc_block_spec [OF p(2,4) q limit_def, of "cast_int (hc_compressionLevel p)"]
  obtain m' ctx' r where g: "LZ4_compress_HC_continue m ctx source dest (int (length src)) n = Some (m', ctx', r)"
    "hc_ok ctx'" "hc_hist ctx' m' (hist @ src)" "hc_end ctx' = hc_end p + int (length src)" "hc_base ctx' = hc_base p"
    "hc_lowLimit ctx' = hc_lowLimit p" "hc_dictLimit ctx' = hc_dictLimit p" "hc_compressionLevel ctx' = hc_compressionLevel p"
    "same_dom m m'" "same_outside m m' dest (dest + hc_output src n)"
    "n < LZ4_compressBound (int (length src)) \<and> r = 0 \<or>
     compressed_to m m' dest (dest + hc_output src n) hist src r \<and> r \<le> n"
    by auto
  then show ?thesis using p(1,3,5) by (intro exI [of _ m'] exI [of _ ctx'] exI [of _ r]) simp
qed

section \<open>Saving the history\<close>

lemma saveDictHC_spec:
  assumes ok: "hc_ok ctx" and hist: "hc_hist ctx m hist" and buf: "mapped m buf (buf + k)"
    and lims: "hc_end ctx - hc_base ctx - hc_dictLimit ctx < 2 ^ 31" "-(2 ^ 31) \<le> k" "k < 2 ^ 31"
  shows "\<exists>m' ctx' n. LZ4_saveDictHC m ctx buf k = Some (m', ctx', n) \<and> hc_ok ctx' \<and>
    hc_hist ctx' m' (drop (length hist - nat n) hist) \<and> bytes_at m' buf (drop (length hist - nat n) hist) \<and>
    hc_end ctx' = buf + n \<and> hc_lowLimit ctx' = hc_dictLimit ctx' \<and>
    0 \<le> n \<and> n \<le> int (length hist) \<and> n \<le> 65536 \<and>
    hc_compressionLevel ctx' = hc_compressionLevel ctx \<and> same_dom m m' \<and> same_outside m m' buf (buf + n)"
proof -
  define E where "E = hc_end ctx - hc_base ctx"
  define n where "n = (let k = (if k > KB64 then KB64 else k); k = (if k < 4 then 0 else k) in if k > E - hc_dictLimit ctx then E - hc_dictLimit ctx else k)"
  have len: "int (length hist) = E - hc_lowLimit ctx" using hist by (simp add: hc_hist_def E_def)
  have n: "0 \<le> n" "n \<le> 65536" "n \<le> E - hc_dictLimit ctx" using ok by (auto simp: n_def Let_def E_def hc_ok_def)
  have le: "n \<le> int (length hist)" using n(3) len ok by (simp add: hc_ok_def)
  define h where "h = drop (length hist - nat n) hist"
  have hn: "int (length h) = n" using le n(1) by (simp add: h_def)
  have lt: "length hist - nat n + i < length hist" if "i < length h" for i using that le n(1) by (simp add: h_def)
  have h: "bytes_at m (hc_end ctx - n) h"
  proof (rule bytes_at_natI)
    fix i assume i: "i < length h"
    have "hc_read ctx m (hc_lowLimit ctx + int (length hist - nat n + i)) = Some (h ! i)"
    proof -
      have "hc_read ctx m (hc_lowLimit ctx + int (length hist - nat n + i)) = Some (hist ! (length hist - nat n + i))"
        using hist lt [OF i] unfolding hc_hist_def by blast
      then show ?thesis using i by (simp add: h_def)
    qed
    moreover have "hc_lowLimit ctx + int (length hist - nat n + i) = E - n + int i" using len le n(1) by simp
    moreover have "hc_read ctx m (E - n + int i) = m (hc_end ctx - n + int i)"
      using n(3) by (simp add: hc_read_def E_def algebra_simps)
    ultimately show "m (hc_end ctx - n + int i) = Some (h ! i)" by (simp only:)
  qed
  have "n \<le> k \<or> n = 0" using n(1) by (auto simp: n_def Let_def split: if_splits)
  then have "mapped m buf (buf + n)" using buf by (auto simp: mapped_def)
  from copied_emits [OF h, of buf "buf + n"] this hn n(2)
  obtain m' where m': "memmove m buf (hc_end ctx - n) n = Some m'" "emits m m' buf h (buf + n)"
    by auto
  define ctx' where "ctx' = ctx\<lparr>hc_end := buf + n, hc_base := buf + n - E, hc_dictLimit := E - n, hc_lowLimit := E - n,
      hc_nextToUpdate := max (hc_nextToUpdate ctx) (E - n)\<rparr>"
  have cast: "(hc_end ctx - (hc_base ctx + hc_dictLimit ctx) + 2 ^ 31) mod 2 ^ 32 - 2 ^ 31 = E - hc_dictLimit ctx"
    "E mod 2 ^ 32 = E" "(E - n) mod 2 ^ 32 = E - n"
    using ok lims n by (auto simp: E_def hc_ok_def)
  have "LZ4_saveDictHC m ctx buf k = Some (m', ctx', n)"
    unfolding LZ4_saveDictHC_def cast(1) Let_def n_def [unfolded Let_def, symmetric] m'(1)
    using cast(2,3) by (simp add: E_def [symmetric] ctx'_def max_def)
  moreover have "hc_tables ctx'"
    using ok by (auto simp: hc_ok_def hc_tables_def tail_free_def ctx'_def less_max_iff_disj)
  then have "hc_ok ctx'" using ok n by (auto simp: hc_ok_def ctx'_def E_def)
  moreover have "hc_hist ctx' m' h" "bytes_at m' buf h"
    using m'(2) hn by (simp_all add: hc_hist_prefix ctx'_def emits_def)
  ultimately show ?thesis
    using n(1,2) le m'(2) hn unfolding emits_def
    by (intro exI [of _ m'] exI [of _ ctx'] exI [of _ n]) (simp add: ctx'_def h_def [symmetric])
qed


section \<open>Streams of blocks\<close>

definition hc_holds :: "LZ4HC_Data_Structure \<Rightarrow> mem \<Rightarrow> addr \<Rightarrow> addr \<Rightarrow> byte list \<Rightarrow> bool" where
  "hc_holds ctx m lo source hist \<longleftrightarrow> lo \<le> source \<and>
     (if hc_base ctx = 0 then hist = []
      else hc_ok ctx \<and> hc_end ctx = source \<and> hc_lowLimit ctx = hc_dictLimit ctx \<and>
        lo \<le> hc_base ctx + hc_dictLimit ctx \<and> hc_hist ctx m hist)"

definition hc_fits :: "byte list \<Rightarrow> bool" where
  "hc_fits b \<longleftrightarrow> b \<noteq> [] \<and> int (length b) \<le> LZ4_MAX_INPUT_SIZE"

lemma hc_holds_ready:
  assumes h: "hc_holds ctx m lo source hist" and b: "hc_fits b" "bytes_at m source b" "mapped m buf (buf + cap)"
    and away: "source + int (length b) \<le> buf \<or> buf + cap \<le> lo" and cap: "LZ4_compressBound (int (length b)) \<le> cap" "cap < 2 ^ 31"
  shows "\<exists>xs hist1 p. hist = xs @ hist1 \<and> hc_ready m ctx source b buf cap hist1 \<and>
    hc_prepared m ctx source (int (length b)) = Some p \<and> hc_lowLimit p = hc_dictLimit p \<and> lo \<le> hc_base p + hc_dictLimit p"
proof -
  have wf: "hc_wf ctx" "hc_base ctx \<noteq> 0 \<longrightarrow> mapped m (hc_base ctx + hc_dictLimit ctx) (hc_end ctx)" "lo \<le> source"
    using h bytes_at_mapped [of m "hc_base ctx + hc_dictLimit ctx" hist]
    by (auto simp: hc_holds_def hc_wf_def hc_hist_prefix split: if_splits)
  obtain p where p: "hc_prepared m ctx source (int (length b)) = Some p" "hc_ok p" "hc_end p = source"
    "hc_base ctx = 0 \<Longrightarrow> hc_lowLimit p = hc_dictLimit p \<and> hc_dictLimit p = 65536 \<and> hc_base p = source - 65536"
    "hc_base ctx \<noteq> 0 \<Longrightarrow> hc_end ctx = source \<Longrightarrow> hc_lowLimit ctx = hc_dictLimit ctx \<Longrightarrow>
       hc_lowLimit p = hc_dictLimit p \<and> hc_base ctx + hc_dictLimit ctx \<le> hc_base p + hc_dictLimit p"
    by (rule prepared_spec [OF wf(1,2), of source "int (length b)"]) blast
  have pre: "hc_lowLimit p = hc_dictLimit p" "lo \<le> hc_base p + hc_dictLimit p"
    using h p(4,5) wf(3) by (auto simp: hc_holds_def split: if_splits)
  define n where "n = nat (source - hc_base p - hc_dictLimit p)"
  have n: "int n = source - hc_base p - hc_dictLimit p" using p(2,3) by (simp add: n_def hc_ok_def)
  define hist1 where "hist1 = drop (length hist - n) hist"
  have "n \<le> length hist \<and> bytes_at m (hc_base p + hc_dictLimit p) hist1"
  proof (cases "hc_base ctx = 0")
    case True
    then show ?thesis using h p(4) by (simp add: hc_holds_def hist1_def n_def)
  next
    case False
    then have at: "bytes_at m (hc_base ctx + hc_dictLimit ctx) hist" "int (length hist) = source - hc_base ctx - hc_dictLimit ctx"
      and le: "hc_base ctx + hc_dictLimit ctx \<le> hc_base p + hc_dictLimit p"
      using h p(5) by (auto simp: hc_holds_def hc_hist_prefix)
    then have "n \<le> length hist" using n by linarith
    then show ?thesis
      using bytes_at_slice [OF at(1), of "length hist - n" n] at(2) n by (simp add: hist1_def algebra_simps)
  qed
  then have hist1: "hc_hist p m hist1" using n p(3) pre(1) by (auto simp: hc_hist_prefix hist1_def)
  have "hc_output b cap = cap" using cap(1) by (simp add: hc_output_def)
  moreover have "0 \<le> cap" using cap(1) compressBound_eq [of "int (length b)"] b(1) by (auto simp: hc_fits_def)
  ultimately have "hc_buffers p m b buf cap" using b away pre p(3) cap(2) by (auto simp: hc_buffers_def hc_fits_def)
  then have "hc_ready m ctx source b buf cap hist1" using wf p(1) hist1 by (simp add: hc_ready_def)
  moreover have "hist = take (length hist - n) hist @ hist1" by (simp add: hist1_def)
  ultimately show ?thesis using p(1) pre by blast
qed

lemma hc_compress_block:
  assumes h: "hc_holds ctx m lo source hist" and b: "hc_fits b" "0 < lo" "0 \<le> buf" "bytes_at m source b" "mapped m buf (buf + cap)"
    and away: "source + int (length b) \<le> buf \<or> buf + cap \<le> lo" and cap: "LZ4_compressBound (int (length b)) \<le> cap" "cap < 2 ^ 31"
  shows "\<exists>m' ctx' r xs hist1 ys hist2. LZ4_compress_HC_continue m ctx source buf (int (length b)) cap = Some (m', ctx', r) \<and>
    hist = xs @ hist1 \<and> compressed_to m m' buf (buf + cap) hist1 b r \<and>
    hist @ b = ys @ hist2 \<and> hc_holds ctx' m' lo (source + int (length b)) hist2"
proof -
  obtain xs hist1 p where r: "hist = xs @ hist1" "hc_ready m ctx source b buf cap hist1"
    "hc_prepared m ctx source (int (length b)) = Some p" "hc_lowLimit p = hc_dictLimit p" "lo \<le> hc_base p + hc_dictLimit p"
    using hc_holds_ready [OF h b(1,4,5) away cap] by blast
  have out: "hc_output b cap = cap" using cap(1) by (simp add: hc_output_def)
  from HC_continue_spec [OF r(2), unfolded out] r(3) cap(1)
  obtain m' ctx' k where c: "LZ4_compress_HC_continue m ctx source buf (int (length b)) cap = Some (m', ctx', k)"
    "hc_ok ctx'" "hc_hist ctx' m' (hist1 @ b)" "hc_end ctx' = source + int (length b)" "hc_base ctx' = hc_base p"
    "hc_lowLimit ctx' = hc_lowLimit p" "hc_dictLimit ctx' = hc_dictLimit p" "compressed_to m m' buf (buf + cap) hist1 b k"
    by auto
  define hist2 where "hist2 = (if hc_base ctx' = 0 then [] else hist1 @ b)"
  have "hc_holds ctx' m' lo (source + int (length b)) hist2"
    using c r h by (auto simp: hc_holds_def hist2_def)
  moreover have "\<exists>ys. hist @ b = ys @ hist2" using r(1) by (auto simp: hist2_def)
  ultimately show ?thesis using c(1,8) r(1) by blast
qed

interpretation hc_stream: block_stream LZ4_compress_HC_continue hc_holds hc_fits
proof
  show "hc_holds ctx m' lo source hist"
    if h: "hc_holds ctx m lo source hist" and same: "\<And>a. lo \<le> a \<Longrightarrow> a < source \<Longrightarrow> m' a = m a" for ctx m m' lo source hist
    using h same by (auto simp: hc_holds_def hc_hist_prefix bytes_at_iff split: if_splits)
qed ((rule hc_compress_block; assumption), simp add: hc_holds_def, auto simp: hc_fits_def)


text \<open>A block that lies elsewhere: the data before it becomes the dictionary.\<close>

lemma external_ready:
  assumes ok: "hc_ok ctx" "hc_base ctx \<noteq> 0" "hc_end ctx - hc_base ctx \<le> 2 ^ 31" "hc_lowLimit ctx = hc_dictLimit ctx"
    and hist: "hc_hist ctx m d" and src: "hc_fits src" "bytes_at m source src" "source \<noteq> hc_end ctx"
    and buf: "mapped m buf (buf + n)" "LZ4_compressBound (int (length src)) \<le> n" "n < 2 ^ 31"
    and apart: "source + int (length src) \<le> buf \<or> buf + n \<le> source" "hc_end ctx \<le> buf \<or> buf + n \<le> hc_base ctx + hc_dictLimit ctx"
  shows "\<exists>xs hist. d = xs @ hist \<and> hc_ready m ctx source src buf n hist"
proof -
  have d: "bytes_at m (hc_base ctx + hc_dictLimit ctx) d" "int (length d) = hc_end ctx - hc_base ctx - hc_dictLimit ctx"
    using hist ok(4) by (simp_all add: hc_hist_prefix)
  have wf: "hc_wf ctx" "hc_base ctx \<noteq> 0 \<longrightarrow> mapped m (hc_base ctx + hc_dictLimit ctx) (hc_end ctx)"
    using ok(1) bytes_at_mapped [OF d(1)] d(2) by (simp_all add: hc_wf_def)
  obtain p where p: "hc_prepared m ctx source (int (length src)) = Some p" "hc_ok p" "hc_end p = source"
    "hc_dictBase p = hc_base ctx" "hc_dictLimit ctx \<le> hc_lowLimit p" "hc_dictLimit p = hc_end ctx - hc_base ctx"
    "hc_base p = source - hc_dictLimit p"
    by (rule prepared_spec [OF wf, of source "int (length src)"]) (use ok(2,3) src(3) in auto)
  have le: "hc_lowLimit p \<le> hc_dictLimit p" using p(2) by (simp add: hc_ok_def)
  define i where "i = nat (hc_lowLimit p - hc_dictLimit ctx)"
  have i: "int i = hc_lowLimit p - hc_dictLimit ctx" "i \<le> length d" using p(5,6) le d(2) by (auto simp: i_def)
  have at: "bytes_at m (hc_dictBase p + hc_lowLimit p) (drop i d)"
    using bytes_at_slice [OF d(1), of i "length d - i"] i p(4) by (simp add: algebra_simps)
  have "hc_hist p m (drop i d)"
    using bytes_at_natD [OF at] i d(2) p(3,6,7) by (auto simp: hc_hist_def hc_read_def add.assoc)
  moreover have "hc_output src n = n" using buf(2) by (simp add: hc_output_def)
  moreover have "0 \<le> n" using buf(2) compressBound_eq [of "int (length src)"] src(1) by (auto simp: hc_fits_def)
  ultimately have "hc_ready m ctx source src buf n (drop i d)"
    using wf p src buf apart le by (auto simp: hc_ready_def hc_buffers_def hc_fits_def)
  moreover have "d = take i d @ drop i d" by simp
  ultimately show ?thesis by blast
qed

lemma loadDictHC_clip:
  "LZ4_loadDictHC m ctx d n = LZ4_loadDictHC m ctx (d + (n - min n 65536)) (min n 65536)"
  by (cases "n \<le> 65536") (simp_all add: LZ4_loadDictHC_def)

end
