(* ===== verification/LZ4_HC_Roundtrip.thy ===== *)
theory LZ4_HC_Roundtrip
  imports LZ4_HC_Stream LZ4_Compress_Fast
begin

text \<open>
  What the high compression mode promises: round trips of the one-shot and the streaming functions,
  the limits of the output, and the invariant of the state.
\<close>

section \<open>One-shot compression\<close>

lemma compress_HC_spec:
  assumes "bytes_at m source src" "int (length src) \<le> LZ4_MAX_INPUT_SIZE" "0 \<le> n" "n < 2 ^ 31"
    and "mapped m dest (dest + hc_output src n)"
    and "dest + hc_output src n \<le> source \<or> source + int (length src) \<le> dest"
  shows "\<exists>m' r. LZ4_compress_HC state m source dest (int (length src)) n level = Some (m', r) \<and>
    same_dom m m' \<and> same_outside m m' dest (dest + hc_output src n) \<and>
    (n < LZ4_compressBound (int (length src)) \<and> r = 0 \<or>
     compressed_to m m' dest (dest + hc_output src n) [] src r \<and> r \<le> n)"
proof -
  let ?ctx = "LZ4HC_init state source"
  define limit where "limit = (if n < LZ4_compressBound (int (length src)) then HC_limitedOutput else noLimit)"
  have "hc_end ?ctx - hc_base ?ctx \<le> 2 ^ 31" "hc_buffers ?ctx m src dest n" using assms by (auto simp: hc_buffers_def)
  from hc_block_spec [OF init_ok(1) this(1) init_ok(2) this(2) limit_def, of level]
  obtain m' ctx' r where r: "LZ4HC_compress_generic m ?ctx source dest (int (length src)) n level limit = Some (m', ctx', r)"
    "same_dom m m'" "same_outside m m' dest (dest + hc_output src n)"
    "n < LZ4_compressBound (int (length src)) \<and> r = 0 \<or> compressed_to m m' dest (dest + hc_output src n) [] src r \<and> r \<le> n"
    by auto
  have "LZ4_compress_HC state m source dest (int (length src)) n level = Some (m', r)"
    using r(1) unfolding LZ4_compress_HC_def LZ4_compress_HC_extStateHC_def limit_def by (simp add: Let_def split: if_splits)
  then show ?thesis using r(2-4) by blast
qed

text \<open>
  C2: compressing with \<open>LZ4_compress_HC\<close>, at any level and with anything in the memory of its state,
  into a buffer of at least \<open>LZ4_compressBound\<close> bytes and then decompressing the result with
  \<open>LZ4_decompress_safe\<close> gives the input back: the compressor ends, makes no access outside its
  buffers and never reports failure, and the decompressor returns the size of the input and leaves
  its bytes in the destination.
\<close>

theorem LZ4_compress_HC_roundtrip:
  assumes "one_shot_buffers m source src dest n" "LZ4_compressBound (int (length src)) \<le> n" "n < 2 ^ 31"
    and "0 \<le> dest" "dest + n < 2 ^ 64"
    and "mapped m out (out + k)" "int (length src) \<le> k" "k < 2 ^ 31" "0 \<le> out" "out + k < 2 ^ 64"
    and "dest + n \<le> out \<or> out + k \<le> dest"
  shows "\<exists>m1 r m2. LZ4_compress_HC state m source dest (int (length src)) n level = Some (m1, r) \<and>
    0 < r \<and> r \<le> LZ4_compressBound (int (length src)) \<and> same_outside m m1 dest (dest + n) \<and>
    LZ4_decompress_safe m1 dest out r k = Some (m2, int (length src)) \<and> bytes_at m2 out src \<and>
    same_outside m1 m2 out (out + k)"
proof -
  have bound: "LZ4_compressBound (int (length src)) = int (length src) + int (length src) div 255 + 16"
    using assms(1) by (intro compressBound_eq) (auto simp: one_shot_buffers_def)
  have out: "hc_output src n = n" "0 \<le> n" using assms(2) bound by (auto simp: hc_output_def)
  obtain m1 r where c: "LZ4_compress_HC state m source dest (int (length src)) n level = Some (m1, r)"
    "compressed_to m m1 dest (dest + n) [] src r"
    using compress_HC_spec [of m source src n dest state level] assms(1-3) out by (auto simp: one_shot_buffers_def)
  have r: "0 < r" "r \<le> LZ4_compressBound (int (length src))" "same_outside m m1 dest (dest + n)"
    using compressed_to_bound [OF c(2)] c(2) bound by (auto simp: compressed_to_def emits_def)
  have "decodes_to (LZ4_decompress_safe m1 dest out r k) m1 out k (int (length src)) src"
    using compressed_decodes [OF c(2)] assms by blast
  then show ?thesis using c(1) r by (auto simp: decodes_to_def)
qed

definition blank_state :: LZ4HC_Data_Structure where
  "blank_state = \<lparr>hc_hashTable = (\<lambda>_. 0), hc_chainTable = (\<lambda>_. 0), hc_end = 0, hc_base = 0, hc_dictBase = 0, hc_inputBuffer = 0,
     hc_dictLimit = 0, hc_lowLimit = 0, hc_nextToUpdate = 0, hc_compressionLevel = 0\<rparr>"

theorem LZ4_compress_HC_roundtrip_witness:
  "\<exists>m1 r m2. LZ4_compress_HC (LZ4_resetStreamHC blank_state 0) small_mem 1 100 64 90 12 = Some (m1, r) \<and>
     LZ4_decompress_safe m1 100 300 r 64 = Some (m2, 64) \<and>
     bytes_at m2 300 (map (\<lambda>i. word_of_int (i * i)) [1..64])"
  using LZ4_compress_HC_roundtrip [OF small_mem_buffers(1) [of 90], of 300 64 "LZ4_resetStreamHC blank_state 0" 12]
    small_mem_buffers(2) [of 64]
  by (auto simp: compressBound_eq)

text \<open>
  C16: \<open>LZ4_compress_HC\<close> into a buffer of any size \<open>n\<close> ends at every level, and either returns 0, which
  only happens when \<open>n\<close> is below \<open>LZ4_compressBound\<close>, or the length of a block of at most \<open>n\<close> bytes that
  stands for the input. For an input of at most 4094 bytes nothing outside the \<open>n\<close> bytes is changed. For
  longer inputs, the limit tests being too weak by one byte in 65280, the function may write up to
  \<open>hc_slack\<close> bytes after the \<open>n\<close> bytes.
\<close>

theorem LZ4_compress_HC_limited:
  assumes "one_shot_buffers m source src dest (n + hc_slack (length src))" "0 \<le> n" "n < 2 ^ 31"
  shows "\<exists>m' r. LZ4_compress_HC state m source dest (int (length src)) n level = Some (m', r) \<and>
    same_outside m m' dest (dest + n + hc_slack (length src)) \<and> (length src \<le> 4094 \<longrightarrow> hc_slack (length src) = 0) \<and>
    (r = 0 \<and> n < LZ4_compressBound (int (length src)) \<or>
     0 < r \<and> r \<le> n \<and> (\<exists>ss ls. r = int (length (ser_block ss 0 ls)) \<and> bytes_at m' dest (ser_block ss 0 ls) \<and>
       lz4_block [] ss ls \<and> decode [] ss ls = src))"
proof -
  have slack: "0 \<le> hc_slack (length src)" by (simp add: hc_slack_def)
  have out: "hc_output src n \<le> n + hc_slack (length src)" using slack by (simp add: hc_output_def)
  have "mapped m dest (dest + hc_output src n)"
    "dest + hc_output src n \<le> source \<or> source + int (length src) \<le> dest"
    using assms(1) out by (auto simp: one_shot_buffers_def mapped_def)
  with compress_HC_spec [of m source src n dest state level] assms
  obtain m' r where r: "LZ4_compress_HC state m source dest (int (length src)) n level = Some (m', r)"
    "same_outside m m' dest (dest + hc_output src n)"
    "n < LZ4_compressBound (int (length src)) \<and> r = 0 \<or> compressed_to m m' dest (dest + hc_output src n) [] src r \<and> r \<le> n"
    by (auto simp: one_shot_buffers_def)
  have "same_outside m m' dest (dest + n + hc_slack (length src))"
    using r(2) out by (auto simp: same_outside_def)
  moreover have "length src \<le> 4094 \<longrightarrow> hc_slack (length src) = 0" by (simp add: hc_slack_def)
  ultimately show ?thesis
    using r(1,3) compressed_to_bound(1) [of m m' dest "dest + hc_output src n" "[]" src r]
    by (intro exI [of _ m'] exI [of _ r]) (auto simp: compressed_to_def emits_def)
qed

theorem LZ4_compress_HC_limited_witness:
  "\<exists>m' r. LZ4_compress_HC (LZ4_resetStreamHC blank_state 0) small_mem 1 100 64 30 4 = Some (m', r) \<and>
     same_outside small_mem m' 100 130 \<and> r \<le> 30"
  using LZ4_compress_HC_limited [of small_mem 1 "map (\<lambda>i. word_of_int (i * i)) [1..64]" 100 30
      "LZ4_resetStreamHC blank_state 0" 4] small_mem_buffers(1) [of 30]
  by (auto simp: hc_slack_def)

section \<open>Streaming\<close>

text \<open>
  C4: compressing any number of blocks that follow each other in memory with
  \<open>LZ4_compress_HC_continue\<close>, each one against the data before it, and decompressing each with
  \<open>LZ4_decompress_safe_continue\<close> behind the data decompressed so far gives all the data back, also
  beyond the 2 GB at which the state is built anew.
\<close>

theorem LZ4_HC_stream_roundtrip:
  assumes "bytes_at m source (concat bs)"
    and "areas m source (source + int (length (concat bs))) buf cap out (out + int (length (concat bs)))"
    and "\<forall>b \<in> set bs. b \<noteq> [] \<and> int (length b) \<le> LZ4_MAX_INPUT_SIZE \<and> LZ4_compressBound (int (length b)) \<le> cap"
  shows "\<exists>m' ctx sd. stream_blocks LZ4_compress_HC_continue m (LZ4_resetStreamHC ctx0 level)
      (fst (LZ4_setStreamDecode out 0)) source buf cap out bs = Some (m', ctx, sd) \<and>
    bytes_at m' out (concat bs)"
  using hc_stream.stream_blocks_spec [of "LZ4_resetStreamHC ctx0 level" m source bs buf cap out] assms
  by (simp add: hc_holds_def hc_fits_def LZ4_resetStreamHC_def)

lemma small_mem_areas:
  "bytes_at small_mem 1 (map (\<lambda>i. word_of_int (i * i)) [1..64])"
  "areas small_mem 1 65 100 90 300 364"
  by (auto simp: small_mem_def bytes_at_iff areas_def mapped_def)

theorem LZ4_HC_stream_roundtrip_witness:
  "\<exists>m' ctx sd. stream_blocks LZ4_compress_HC_continue small_mem (LZ4_resetStreamHC blank_state 9)
      (fst (LZ4_setStreamDecode 300 0)) 1 100 90 300
      [map (\<lambda>i. word_of_int (i * i)) [1..3], map (\<lambda>i. word_of_int (i * i)) [4..64]] = Some (m', ctx, sd) \<and>
     bytes_at m' 300 (map (\<lambda>i. word_of_int (i * i)) [1..64])"
proof -
  let ?bs = "[map (\<lambda>i. word_of_int (i * i)) [1..3], map (\<lambda>i. word_of_int (i * i)) [4..64]] :: byte list list"
  have "[1..3] @ [4..64] = [1..(64 :: int)]" using upto_split2 [of 1 3 64] by simp
  then have bs: "concat ?bs = map (\<lambda>i. word_of_int (i * i)) [1..64]"
    by (simp only: concat.simps append_Nil2 map_append [symmetric])
  have "bytes_at small_mem 1 (concat ?bs)"
    "areas small_mem 1 (1 + int (length (concat ?bs))) 100 90 300 (300 + int (length (concat ?bs)))"
    unfolding bs using small_mem_areas by simp_all
  moreover have "\<forall>b \<in> set ?bs. b \<noteq> [] \<and> int (length b) \<le> LZ4_MAX_INPUT_SIZE \<and> LZ4_compressBound (int (length b)) \<le> 90"
    by (simp add: compressBound_eq)
  ultimately show ?thesis
    using LZ4_HC_stream_roundtrip [of small_mem 1 ?bs 100 90 300 blank_state 9] unfolding bs by blast
qed

text \<open>
  C6: \<open>LZ4_compress_HC_continue\<close> keeps the invariant of its state, wherever the new block lies: from a state
  that satisfies it, with the history that the state refers to in memory and the output apart from
  history and input, the call ends and leaves a state that satisfies the invariant, with the input
  behind the history. It returns either the length of a block of at most \<open>n\<close> bytes that decodes to the
  input after the history, or 0, and 0 only when \<open>n\<close> is smaller than \<open>LZ4_compressBound\<close>. It writes only
  to the \<open>n\<close> bytes at \<open>dest\<close> when \<open>n\<close> is at least \<open>LZ4_compressBound\<close> or the input has at most 4094
  bytes; otherwise it may also write to the \<open>hc_slack\<close> bytes behind them, one for 65280 bytes of input,
  which \<open>hc_ready\<close> then asks to be accessible.
\<close>

theorem LZ4_compress_HC_continue_invariant:
  assumes "hc_ready m ctx source src dest n hist"
  shows "\<exists>m' ctx' r. LZ4_compress_HC_continue m ctx source dest (int (length src)) n = Some (m', ctx', r) \<and>
    hc_wf ctx' \<and> hc_hist ctx' m' (hist @ src) \<and> hc_end ctx' = source + int (length src) \<and>
    same_outside m m' dest (dest + hc_output src n) \<and> hc_output src n \<le> n + hc_slack (length src) \<and>
    (LZ4_compressBound (int (length src)) \<le> n \<or> length src \<le> 4094 \<longrightarrow> hc_output src n = n) \<and>
    (r = 0 \<and> n < LZ4_compressBound (int (length src)) \<or>
     0 < r \<and> r \<le> n \<and> (\<exists>ss ls. r = int (length (ser_block ss 0 ls)) \<and> bytes_at m' dest (ser_block ss 0 ls) \<and>
       lz4_block hist ss ls \<and> decode hist ss ls = src))"
proof -
  from HC_continue_spec [OF assms] obtain m' ctx' r where
    r: "LZ4_compress_HC_continue m ctx source dest (int (length src)) n = Some (m', ctx', r)"
    "hc_ok ctx'" "hc_hist ctx' m' (hist @ src)" "hc_end ctx' = source + int (length src)"
    "same_outside m m' dest (dest + hc_output src n)"
    "n < LZ4_compressBound (int (length src)) \<and> r = 0 \<or> compressed_to m m' dest (dest + hc_output src n) hist src r \<and> r \<le> n"
    by blast
  then have "r = 0 \<and> n < LZ4_compressBound (int (length src)) \<or>
     0 < r \<and> r \<le> n \<and> (\<exists>ss ls. r = int (length (ser_block ss 0 ls)) \<and> bytes_at m' dest (ser_block ss 0 ls) \<and>
       lz4_block hist ss ls \<and> decode hist ss ls = src)"
    using compressed_to_bound(1) [of m m' dest "dest + hc_output src n" hist src r] by (auto simp: compressed_to_def emits_def)
  moreover have "hc_output src n \<le> n + hc_slack (length src)"
    "LZ4_compressBound (int (length src)) \<le> n \<or> length src \<le> 4094 \<longrightarrow> hc_output src n = n"
    by (auto simp: hc_output_def hc_slack_def)
  ultimately show ?thesis using r(1-5) unfolding hc_wf_def by blast
qed

lemma reset_prepared: "hc_prepared m (LZ4_resetStreamHC ctx level) source n = Some (LZ4HC_init (LZ4_resetStreamHC ctx level) source)"
proof -
  let ?c = "LZ4HC_init (LZ4_resetStreamHC ctx level) source"
  obtain x where "hc_check_overlap ?c source n = ?c\<lparr>hc_lowLimit := x\<rparr>" "hc_lowLimit ?c \<le> x" "x \<le> hc_dictLimit ?c"
    using check_overlap_spec [OF init_ok(1)] .
  then have "hc_check_overlap ?c source n = ?c" by (simp add: LZ4HC_init_def)
  moreover have "hc_base (LZ4_resetStreamHC ctx level) = 0" by (simp add: LZ4_resetStreamHC_def)
  ultimately show ?thesis by (simp add: hc_prepared_def hc_segment_def hc_check_overflow_def)
qed

lemma small_mem_ready:
  "hc_ready small_mem (LZ4_resetStreamHC ctx level) 1 (map (\<lambda>i. word_of_int (i * i)) [1..64]) 100 90 []"
proof -
  have "hc_base (LZ4_resetStreamHC ctx level) = 0" by (simp add: LZ4_resetStreamHC_def)
  then show ?thesis
    using small_mem_buffers(1) [of 90] init_ok(2) reset_hc_wf
    by (auto simp: hc_ready_def reset_prepared hc_buffers_def hc_output_def compressBound_eq one_shot_buffers_def)
qed

theorem LZ4_compress_HC_continue_invariant_witness:
  "\<exists>m' ctx' r. LZ4_compress_HC_continue small_mem (LZ4_resetStreamHC blank_state 5) 1 100 64 90 = Some (m', ctx', r) \<and>
     hc_wf ctx' \<and> hc_end ctx' = 65 \<and> 0 < r"
  using LZ4_compress_HC_continue_invariant [OF small_mem_ready [of blank_state 5]] by (auto simp: compressBound_eq)



section \<open>Dictionaries\<close>

text \<open>
  C18: after \<open>LZ4_loadDictHC\<close> of a dictionary of any size, a block compressed with
  \<open>LZ4_compress_HC_continue\<close>, wherever it lies, is decompressed by \<open>LZ4_decompress_safe_usingDict\<close> with the same
  dictionary to the data that was compressed.
\<close>

theorem LZ4_loadDictHC_roundtrip:
  assumes dict: "bytes_at m start d" "int (length d) < 2 ^ 31"
    and src: "bytes_at m source src" "src \<noteq> []" "int (length src) \<le> LZ4_MAX_INPUT_SIZE"
    and buf: "mapped m buf (buf + n)" "LZ4_compressBound (int (length src)) \<le> n" "n < 2 ^ 31" "0 \<le> buf" "buf + n < 2 ^ 64"
    and out: "mapped m out (out + k)" "int (length src) \<le> k" "k < 2 ^ 31" "0 \<le> out" "out + k < 2 ^ 64"
    and apart: "source + int (length src) \<le> buf \<or> buf + n \<le> source" "start + int (length d) \<le> buf \<or> buf + n \<le> start"
      "buf + n \<le> out \<or> out + k \<le> buf" "start + int (length d) \<le> out \<or> out + k \<le> start"
      "source + int (length src) \<le> start \<or> start + int (length d) \<le> source"
  shows "\<exists>ctx size m1 ctx' r m2. LZ4_loadDictHC m ctx0 start (int (length d)) = Some (ctx, size) \<and>
    size = min (int (length d)) 65536 \<and>
    LZ4_compress_HC_continue m ctx source buf (int (length src)) n = Some (m1, ctx', r) \<and>
    LZ4_decompress_safe_usingDict m1 buf out r k start (int (length d)) = Some (m2, int (length src)) \<and>
    bytes_at m2 out src"
proof -
  define s where "s = min (int (length d)) 65536"
  have s: "0 \<le> s" "s \<le> 65536" "s \<le> int (length d)" by (auto simp: s_def)
  define a where "a = start + int (length d) - s"
  define d1 where "d1 = drop (length d - nat s) d"
  have d1: "d = take (length d - nat s) d @ d1" "int (length d1) = s" "bytes_at m a d1"
    using bytes_at_slice [OF dict(1), of "length d - nat s" "nat s"] s by (auto simp: d1_def a_def algebra_simps)
  have "mapped m a (a + s)" using bytes_at_mapped [OF d1(3)] d1(2) by simp
  from loadDictHC_spec [OF this s(1,2), of ctx0]
  obtain ctx where c: "LZ4_loadDictHC m ctx0 a s = Some (ctx, s)" "hc_ok ctx" "hc_base ctx = a - 65536" "hc_end ctx = a + s"
    "hc_lowLimit ctx = 65536" "hc_dictLimit ctx = 65536" by auto
  have load: "LZ4_loadDictHC m ctx0 start (int (length d)) = Some (ctx, s)"
    using c(1) loadDictHC_clip [of m ctx0 start "int (length d)"] by (simp add: a_def s_def algebra_simps)
  have hist: "hc_hist ctx m d1" using d1(2,3) c(3-6) by (simp add: hc_hist_prefix)
  have n: "0 < n" using buf(2) compressBound_eq [of "int (length src)"] src(3) by auto
  have fits: "hc_fits src" using src by (simp add: hc_fits_def)
  have "\<exists>xs hist. d1 = xs @ hist \<and> hc_ready m ctx source src buf n hist"
  proof (cases "hc_base ctx = 0 \<or> source = hc_end ctx")
    case True
    then have "hc_holds ctx m (if hc_base ctx = 0 then source else a) source (if hc_base ctx = 0 then [] else d1)"
      using c hist s(1) by (auto simp: hc_holds_def)
    moreover have "source + int (length src) \<le> buf \<or> buf + n \<le> (if hc_base ctx = 0 then source else a)"
      using True apart(1,2) n c(4) s by (auto simp: a_def)
    ultimately have "\<exists>xs hist. (if hc_base ctx = 0 then [] else d1) = xs @ hist \<and> hc_ready m ctx source src buf n hist"
      using hc_holds_ready [OF _ fits src(1) buf(1) _ buf(2,3)] by blast
    then show ?thesis by (cases "hc_base ctx = 0") auto
  next
    case False
    then show ?thesis
      using c hist fits src(1) buf(1-3) apart(1,2) s by (intro external_ready) (auto simp: a_def)
  qed
  then obtain xs hist where ready: "d1 = xs @ hist" "hc_ready m ctx source src buf n hist" by blast
  obtain ys where ys: "d = ys @ hist" using d1(1) ready(1) by (metis append.assoc)
  have out_n: "hc_output src n = n" using buf(2) by (simp add: hc_output_def)
  obtain m1 ctx' r where g: "LZ4_compress_HC_continue m ctx source buf (int (length src)) n = Some (m1, ctx', r)"
    "compressed_to m m1 buf (buf + n) hist src r"
    using HC_continue_spec [OF ready(2), unfolded out_n] buf(2) by auto
  from compressed_usingDict [OF g(2), of start ys out k] dict buf out apart ys
  have "decodes_to (LZ4_decompress_safe_usingDict m1 buf out r k start (int (length d))) m1 out k (int (length src)) src" by auto
  then show ?thesis using load g(1) s_def by (auto simp: decodes_to_def)
qed

theorem LZ4_loadDictHC_roundtrip_witness:
  "\<exists>ctx size m1 ctx' r m2. LZ4_loadDictHC small_mem blank_state 1 40 = Some (ctx, size) \<and>
     LZ4_compress_HC_continue small_mem ctx 41 100 24 90 = Some (m1, ctx', r) \<and>
     LZ4_decompress_safe_usingDict m1 100 300 r 30 1 40 = Some (m2, 24) \<and>
     bytes_at m2 300 (map (\<lambda>i. word_of_int (i * i)) [41..64])"
proof -
  have "bytes_at small_mem 1 (map (\<lambda>i. word_of_int (i * i)) ([1..40] @ [41..64]))"
    using small_mem_areas(1) upto_split2 [of 1 40 64] by simp
  then have "bytes_at small_mem 1 (map (\<lambda>i. word_of_int (i * i)) [1..40])"
    "bytes_at small_mem 41 (map (\<lambda>i. word_of_int (i * i)) [41..64])"
    unfolding map_append bytes_at_append by simp_all
  moreover have "mapped small_mem 100 190" "mapped small_mem 300 330"
    by (auto simp: small_mem_def mapped_def)
  moreover have "map (\<lambda>i. word_of_int (i * i)) [41..64] \<noteq> ([] :: byte list)" by (simp add: upto_rec_numeral)
  ultimately show ?thesis
    using LZ4_loadDictHC_roundtrip [of small_mem 1 "map (\<lambda>i. word_of_int (i * i)) [1..40]" 41
        "map (\<lambda>i. word_of_int (i * i)) [41..64]" 100 90 300 30 blank_state]
    by (auto simp: compressBound_eq)
qed

end
