(* ===== verification/NuDB_XXHash.thy ===== *)
theory NuDB_XXHash
  imports XXH64
begin

text \<open>
  The hash function of NuDB, \<^verbatim>\<open>nudb/include/nudb/detail/xxhash.hpp\<close>, a second implementation of the
  64-bit xxHash. Where it reads through a pointer to an integer type the address must be a multiple of
  the size of that type; a read that is not is undefined behaviour, \<open>None\<close>. An input is given by its
  address and its bytes.
\<close>

section \<open>Model\<close>

definition NUDB_XXH_rotl64 :: "u64 \<Rightarrow> nat \<Rightarrow> u64" where
  "NUDB_XXH_rotl64 x r = (push_bit r x OR drop_bit (64 - r) x)"

definition NUDB_XXH_swap32 :: "u32 \<Rightarrow> u32" where
  "NUDB_XXH_swap32 x =
     (push_bit 24 x AND 0xff000000) OR (push_bit 8 x AND 0x00ff0000) OR
     (drop_bit 8 x AND 0x0000ff00) OR (drop_bit 24 x AND 0x000000ff)"

definition NUDB_XXH_swap64 :: "u64 \<Rightarrow> u64" where
  "NUDB_XXH_swap64 x =
     (push_bit 56 x AND 0xff00000000000000) OR
     (push_bit 40 x AND 0x00ff000000000000) OR
     (push_bit 24 x AND 0x0000ff0000000000) OR
     (push_bit 8 x AND 0x000000ff00000000) OR
     (drop_bit 8 x AND 0x00000000ff000000) OR
     (drop_bit 24 x AND 0x0000000000ff0000) OR
     (drop_bit 40 x AND 0x000000000000ff00) OR
     (drop_bit 56 x AND 0x00000000000000ff)"

definition prime64_1 :: u64 where "prime64_1 = 11400714785074694791"
definition prime64_2 :: u64 where "prime64_2 = 14029467366897019727"
definition prime64_3 :: u64 where "prime64_3 = 1609587929392839161"
definition prime64_4 :: u64 where "prime64_4 = 9650029242287828579"
definition prime64_5 :: u64 where "prime64_5 = 2870177450012600261"

text \<open>The bytes of an integer, as the machine \<open>cpu\<close> reads them.\<close>

definition XXH_read32_nudb :: "XXH_endianess \<Rightarrow> byte list \<Rightarrow> u32" where
  "XXH_read32_nudb cpu p =
     (case cpu of XXH_littleEndian \<Rightarrow> word_of_le (take 4 p) | XXH_bigEndian \<Rightarrow> word_of_be (take 4 p))"

definition XXH_read64_nudb :: "XXH_endianess \<Rightarrow> byte list \<Rightarrow> u64" where
  "XXH_read64_nudb cpu p =
     (case cpu of XXH_littleEndian \<Rightarrow> word_of_le (take 8 p) | XXH_bigEndian \<Rightarrow> word_of_be (take 8 p))"

definition XXH_readLE32_align_nudb ::
  "XXH_endianess \<Rightarrow> u64 \<Rightarrow> byte list \<Rightarrow> bool \<Rightarrow> bool \<Rightarrow> u32 option" where
  "XXH_readLE32_align_nudb cpu ptr p little aligned =
     (if aligned \<and> ptr AND 3 \<noteq> 0 then None
      else Some (if little then XXH_read32_nudb cpu p else NUDB_XXH_swap32 (XXH_read32_nudb cpu p)))"

definition XXH_readLE64_align_nudb ::
  "XXH_endianess \<Rightarrow> u64 \<Rightarrow> byte list \<Rightarrow> bool \<Rightarrow> bool \<Rightarrow> u64 option" where
  "XXH_readLE64_align_nudb cpu ptr p little aligned =
     (if aligned \<and> ptr AND 7 \<noteq> 0 then None
      else Some (if little then XXH_read64_nudb cpu p else NUDB_XXH_swap64 (XXH_read64_nudb cpu p)))"

definition XXH64_round_nudb :: "u64 \<Rightarrow> u64 \<Rightarrow> u64" where
  "XXH64_round_nudb acc input =
     (let acc = acc + input * prime64_2;
          acc = NUDB_XXH_rotl64 acc 31
      in acc * prime64_1)"

definition XXH64_mergeRound_nudb :: "u64 \<Rightarrow> u64 \<Rightarrow> u64" where
  "XXH64_mergeRound_nudb acc val =
     (let val = XXH64_round_nudb 0 val;
          acc = acc XOR val
      in acc * prime64_1 + prime64_4)"

text \<open>The loops; \<open>get32\<close> and \<open>get64\<close> read at an address and its bytes.\<close>

function XXH64_stripes_nudb ::
  "(u64 \<Rightarrow> byte list \<Rightarrow> u64 option) \<Rightarrow> u64 \<Rightarrow> u64 \<Rightarrow> u64 \<Rightarrow> u64 \<Rightarrow> u64 \<Rightarrow> byte list \<Rightarrow>
   (u64 \<times> u64 \<times> u64 \<times> u64 \<times> u64 \<times> byte list) option" where
  "XXH64_stripes_nudb get64 v1 v2 v3 v4 ptr p =
     do { x1 \<leftarrow> get64 ptr p;
          x2 \<leftarrow> get64 (ptr + 8) (drop 8 p);
          x3 \<leftarrow> get64 (ptr + 16) (drop 16 p);
          x4 \<leftarrow> get64 (ptr + 24) (drop 24 p);
          let v1 = XXH64_round_nudb v1 x1; v2 = XXH64_round_nudb v2 x2;
              v3 = XXH64_round_nudb v3 x3; v4 = XXH64_round_nudb v4 x4;
              ptr = ptr + 32; p' = drop 32 p
          in if 32 \<le> length p' then XXH64_stripes_nudb get64 v1 v2 v3 v4 ptr p'
             else Some (v1, v2, v3, v4, ptr, p') }"
  by pat_completeness auto
termination
  by (relation "measure (\<lambda>(rd, a, b, c, d, ptr, p). length p)") auto

declare XXH64_stripes_nudb.simps [simp del]

function XXH64_words_nudb ::
  "(u64 \<Rightarrow> byte list \<Rightarrow> u64 option) \<Rightarrow> u64 \<Rightarrow> u64 \<Rightarrow> byte list \<Rightarrow> (u64 \<times> u64 \<times> byte list) option" where
  "XXH64_words_nudb get64 h64 ptr p =
     (if 8 \<le> length p
      then do { x \<leftarrow> get64 ptr p;
                let k1 = XXH64_round_nudb 0 x;
                    h64 = h64 XOR k1;
                    h64 = NUDB_XXH_rotl64 h64 27 * prime64_1 + prime64_4
                in XXH64_words_nudb get64 h64 (ptr + 8) (drop 8 p) }
      else Some (h64, ptr, p))"
  by pat_completeness auto
termination
  by (relation "measure (\<lambda>(rd, h, ptr, p). length p)") auto

declare XXH64_words_nudb.simps [simp del]

primrec XXH64_bytes_nudb :: "byte list \<Rightarrow> u64 \<Rightarrow> u64" where
  "XXH64_bytes_nudb [] h64 = h64"
| "XXH64_bytes_nudb (b # p) h64 =
     XXH64_bytes_nudb p (let h64 = h64 XOR ucast b * prime64_5 in NUDB_XXH_rotl64 h64 11 * prime64_1)"

definition XXH64_avalanche_nudb :: "u64 \<Rightarrow> u64" where
  "XXH64_avalanche_nudb h64 =
     (let h64 = h64 XOR drop_bit 33 h64;
          h64 = h64 * prime64_2;
          h64 = h64 XOR drop_bit 29 h64;
          h64 = h64 * prime64_3
      in h64 XOR drop_bit 32 h64)"

definition XXH64_endian_align_nudb ::
  "XXH_endianess \<Rightarrow> u64 \<Rightarrow> byte list \<Rightarrow> u64 \<Rightarrow> bool \<Rightarrow> bool \<Rightarrow> u64 option" where
  "XXH64_endian_align_nudb cpu ptr input seed little aligned =
     (let get32 = (\<lambda>ptr p. XXH_readLE32_align_nudb cpu ptr p little aligned);
          get64 = (\<lambda>ptr p. XXH_readLE64_align_nudb cpu ptr p little aligned);
          len = length input
      in do {
        (h64, ptr, p) \<leftarrow>
          (if len \<ge> 32
           then do {
             (v1, v2, v3, v4, ptr, p) \<leftarrow>
               XXH64_stripes_nudb get64 (seed + prime64_1 + prime64_2) (seed + prime64_2) (seed + 0) (seed - prime64_1)
                 ptr input;
             let h64 = NUDB_XXH_rotl64 v1 1 + NUDB_XXH_rotl64 v2 7 + NUDB_XXH_rotl64 v3 12 + NUDB_XXH_rotl64 v4 18;
                 h64 = XXH64_mergeRound_nudb h64 v1;
                 h64 = XXH64_mergeRound_nudb h64 v2;
                 h64 = XXH64_mergeRound_nudb h64 v3;
                 h64 = XXH64_mergeRound_nudb h64 v4
             in Some (h64, ptr, p) }
           else Some (seed + prime64_5, ptr, input));
        let h64 = h64 + of_nat len;
        (h64, ptr, p) \<leftarrow> XXH64_words_nudb get64 h64 ptr p;
        (h64, p) \<leftarrow>
          (if length p \<ge> 4
           then do { x \<leftarrow> get32 ptr p;
                     let h64 = h64 XOR ucast x * prime64_1;
                         h64 = NUDB_XXH_rotl64 h64 23 * prime64_2 + prime64_3
                     in Some (h64, drop 4 p) }
           else Some (h64, p));
        Some (XXH64_avalanche_nudb (XXH64_bytes_nudb p h64)) })"

definition XXH64_nudb :: "XXH_endianess \<Rightarrow> u64 \<Rightarrow> byte list \<Rightarrow> u64 \<Rightarrow> u64 option" where
  "XXH64_nudb cpu data bytes seed =
     (if data AND 7 = 0
      then XXH64_endian_align_nudb cpu data bytes seed (cpu = XXH_littleEndian) False
      else XXH64_endian_align_nudb cpu data bytes seed (cpu = XXH_littleEndian) True)"

text \<open>The hasher object: its seed, and the call.\<close>

record xxhasher =
  hasher_seed :: u64

definition xxhasher_call :: "XXH_endianess \<Rightarrow> xxhasher \<Rightarrow> u64 \<Rightarrow> byte list \<Rightarrow> u64 option" where
  "xxhasher_call cpu h data bytes = XXH64_nudb cpu data bytes (hasher_seed h)"

section \<open>The pieces agree with those of the other implementation\<close>

lemma nudb_constants:
  "prime64_1 = PRIME64_1" "prime64_2 = PRIME64_2" "prime64_3 = PRIME64_3" "prime64_4 = PRIME64_4" "prime64_5 = PRIME64_5"
  "NUDB_XXH_rotl64 = XXH_rotl64" "NUDB_XXH_swap32 = XXH_swap32" "NUDB_XXH_swap64 = XXH_swap64"
  "XXH_read32_nudb = XXH_read32" "XXH_read64_nudb = XXH_read64" "XXH64_round_nudb = XXH64_round"
  "XXH64_mergeRound_nudb = XXH64_mergeRound" "XXH64_avalanche_nudb = XXH64_avalanche"
proof -
  show p: "prime64_1 = PRIME64_1" "prime64_2 = PRIME64_2" "prime64_3 = PRIME64_3" "prime64_4 = PRIME64_4" "prime64_5 = PRIME64_5"
    by (simp_all add: prime64_1_def prime64_2_def prime64_3_def prime64_4_def prime64_5_def
        PRIME64_1_def PRIME64_2_def PRIME64_3_def PRIME64_4_def PRIME64_5_def)
  show r: "NUDB_XXH_rotl64 = XXH_rotl64" by (intro ext) (simp add: NUDB_XXH_rotl64_def XXH_rotl64_def)
  show "NUDB_XXH_swap32 = XXH_swap32" "NUDB_XXH_swap64 = XXH_swap64"
    by (intro ext, simp add: NUDB_XXH_swap32_def XXH_swap32_def NUDB_XXH_swap64_def XXH_swap64_def)+
  show "XXH_read32_nudb = XXH_read32" "XXH_read64_nudb = XXH_read64"
    by (intro ext, simp add: XXH_read32_nudb_def XXH_read32_def XXH_read64_nudb_def XXH_read64_def)+
  show "XXH64_round_nudb = XXH64_round" "XXH64_mergeRound_nudb = XXH64_mergeRound"
    by (intro ext, simp add: XXH64_round_nudb_def XXH64_round_def XXH64_mergeRound_nudb_def XXH64_mergeRound_def p r Let_def)+
  show "XXH64_avalanche_nudb = XXH64_avalanche"
    by (intro ext) (simp add: XXH64_avalanche_nudb_def XXH64_avalanche_def p Let_def)
qed

lemma bytes_nudb: "XXH64_bytes_nudb p h = XXH64_tail1 p h"
  by (induction p arbitrary: h) (simp_all add: nudb_constants)

text \<open>A reader that is defined everywhere and reads like the machine.\<close>

lemma stripes_nudb:
  assumes "\<And>a q. get64 a q = Some (rd q)"
  shows "\<exists>a. XXH64_stripes_nudb get64 v1 v2 v3 v4 ptr p =
    (let ((w1, w2, w3, w4), q) = XXH64_loop rd (v1, v2, v3, v4) p in Some (w1, w2, w3, w4, a, q))"
proof (induction "length p" arbitrary: p v1 v2 v3 v4 ptr rule: less_induct)
  case less
  show ?case
  proof (cases "32 \<le> length (drop 32 p)")
    case True
    then have "length (drop 32 p) < length p" by simp
    from less.hyps [OF this] True show ?thesis
      by (subst XXH64_stripes_nudb.simps, subst XXH64_loop.simps)
        (simp add: assms XXH64_stripe_def nudb_constants del: length_drop)
  next
    case False
    then show ?thesis
      by (subst XXH64_stripes_nudb.simps, subst XXH64_loop.simps)
        (simp add: assms XXH64_stripe_def nudb_constants del: length_drop)
  qed
qed

lemma words_nudb:
  assumes "\<And>a q. get64 a q = Some (rd q)"
  shows "\<exists>a. XXH64_words_nudb get64 h ptr p = (let (h, q) = XXH64_tail8 rd h p in Some (h, a, q))"
proof (induction "length p" arbitrary: p h ptr rule: less_induct)
  case less
  show ?case
  proof (cases "8 \<le> length p")
    case True
    then have "length (drop 8 p) < length p" by simp
    from less.hyps [OF this] True show ?thesis
      by (subst XXH64_words_nudb.simps, subst XXH64_tail8.simps)
        (simp add: assms XXH64_round_def nudb_constants Let_def del: length_drop)
  next
    case False
    then show ?thesis by (subst XXH64_words_nudb.simps, subst XXH64_tail8.simps) simp
  qed
qed

lemma endian_align_nudb:
  "XXH64_endian_align_nudb cpu ptr input seed (cpu = XXH_littleEndian) False =
     Some (XXH64_endian_align cpu input seed cpu XXH_unaligned)"
proof -
  let ?rd = "\<lambda>p. XXH_readLE64_align cpu p cpu XXH_unaligned"
  have get64: "XXH_readLE64_align_nudb cpu a q (cpu = XXH_littleEndian) False = Some (?rd q)" for a q
    by (simp add: XXH_readLE64_align_nudb_def XXH_readLE64_align_def nudb_constants)
  have get32: "XXH_readLE32_align_nudb cpu a q (cpu = XXH_littleEndian) False = Some (XXH_readLE32_align cpu q cpu XXH_unaligned)" for a q
    by (simp add: XXH_readLE32_align_nudb_def XXH_readLE32_align_def nudb_constants)
  note words = words_nudb [of "\<lambda>ptr p. XXH_readLE64_align_nudb cpu ptr p (cpu = XXH_littleEndian) False", OF get64]
  obtain w1 w2 w3 w4 q where l: "XXH64_loop ?rd (XXH64_seed_lanes seed) input = ((w1, w2, w3, w4), q)"
    by (metis prod.exhaust)
  obtain a where st: "XXH64_stripes_nudb (\<lambda>ptr p. XXH_readLE64_align_nudb cpu ptr p (cpu = XXH_littleEndian) False)
      (seed + PRIME64_1 + PRIME64_2) (seed + PRIME64_2) (seed + 0) (seed - PRIME64_1) ptr input = Some (w1, w2, w3, w4, a, q)"
    using stripes_nudb [of "\<lambda>ptr p. XXH_readLE64_align_nudb cpu ptr p (cpu = XXH_littleEndian) False", OF get64] l
    unfolding XXH64_seed_lanes_def by (metis (no_types, lifting) case_prod_conv)
  define h0 p0 a0 where "h0 = (if 32 \<le> length input then XXH64_merge (w1, w2, w3, w4) else seed + PRIME64_5)"
    and "p0 = (if 32 \<le> length input then q else input)" and "a0 = (if 32 \<le> length input then a else ptr)"
  obtain h1 p1 where t8: "XXH64_tail8 ?rd (h0 + of_nat (length input)) p0 = (h1, p1)" by (metis prod.exhaust)
  obtain a1 where w: "XXH64_words_nudb (\<lambda>ptr p. XXH_readLE64_align_nudb cpu ptr p (cpu = XXH_littleEndian) False)
      (h0 + of_nat (length input)) a0 p0 = Some (h1, a1, p1)"
    using words [of "h0 + of_nat (length input)" a0 p0] t8 by auto
  show ?thesis
    unfolding XXH64_endian_align_nudb_def XXH64_endian_align_def Let_def nudb_constants bytes_nudb
    using l st w t8
    by (cases "32 \<le> length input")
      (simp_all add: h0_def p0_def a0_def get32 XXH64_merge_def Let_def XXH64_tail4_def)
qed

section \<open>The hash function\<close>

text \<open>The pointer is dereferenced before the first eight bytes are absorbed.\<close>

lemma misaligned_stripes:
  assumes "ptr AND 7 \<noteq> 0"
  shows "XXH64_stripes_nudb (\<lambda>ptr p. XXH_readLE64_align_nudb cpu ptr p little True) v1 v2 v3 v4 ptr p = None"
  using assms by (subst XXH64_stripes_nudb.simps) (simp add: XXH_readLE64_align_nudb_def)

lemma misaligned_words:
  assumes "ptr AND 7 \<noteq> 0" "8 \<le> length p"
  shows "XXH64_words_nudb (\<lambda>ptr p. XXH_readLE64_align_nudb cpu ptr p little True) h ptr p = None"
  using assms by (subst XXH64_words_nudb.simps) (simp add: XXH_readLE64_align_nudb_def)

text \<open>
  C35: On data at an address that is a multiple of eight the hash function of NuDB returns the hash that
  the 64-bit xxHash of LZ4 returns for the same bytes, for all data, seeds and machines.
\<close>

theorem XXH64_nudb_agrees:
  assumes "data AND 7 = 0"
  shows "xxhasher_call cpu \<lparr>hasher_seed = seed\<rparr> data bytes = Some (XXH64 cpu' ptr bytes seed)"
  using assms by (simp add: xxhasher_call_def XXH64_nudb_def endian_align_nudb XXH64_endian_align_spec XXH64_eq_spec)

theorem XXH64_nudb_agrees_witness:
  "(0x1000 :: u64) AND 7 = 0 \<and>
   xxhasher_call XXH_littleEndian \<lparr>hasher_seed = 7\<rparr> 0x1000 [1, 2, 3] = Some (XXH64 XXH_bigEndian 0x2001 [1, 2, 3] 7)"
  using XXH64_nudb_agrees [of "0x1000" XXH_littleEndian 7 "[1, 2, 3]" XXH_bigEndian "0x2001"] by simp

text \<open>
  C36: On data of eight bytes or more at any other address the hash function of NuDB reads a 64-bit integer
  through a pointer that is not a multiple of eight, which is undefined: the choice between the aligned and
  the unaligned reads is made the wrong way round.
\<close>

theorem XXH64_nudb_misaligned:
  assumes "data AND 7 \<noteq> 0" "8 \<le> length bytes"
  shows "XXH64_nudb cpu data bytes seed = None"
  using assms by (simp add: XXH64_nudb_def XXH64_endian_align_nudb_def misaligned_stripes misaligned_words Let_def)

theorem XXH64_nudb_misaligned_witness:
  "(0x1001 :: u64) AND 7 \<noteq> 0 \<and> XXH64_nudb XXH_littleEndian 0x1001 (replicate 8 0) 0 = None"
  using XXH64_nudb_misaligned [of "0x1001" "replicate 8 0" XXH_littleEndian 0] by simp

end
