(* ===== verification/NuDB_Field.thy ===== *)
theory NuDB_Field
  imports Verif_Prelude
begin

text \<open>
  The binary fields of the key/value store NuDB, from \<^verbatim>\<open>nudb/include/nudb/detail\<close>: the byte streams of
  \<^verbatim>\<open>stream.hpp\<close> and the big-endian integers of \<^verbatim>\<open>field.hpp\<close>. \<open>None\<close> is an exception, an access
  outside a buffer or another undefined behaviour. A round trip law for every field type.
\<close>

section \<open>Streams\<close>

text \<open>\<open>istream\<close>: the bytes not yet read.\<close>

type_synonym istream = "byte list"

definition istream_data :: "nat \<Rightarrow> istream \<Rightarrow> (byte list \<times> istream) option" where
  "istream_data bytes inp = (if length inp < bytes then None else Some (take bytes inp, drop bytes inp))"

text \<open>\<open>ostream\<close>: the memory it was created on and the number of bytes written. It does not know its size.\<close>

type_synonym ostream = "byte list \<times> nat"

definition ostream_put :: "byte list \<Rightarrow> ostream \<Rightarrow> ostream option" where
  "ostream_put bs os =
     (case os of (buf, written) \<Rightarrow>
        if written + length bs \<le> length buf then Some (overwrite buf written bs, written + length bs) else None)"

definition read_blob :: "nat \<Rightarrow> istream \<Rightarrow> (byte list \<times> istream) option" where
  "read_blob bytes inp = istream_data bytes inp"

definition write_blob :: "byte list \<Rightarrow> ostream \<Rightarrow> ostream option" where
  "write_blob bs os = ostream_put bs os"

section \<open>Fields\<close>

datatype field_t = f_uint8 | f_uint16 | f_uint24 | f_uint32 | f_uint48 | f_uint64

fun field_size :: "field_t \<Rightarrow> nat" where
  "field_size f_uint8 = 1"
| "field_size f_uint16 = 2"
| "field_size f_uint24 = 3"
| "field_size f_uint32 = 4"
| "field_size f_uint48 = 6"
| "field_size f_uint64 = 8"

fun field_max :: "field_t \<Rightarrow> u64" where
  "field_max f_uint8 = 0xff"
| "field_max f_uint16 = 0xffff"
| "field_max f_uint24 = 0xffffff"
| "field_max f_uint32 = 0xffffffff"
| "field_max f_uint48 = 0x0000ffffffffffff"
| "field_max f_uint64 = 0xffffffffffffffff"

definition readp_uint8 :: "byte list \<Rightarrow> u64 option" where
  "readp_uint8 p = (case p of a # _ \<Rightarrow> Some (ucast a) | _ \<Rightarrow> None)"

definition readp_uint16 :: "byte list \<Rightarrow> u64 option" where
  "readp_uint16 p =
     (case p of a # b # _ \<Rightarrow>
        (let t = push_bit 8 (ucast a :: u16);
             t = ucast b OR t
         in Some (ucast t))
      | _ \<Rightarrow> None)"

definition readp_uint24 :: "byte list \<Rightarrow> u64 option" where
  "readp_uint24 p =
     (case p of a # b # c # _ \<Rightarrow>
        (let t = push_bit 16 (ucast a :: u32);
             t = push_bit 8 (ucast b) OR t;
             t = ucast c OR t
         in Some (ucast t))
      | _ \<Rightarrow> None)"

definition readp_uint32 :: "byte list \<Rightarrow> u64 option" where
  "readp_uint32 p =
     (case p of a # b # c # d # _ \<Rightarrow>
        (let t = push_bit 24 (ucast a :: u32);
             t = push_bit 16 (ucast b) OR t;
             t = push_bit 8 (ucast c) OR t;
             t = ucast d OR t
         in Some (ucast t))
      | _ \<Rightarrow> None)"

definition readp_uint48 :: "byte list \<Rightarrow> u64 option" where
  "readp_uint48 p =
     (case p of a # b # c # d # e # f # _ \<Rightarrow>
        (let t = push_bit 40 (ucast a :: u64);
             t = push_bit 32 (ucast b) OR t;
             t = push_bit 24 (ucast c) OR t;
             t = push_bit 16 (ucast d) OR t;
             t = push_bit 8 (ucast e) OR t;
             t = ucast f OR t
         in Some t)
      | _ \<Rightarrow> None)"

definition readp_uint64 :: "byte list \<Rightarrow> u64 option" where
  "readp_uint64 p =
     (case p of a # b # c # d # e # f # g # h # _ \<Rightarrow>
        (let t = push_bit 56 (ucast a :: u64);
             t = push_bit 48 (ucast b) OR t;
             t = push_bit 40 (ucast c) OR t;
             t = push_bit 32 (ucast d) OR t;
             t = push_bit 24 (ucast e) OR t;
             t = push_bit 16 (ucast f) OR t;
             t = push_bit 8 (ucast g) OR t;
             t = ucast h OR t
         in Some t)
      | _ \<Rightarrow> None)"

fun readp :: "field_t \<Rightarrow> byte list \<Rightarrow> u64 option" where
  "readp f_uint8 p = readp_uint8 p"
| "readp f_uint16 p = readp_uint16 p"
| "readp f_uint24 p = readp_uint24 p"
| "readp f_uint32 p = readp_uint32 p"
| "readp f_uint48 p = readp_uint48 p"
| "readp f_uint64 p = readp_uint64 p"

definition read_field :: "field_t \<Rightarrow> istream \<Rightarrow> (u64 \<times> istream) option" where
  "read_field T inp = do { (p, inp) \<leftarrow> istream_data (field_size T) inp; u \<leftarrow> readp T p; Some (u, inp) }"

definition read_size48 :: "istream \<Rightarrow> (u64 \<times> istream) option" where
  "read_size48 inp = do { (v, inp) \<leftarrow> read_field f_uint48 inp; Some (ucast (ucast v :: u32), inp) }"

definition write_uint8 :: "u64 \<Rightarrow> byte list" where
  "write_uint8 u = [ucast u]"

definition write_uint16 :: "u64 \<Rightarrow> byte list" where
  "write_uint16 u = (let t = ucast u :: u16 in [ucast (drop_bit 8 t AND 0xff), ucast (t AND 0xff)])"

definition write_uint24 :: "u64 \<Rightarrow> byte list" where
  "write_uint24 u =
     (let t = ucast u :: u32
      in [ucast (drop_bit 16 t AND 0xff), ucast (drop_bit 8 t AND 0xff), ucast (t AND 0xff)])"

definition write_uint32 :: "u64 \<Rightarrow> byte list" where
  "write_uint32 u =
     (let t = ucast u :: u32
      in [ucast (drop_bit 24 t AND 0xff), ucast (drop_bit 16 t AND 0xff), ucast (drop_bit 8 t AND 0xff),
          ucast (t AND 0xff)])"

definition write_uint48 :: "u64 \<Rightarrow> byte list" where
  "write_uint48 t =
     [ucast (drop_bit 40 t AND 0xff), ucast (drop_bit 32 t AND 0xff), ucast (drop_bit 24 t AND 0xff),
      ucast (drop_bit 16 t AND 0xff), ucast (drop_bit 8 t AND 0xff), ucast (t AND 0xff)]"

definition write_uint64 :: "u64 \<Rightarrow> byte list" where
  "write_uint64 t =
     [ucast (drop_bit 56 t AND 0xff), ucast (drop_bit 48 t AND 0xff), ucast (drop_bit 40 t AND 0xff),
      ucast (drop_bit 32 t AND 0xff), ucast (drop_bit 24 t AND 0xff), ucast (drop_bit 16 t AND 0xff),
      ucast (drop_bit 8 t AND 0xff), ucast (t AND 0xff)]"

fun field_bytes :: "field_t \<Rightarrow> u64 \<Rightarrow> byte list" where
  "field_bytes f_uint8 u = write_uint8 u"
| "field_bytes f_uint16 u = write_uint16 u"
| "field_bytes f_uint24 u = write_uint24 u"
| "field_bytes f_uint32 u = write_uint32 u"
| "field_bytes f_uint48 u = write_uint48 u"
| "field_bytes f_uint64 u = write_uint64 u"

definition write_field :: "field_t \<Rightarrow> u64 \<Rightarrow> ostream \<Rightarrow> ostream option" where
  "write_field T u os = ostream_put (field_bytes T u) os"

section \<open>Laws of fields\<close>

named_theorems nudb_simps

lemma length_field_bytes [simp]: "length (field_bytes T u) = field_size T"
  by (cases T) (simp_all add: write_uint8_def write_uint16_def write_uint24_def write_uint32_def write_uint48_def write_uint64_def Let_def)

lemma byte_mask [simp]:
  assumes "8 \<le> LENGTH('a)"
  shows "ucast (x AND 0xff :: 'a::len word) = (ucast x :: byte)"
proof (rule bit_word_eqI)
  fix i assume "i < LENGTH(8)"
  moreover have "bit (0xff :: 'a word) i \<longleftrightarrow> i < 8"
    using assms \<open>i < LENGTH(8)\<close> bit_mask_iff [where 'a = "'a word", of 8 i] by (simp add: mask_eq_exp_minus_1)
  ultimately show "bit (ucast (x AND 0xff :: 'a word) :: byte) i = bit (ucast x :: byte) i"
    by (simp add: bit_simps)
qed

lemma field_max_eq: "field_max T = mask (8 * field_size T)"
  by (cases T) (simp_all add: mask_eq_exp_minus_1)

text \<open>Putting a word together from its bytes.\<close>

lemma take_bit_join:
  fixes x :: "'a::len word"
  shows "take_bit k x OR push_bit k (take_bit 8 (drop_bit k x)) = take_bit (k + 8) x"
    "take_bit k x OR (push_bit k (take_bit 8 (drop_bit k x)) OR y) = take_bit (k + 8) x OR y"
proof -
  show "take_bit k x OR push_bit k (take_bit 8 (drop_bit k x)) = take_bit (k + 8) x"
    by (rule bit_word_eqI) (auto simp: bit_simps)
  then show "take_bit k x OR (push_bit k (take_bit 8 (drop_bit k x)) OR y) = take_bit (k + 8) x OR y"
    by (simp flip: or.assoc)
qed

lemma ucast_byte: "ucast (ucast (x :: 'a::len word) :: byte) = (take_bit 8 x)"
  by (rule bit_word_eqI) (auto simp: bit_simps)

lemmas take_bit_joins = ucast_byte
  take_bit_join [of 8, simplified] take_bit_join [of 16, simplified] take_bit_join [of 24, simplified]
  take_bit_join [of 32, simplified] take_bit_join [of 40, simplified] take_bit_join [of 48, simplified]
  take_bit_join [of 56, simplified]

lemma ucast_take_bit: "n \<le> LENGTH('b) \<Longrightarrow> ucast (take_bit n (ucast u :: 'b::len word)) = (take_bit n u :: u64)"
  by (rule bit_word_eqI) (auto simp: bit_simps)

lemmas write_defs = write_uint8_def write_uint16_def write_uint24_def write_uint32_def write_uint48_def write_uint64_def
lemmas readp_defs = readp_uint8_def readp_uint16_def readp_uint24_def readp_uint32_def readp_uint48_def readp_uint64_def

lemma readp_bytes: "readp T (field_bytes T u @ rest) = Some (take_bit (8 * field_size T) u)"
  by (cases T) (simp_all add: readp_defs write_defs Let_def take_bit_joins ucast_take_bit)

declare field_bytes.simps [simp del]

lemma take_bit_field_max: "u \<le> field_max T \<Longrightarrow> take_bit (8 * field_size T) u = u"
proof -
  assume "u \<le> field_max T"
  then have "unat u < 2 ^ (8 * field_size T)"
    using unsigned_less [of u] by (cases T) (auto simp: word_le_nat_alt)
  then have "unat (take_bit (8 * field_size T) u) = unat u"
    by (simp add: unsigned_take_bit_eq take_bit_nat_eq_self)
  then show ?thesis by (simp only: word_unat_eq_iff)
qed


lemma read_field_bytes [nudb_simps]:
  "u \<le> field_max T \<Longrightarrow> read_field T (field_bytes T u @ rest) = Some (u, rest)"
  using readp_bytes [of T u "[]"] by (simp add: read_field_def istream_data_def take_bit_field_max)

lemma read_blob_bytes [nudb_simps]: "length bs = n \<Longrightarrow> read_blob n (bs @ rest) = Some (bs, rest)"
  by (simp add: read_blob_def istream_data_def)

text \<open>What a stream has written so far.\<close>

definition os_written :: "byte list \<Rightarrow> byte list \<Rightarrow> ostream" where
  "os_written buf bs = (bs @ drop (length bs) buf, length bs)"

lemma os_init: "(buf, 0) = os_written buf []"
  by (simp add: os_written_def)

lemma put_written [nudb_simps]:
  "length bs + length cs \<le> length buf \<Longrightarrow> ostream_put cs (os_written buf bs) = Some (os_written buf (bs @ cs))"
  by (simp add: ostream_put_def os_written_def overwrite_def add.commute)

end
