(* ===== verification/NuDB_File.thy ===== *)
theory NuDB_File
  imports Verif_Prelude
begin

text \<open>
  The files of NuDB: the error codes of \<^verbatim>\<open>nudb/include/nudb/error.hpp\<close> and the file class of
  \<^verbatim>\<open>nudb/include/nudb/impl/posix_file.ipp\<close>. The system calls are parameters: a call gets its number, so
  that it may be interrupted, fail or transfer only a part of the bytes whenever it likes. What the rest
  of the library relies on is \<open>file_read\<close> and \<open>file_write\<close> on the contents of a file; the loops
  of the class implement them.
\<close>

section \<open>Error codes\<close>

datatype nudb_error =
    success | key_not_found | key_exists | short_read | log_file_exists | no_key_file | too_many_buckets
  | not_data_file | not_key_file | not_log_file | different_version | invalid_key_size | invalid_block_size
  | short_key_file | short_bucket | short_spill | short_data_record | short_value | hash_mismatch
  | invalid_load_factor | invalid_capacity | invalid_bucket_count | invalid_bucket_size
  | incomplete_data_file_header | incomplete_key_file_header | invalid_log_record | invalid_log_spill
  | invalid_log_offset | invalid_log_index | invalid_spill_size | uid_mismatch | appnum_mismatch
  | key_size_mismatch | salt_mismatch | pepper_mismatch | block_size_mismatch | orphaned_value
  | missing_value | size_mismatch | duplicate_value

datatype error_code = Nudb nudb_error | System int

section \<open>The contents of a file\<close>

type_synonym nfile = "byte list"

definition file_read :: "nfile \<Rightarrow> nat \<Rightarrow> nat \<Rightarrow> error_code + byte list" where
  "file_read f offset bytes =
     (if bytes = 0 \<or> offset + bytes \<le> length f then Inr (take bytes (drop offset f)) else Inl (Nudb short_read))"

definition file_write :: "nfile \<Rightarrow> nat \<Rightarrow> byte list \<Rightarrow> nfile" where
  "file_write f offset bs =
     (if bs = [] then f
      else take offset f @ replicate (offset - length f) 0 @ bs @ drop (offset + length bs) f)"

section \<open>Laws of the contents of a file\<close>

lemma length_file_write:
  "length (file_write f offset bs) = (if bs = [] then length f else max (length f) (offset + length bs))"
  by (auto simp: file_write_def)

lemma file_write_append_end: "file_write f (length f) bs = f @ bs"
  by (simp add: file_write_def)

lemma file_write_region:
  assumes "i + n \<le> length bs"
  shows "take n (drop (offset + i) (file_write f offset bs)) = take n (drop i bs)"
proof (cases "bs = []")
  case False
  have "drop (offset + i) (take offset f @ replicate (offset - length f) 0 @ bs @ drop (offset + length bs) f) =
      drop i (bs @ drop (offset + length bs) f)"
    by (cases "offset \<le> length f") (simp_all add: min_def)
  then show ?thesis using assms False by (simp add: file_write_def)
qed (use assms in simp)

lemma file_read_write:
  assumes "i + n \<le> length bs"
  shows "file_read (file_write f offset bs) (offset + i) n = Inr (take n (drop i bs))"
  using assms file_write_region [OF assms, of offset f] length_file_write [of f offset bs] by (auto simp: file_read_def)

lemma file_read_length: "file_read f offset n = Inr bs \<Longrightarrow> length bs = n"
  by (auto simp: file_read_def split: if_splits)

lemma file_read_append:
  assumes "offset + n \<le> length f"
  shows "file_read (f @ g) offset n = file_read f offset n"
  using assms by (simp add: file_read_def)

section \<open>The file class\<close>

definition EINTR :: int where "EINTR = 4"
definition SSIZE_MAX :: nat where "SSIZE_MAX = 2 ^ 63 - 1"

type_synonym pread = "nat \<Rightarrow> nfile \<Rightarrow> nat \<Rightarrow> nat \<Rightarrow> int + byte list"
type_synonym pwrite = "nat \<Rightarrow> nfile \<Rightarrow> nat \<Rightarrow> byte list \<Rightarrow> int + (nat \<times> nfile)"

partial_function (option) posix_file_read ::
  "pread \<Rightarrow> nat \<Rightarrow> nfile \<Rightarrow> nat \<Rightarrow> nat \<Rightarrow> byte list \<Rightarrow> (error_code + byte list) option" where
  "posix_file_read pread k f offset bytes buffer =
     (if bytes > 0
      then let amount = min bytes SSIZE_MAX
           in (case pread k f offset amount of
                 Inl ev \<Rightarrow>
                   if ev = EINTR then posix_file_read pread (k + 1) f offset bytes buffer
                   else Some (Inl (System ev))
               | Inr bs \<Rightarrow>
                   if length bs = 0 then Some (Inl (Nudb short_read))
                   else posix_file_read pread (k + 1) f (offset + length bs) (bytes - length bs) (buffer @ bs))
      else Some (Inr buffer))"

partial_function (option) posix_file_write ::
  "pwrite \<Rightarrow> nat \<Rightarrow> nfile \<Rightarrow> nat \<Rightarrow> byte list \<Rightarrow> (error_code option \<times> nfile) option" where
  "posix_file_write pwrite k f offset buffer =
     (if length buffer > 0
      then let amount = min (length buffer) SSIZE_MAX
           in (case pwrite k f offset (take amount buffer) of
                 Inl ev \<Rightarrow>
                   if ev = EINTR then posix_file_write pwrite (k + 1) f offset buffer
                   else Some (Some (System ev), f)
               | Inr (n, f) \<Rightarrow> posix_file_write pwrite (k + 1) f (offset + n) (drop n buffer))
      else Some (None, f))"

section \<open>The system calls\<close>

text \<open>
  What POSIX says of \<^verbatim>\<open>pread\<close> on a regular file: an error, or a part of the bytes asked for, which is empty
  only at the end of the file; and of \<^verbatim>\<open>pwrite\<close>: an error, or a part of the bytes is stored.
\<close>

definition pread_ok :: "pread \<Rightarrow> bool" where
  "pread_ok pread \<longleftrightarrow>
     (\<forall>k f offset n bs. pread k f offset n = Inr bs \<longrightarrow>
        bs = take (length bs) (take n (drop offset f)) \<and> (bs = [] \<longrightarrow> n = 0 \<or> length f \<le> offset))"

definition pwrite_ok :: "pwrite \<Rightarrow> bool" where
  "pwrite_ok pwrite \<longleftrightarrow>
     (\<forall>k f offset bs n f'. pwrite k f offset bs = Inr (n, f') \<longrightarrow>
        n \<le> length bs \<and> (n = 0 \<longrightarrow> bs = []) \<and> f' = file_write f offset (take n bs))"

text \<open>The only errors are interruptions, and they are not repeated for ever.\<close>

definition interrupts_only :: "(nat \<Rightarrow> 'a \<Rightarrow> nat \<Rightarrow> 'b \<Rightarrow> int + 'c) \<Rightarrow> bool" where
  "interrupts_only call \<longleftrightarrow>
     (\<forall>k f offset x e. call k f offset x = Inl e \<longrightarrow> e = EINTR) \<and>
     (\<forall>k. \<exists>j\<ge>k. \<forall>f offset x e. call j f offset x \<noteq> Inl e)"

lemma interrupts_onlyE:
  assumes "interrupts_only call"
  obtains j where "k \<le> j" "\<And>i. k \<le> i \<Longrightarrow> i < j \<Longrightarrow> call i f offset x = Inl EINTR"
    "\<And>e. call j f offset x \<noteq> Inl e"
proof -
  let ?P = "\<lambda>j. k \<le> j \<and> (\<forall>e. call j f offset x \<noteq> Inl e)"
  have ex: "\<exists>j. ?P j" using assms unfolding interrupts_only_def by blast
  have "?P (LEAST j. ?P j)" using ex by (rule LeastI_ex)
  moreover have "call i f offset x = Inl EINTR" if "k \<le> i" "i < (LEAST j. ?P j)" for i
    using not_less_Least [OF that(2)] that(1) assms unfolding interrupts_only_def by blast
  ultimately show thesis using that by blast
qed

lemma read_retry:
  assumes "k \<le> j" "\<And>i. k \<le> i \<Longrightarrow> i < j \<Longrightarrow> pread i f offset (min bytes SSIZE_MAX) = Inl EINTR" "0 < bytes"
  shows "posix_file_read pread k f offset bytes buffer = posix_file_read pread j f offset bytes buffer"
  using assms by (induction rule: inc_induct) (simp, subst posix_file_read.simps, simp add: Let_def)

lemma write_retry:
  assumes "k \<le> j" "\<And>i. k \<le> i \<Longrightarrow> i < j \<Longrightarrow> pwrite i f offset (take (min (length bs) SSIZE_MAX) bs) = Inl EINTR" "bs \<noteq> []"
  shows "posix_file_write pwrite k f offset bs = posix_file_write pwrite j f offset bs"
  using assms by (induction rule: inc_induct) (simp, subst posix_file_write.simps, simp add: Let_def)

lemma file_read_step:
  assumes "bs = take (length bs) (drop offset f)" "length bs \<le> n" "offset + length bs \<le> length f"
  shows "file_read f offset n = map_sum id ((@) bs) (file_read f (offset + length bs) (n - length bs))"
proof -
  have "take n (drop offset f) = bs @ take (n - length bs) (drop (offset + length bs) f)"
    using assms(1,2) take_add [of "length bs" "n - length bs" "drop offset f"] by (simp add: add.commute)
  then show ?thesis using assms(2,3) by (auto simp: file_read_def)
qed

lemma file_write_append:
  assumes "bs \<noteq> []"
  shows "file_write (file_write f offset bs) (offset + length bs) cs = file_write f offset (bs @ cs)"
  using assms by (cases "offset \<le> length f") (simp_all add: file_write_def ac_simps)

lemma read_loop:
  assumes ok: "pread_ok pread" "interrupts_only pread"
  shows "posix_file_read pread k f offset bytes buffer = Some (map_sum id ((@) buffer) (file_read f offset bytes))"
proof (induction bytes arbitrary: k offset buffer rule: less_induct)
  case (less bytes)
  show ?case
  proof (cases "bytes = 0")
    case True
    then show ?thesis by (subst posix_file_read.simps) (simp add: file_read_def)
  next
    case False
    obtain j where j: "k \<le> j" "\<And>i. k \<le> i \<Longrightarrow> i < j \<Longrightarrow> pread i f offset (min bytes SSIZE_MAX) = Inl EINTR"
      "\<And>e. pread j f offset (min bytes SSIZE_MAX) \<noteq> Inl e" using interrupts_onlyE [OF ok(2)] by metis
    then obtain bs where bs: "pread j f offset (min bytes SSIZE_MAX) = Inr bs" by (metis sum.exhaust)
    then have pre: "bs = take (length bs) (take (min bytes SSIZE_MAX) (drop offset f))"
      and e: "bs = [] \<Longrightarrow> length f \<le> offset" using ok(1) False unfolding pread_ok_def by (fastforce simp: SSIZE_MAX_def)+
    have len: "length bs \<le> min bytes (length f - offset)" "length bs \<le> min bytes SSIZE_MAX" using arg_cong [OF pre, of length] unfolding length_take length_drop by linarith+
    have pre': "bs = take (length bs) (drop offset f)" by (rule trans [OF pre]) (simp only: take_take min.absorb1 len(2))
    have "posix_file_read pread j f offset bytes buffer = Some (map_sum id ((@) buffer) (file_read f offset bytes))"
    proof (cases "bs = []")
      case True
      with e False have "file_read f offset bytes = Inl (Nudb short_read)" by (simp add: file_read_def)
      with bs False True show ?thesis by (subst posix_file_read.simps) (simp add: Let_def)
    next
      case nonempty: False
      with len(1) have "bytes - length bs < bytes" "length bs \<le> bytes" "offset + length bs \<le> length f"
        by (cases bs; simp; linarith)+
      with less.IH file_read_step [OF pre'] bs False nonempty show ?thesis
        by (subst posix_file_read.simps) (simp add: Let_def sum.map_comp o_def id_def)
    qed
    then show ?thesis using read_retry [of k j pread f offset bytes] j(1,2) False by (simp add: id_def)
  qed
qed

lemma write_loop:
  assumes ok: "pwrite_ok pwrite" "interrupts_only pwrite"
  shows "posix_file_write pwrite k f offset bs = Some (None, file_write f offset bs)"
proof (induction "length bs" arbitrary: k f offset bs rule: less_induct)
  case less
  show ?case
  proof (cases "bs = []")
    case True
    then show ?thesis by (subst posix_file_write.simps) (simp add: file_write_def)
  next
    case False
    let ?bs = "take (min (length bs) SSIZE_MAX) bs"
    obtain j where j: "k \<le> j" "\<And>i. k \<le> i \<Longrightarrow> i < j \<Longrightarrow> pwrite i f offset ?bs = Inl EINTR"
      "\<And>e. pwrite j f offset ?bs \<noteq> Inl e" using interrupts_onlyE [OF ok(2)] by metis
    then obtain n f' where n: "pwrite j f offset ?bs = Inr (n, f')" by (metis sum.exhaust prod.exhaust)
    have n': "n \<le> length ?bs \<and> (n = 0 \<longrightarrow> ?bs = []) \<and> f' = file_write f offset (take n ?bs)"
      using ok(1) n unfolding pwrite_ok_def by blast
    moreover have "?bs \<noteq> []" using False by (simp add: SSIZE_MAX_def)
    ultimately have n': "n \<le> length ?bs" "0 < n" "f' = file_write f offset (take n ?bs)" by blast+
    then have t: "take n ?bs = take n bs" "n \<le> length bs" "take n bs \<noteq> []" using False by (auto simp: min.absorb1)
    have "length (drop n bs) < length bs" using n'(2) t(2) by simp
    from less [OF this] have "posix_file_write pwrite j f offset bs = Some (None, file_write f' (offset + n) (drop n bs))"
      using n False by (subst posix_file_write.simps) (simp add: Let_def)
    also have "file_write f' (offset + n) (drop n bs) = file_write f offset bs"
      using file_write_append [OF t(3), of f offset "drop n bs"] t(2) unfolding n'(3) t(1) by simp
    finally show ?thesis using write_retry [of k j pwrite f offset bs] j(1,2) False by simp
  qed
qed

text \<open>
  C33: However often the system calls are interrupted and however few bytes each of them transfers, a read
  of the file class ends, with the bytes of the file at the offset, or with the error \<open>short_read\<close> when
  the file ends before them; and a write ends with all the bytes stored at the offset and the rest of the
  file unchanged.
\<close>

theorem posix_file_returns:
  assumes "pread_ok pread" "interrupts_only pread" "pwrite_ok pwrite" "interrupts_only pwrite"
  shows "posix_file_read pread k f offset bytes [] = Some (file_read f offset bytes) \<and>
    posix_file_write pwrite k f offset bs = Some (None, file_write f offset bs)"
  using read_loop [OF assms(1,2), of k f offset bytes "[]"] write_loop [OF assms(3,4)]
  by (cases "file_read f offset bytes") simp_all

text \<open>A system that interrupts every other call and transfers one byte at a time.\<close>

definition slow_pread :: pread where
  "slow_pread k f offset n =
     (if even k then Inl EINTR else Inr (take (min n 1) (drop offset f)))"

definition slow_pwrite :: pwrite where
  "slow_pwrite k f offset bs =
     (if even k then Inl EINTR else Inr (min 1 (length bs), file_write f offset (take 1 bs)))"

lemma slow_calls:
  "pread_ok slow_pread" "interrupts_only slow_pread" "pwrite_ok slow_pwrite" "interrupts_only slow_pwrite"
proof -
  show "pread_ok slow_pread" by (auto simp: pread_ok_def slow_pread_def min_def split: if_splits)
  show "pwrite_ok slow_pwrite" by (auto simp: pwrite_ok_def slow_pwrite_def min_def split: if_splits)
  have "\<exists>j\<ge>k. odd j" for k :: nat by (metis even_Suc le_SucI order_refl)
  then show "interrupts_only slow_pread" "interrupts_only slow_pwrite"
    by (auto simp: interrupts_only_def slow_pread_def slow_pwrite_def)
qed

theorem posix_file_returns_witness:
  "pread_ok slow_pread \<and> interrupts_only slow_pread \<and> pwrite_ok slow_pwrite \<and> interrupts_only slow_pwrite \<and>
   posix_file_read slow_pread 0 [1, 2, 3, 4] 1 2 [] = Some (Inr [2, 3]) \<and>
   posix_file_read slow_pread 0 [1, 2, 3, 4] 3 2 [] = Some (Inl (Nudb short_read)) \<and>
   posix_file_write slow_pwrite 0 [1, 2, 3] 1 [8, 9] = Some (None, [1, 8, 9])"
  using posix_file_returns [OF slow_calls, of 0 "[1, 2, 3, 4]" 1 2 "[]"]
    posix_file_returns [OF slow_calls, of 0 "[1, 2, 3, 4]" 3 2 "[]"]
    posix_file_returns [OF slow_calls, of 0 "[1, 2, 3]" 1 0 "[8, 9]"]
  by (simp add: slow_calls file_read_def file_write_def)

end
