(* ===== verification/NuDB_Format.thy ===== *)
theory NuDB_Format
  imports NuDB_XXHash NuDB_Field NuDB_File
begin

text \<open>
  The file format of NuDB, from \<^verbatim>\<open>nudb/include/nudb/detail/format.hpp\<close> and \<^verbatim>\<open>endian.hpp\<close>: the three file
  headers with their readers, writers and checks, the hash and the pepper, the sizes of buckets and the
  rounding to a power of two. A \<^verbatim>\<open>std::size_t\<close> is a natural number, a \<^verbatim>\<open>std::uint64_t\<close> a 64-bit word;
  a hasher gives the hash of a key for a seed. \<open>None\<close> is an exception or undefined behaviour.
\<close>

section \<open>Headers\<close>

definition currentVersion :: nat where "currentVersion = 2"

record dat_file_header =
  dh_type :: "byte list"
  dh_version :: nat
  dh_uid :: u64
  dh_appnum :: u64
  dh_key_size :: nat

definition dat_file_header_size :: nat where
  "dat_file_header_size = 8 + 2 + 8 + 8 + 2 + 64"

record key_file_header =
  kh_type :: "byte list"
  kh_version :: nat
  kh_uid :: u64
  kh_appnum :: u64
  kh_key_size :: nat
  kh_salt :: u64
  kh_pepper :: u64
  kh_block_size :: nat
  kh_load_factor :: nat
  kh_capacity :: nat
  kh_buckets :: nat
  kh_modulus :: nat

definition key_file_header_size :: nat where
  "key_file_header_size = 8 + 2 + 8 + 8 + 2 + 8 + 8 + 2 + 2 + 56"

record log_file_header =
  lh_type :: "byte list"
  lh_version :: nat
  lh_uid :: u64
  lh_appnum :: u64
  lh_key_size :: nat
  lh_salt :: u64
  lh_pepper :: u64
  lh_block_size :: nat
  lh_key_file_size :: u64
  lh_dat_file_size :: u64

definition log_file_header_size :: nat where
  "log_file_header_size = 8 + 2 + 8 + 8 + 2 + 8 + 8 + 2 + 8 + 8"

section \<open>Hashes\<close>

type_synonym hasher = "u64 \<Rightarrow> byte list \<Rightarrow> u64"

definition make_hash :: "u64 \<Rightarrow> u64" where
  "make_hash h = drop_bit 16 h AND 0xffffffffffff"

definition hash_salt :: "hasher \<Rightarrow> byte list \<Rightarrow> u64 \<Rightarrow> u64" where
  "hash_salt H key salt = (let h = H salt in make_hash (h key))"

definition hash_key :: "byte list \<Rightarrow> (byte list \<Rightarrow> u64) \<Rightarrow> u64" where
  "hash_key key h = make_hash (h key)"

text \<open>The bytes of an integer in memory.\<close>

definition u64_memory :: "XXH_endianess \<Rightarrow> u64 \<Rightarrow> byte list" where
  "u64_memory native v = (case native of XXH_littleEndian \<Rightarrow> le_bytes 8 v | XXH_bigEndian \<Rightarrow> be_bytes 8 v)"

definition to_little_endian_swap :: "XXH_endianess \<Rightarrow> u64 \<Rightarrow> u64" where
  "to_little_endian_swap native v =
     (let va = [ucast (v AND 0xff), ucast (drop_bit 8 v AND 0xff), ucast (drop_bit 16 v AND 0xff),
                ucast (drop_bit 24 v AND 0xff), ucast (drop_bit 32 v AND 0xff), ucast (drop_bit 40 v AND 0xff),
                ucast (drop_bit 48 v AND 0xff), ucast (drop_bit 56 v AND 0xff)]
      in (case native of XXH_littleEndian \<Rightarrow> word_of_le va | XXH_bigEndian \<Rightarrow> word_of_be va))"

definition to_little_endian :: "XXH_endianess \<Rightarrow> u64 \<Rightarrow> u64" where
  "to_little_endian native v = (if native = XXH_littleEndian then v else to_little_endian_swap native v)"

definition pepper :: "XXH_endianess \<Rightarrow> hasher \<Rightarrow> u64 \<Rightarrow> u64" where
  "pepper native H salt =
     (let v = to_little_endian native salt;
          h = H salt
      in h (u64_memory native v))"

section \<open>Sizes\<close>

definition bucket_size :: "nat \<Rightarrow> nat" where
  "bucket_size capacity =
     field_size f_uint16 + field_size f_uint48 +
     capacity * (field_size f_uint48 + field_size f_uint48 + field_size f_uint48)"

definition bucket_capacity :: "nat \<Rightarrow> nat" where
  "bucket_capacity block_size =
     (let sz = field_size f_uint16 + field_size f_uint48;
          entry_size = field_size f_uint48 + field_size f_uint48 + field_size f_uint48
      in if block_size < key_file_header_size \<or> block_size < sz then 0
         else let n = (block_size - sz) div entry_size in min (2 ^ 64 - 1) n)"

definition value_size :: "nat \<Rightarrow> nat \<Rightarrow> nat" where
  "value_size sz key_size = field_size f_uint48 + key_size + sz"

text \<open>The masks of \<^verbatim>\<open>ceil_pow2\<close>, and its loop over them; shifting by 64 or more is undefined.\<close>

definition ceil_pow2_t :: "u64 list" where
  "ceil_pow2_t = [0xFFFFFFFF00000000, 0x00000000FFFF0000, 0x000000000000FF00,
     0x00000000000000F0, 0x000000000000000C, 0x0000000000000002]"

primrec ceil_pow2_loop :: "u64 list \<Rightarrow> u64 \<Rightarrow> nat \<Rightarrow> nat \<Rightarrow> nat" where
  "ceil_pow2_loop [] x y j = y"
| "ceil_pow2_loop (t # ts) x y j =
     (let k = (if x AND t = 0 then 0 else j)
      in ceil_pow2_loop ts (drop_bit k x) (y + k) (j div 2))"

definition ceil_pow2 :: "u64 \<Rightarrow> u64 option" where
  "ceil_pow2 x =
     (let y = (if x AND (x - 1) = 0 then 0 else 1);
          y = ceil_pow2_loop ceil_pow2_t x y 32
      in if y < 64 then Some (push_bit y 1) else None)"

section \<open>Reading and writing headers\<close>

definition type_dat :: "byte list" where "type_dat = map of_char ''nudb.dat''"
definition type_key :: "byte list" where "type_key = map of_char ''nudb.key''"
definition type_log :: "byte list" where "type_log = map of_char ''nudb.log''"

definition read_dat_header :: "istream \<Rightarrow> (dat_file_header \<times> istream) option" where
  "read_dat_header inp = do {
     (type, inp) \<leftarrow> read_blob 8 inp;
     (version, inp) \<leftarrow> read_field f_uint16 inp;
     (uid, inp) \<leftarrow> read_field f_uint64 inp;
     (appnum, inp) \<leftarrow> read_field f_uint64 inp;
     (key_size, inp) \<leftarrow> read_field f_uint16 inp;
     (reserved, inp) \<leftarrow> read_blob 64 inp;
     Some (\<lparr>dh_type = type, dh_version = unat version, dh_uid = uid, dh_appnum = appnum,
            dh_key_size = unat key_size\<rparr>, inp) }"

definition read_dat_file :: "nfile \<Rightarrow> (error_code + dat_file_header) option" where
  "read_dat_file f =
     (case file_read f 0 dat_file_header_size of
        Inl ec \<Rightarrow> Some (Inl ec)
      | Inr buf \<Rightarrow> do { (dh, inp) \<leftarrow> read_dat_header buf; Some (Inr dh) })"

definition write_dat_header :: "dat_file_header \<Rightarrow> ostream \<Rightarrow> ostream option" where
  "write_dat_header dh os = do {
     os \<leftarrow> write_blob type_dat os;
     os \<leftarrow> write_field f_uint16 (of_nat (dh_version dh)) os;
     os \<leftarrow> write_field f_uint64 (dh_uid dh) os;
     os \<leftarrow> write_field f_uint64 (dh_appnum dh) os;
     os \<leftarrow> write_field f_uint16 (of_nat (dh_key_size dh)) os;
     write_blob (replicate 64 0) os }"

definition write_dat_file :: "nfile \<Rightarrow> dat_file_header \<Rightarrow> nfile option" where
  "write_dat_file f dh = do {
     (buf, written) \<leftarrow> write_dat_header dh (replicate dat_file_header_size 0, 0);
     Some (file_write f 0 buf) }"

definition read_key_header :: "istream \<Rightarrow> nat \<Rightarrow> (key_file_header \<times> istream) option" where
  "read_key_header inp file_size = do {
     (type, inp) \<leftarrow> read_blob 8 inp;
     (version, inp) \<leftarrow> read_field f_uint16 inp;
     (uid, inp) \<leftarrow> read_field f_uint64 inp;
     (appnum, inp) \<leftarrow> read_field f_uint64 inp;
     (key_size, inp) \<leftarrow> read_field f_uint16 inp;
     (salt, inp) \<leftarrow> read_field f_uint64 inp;
     (pepper, inp) \<leftarrow> read_field f_uint64 inp;
     (block_size, inp) \<leftarrow> read_field f_uint16 inp;
     (load_factor, inp) \<leftarrow> read_field f_uint16 inp;
     (reserved, inp) \<leftarrow> read_blob 56 inp;
     let block_size = unat block_size;
     let buckets =
       (if file_size > block_size
        then if block_size > 0 then (file_size - block_size) div block_size else 0
        else 0);
     modulus \<leftarrow> ceil_pow2 (of_nat buckets);
     Some (\<lparr>kh_type = type, kh_version = unat version, kh_uid = uid, kh_appnum = appnum,
            kh_key_size = unat key_size, kh_salt = salt, kh_pepper = pepper, kh_block_size = block_size,
            kh_load_factor = unat load_factor, kh_capacity = bucket_capacity block_size,
            kh_buckets = buckets, kh_modulus = unat modulus\<rparr>, inp) }"

definition read_key_file :: "nfile \<Rightarrow> (error_code + key_file_header) option" where
  "read_key_file f =
     (case file_read f 0 key_file_header_size of
        Inl ec \<Rightarrow> Some (Inl ec)
      | Inr buf \<Rightarrow> do { (kh, inp) \<leftarrow> read_key_header buf (length f); Some (Inr kh) })"

definition write_key_header :: "key_file_header \<Rightarrow> ostream \<Rightarrow> ostream option" where
  "write_key_header kh os = do {
     os \<leftarrow> write_blob type_key os;
     os \<leftarrow> write_field f_uint16 (of_nat (kh_version kh)) os;
     os \<leftarrow> write_field f_uint64 (kh_uid kh) os;
     os \<leftarrow> write_field f_uint64 (kh_appnum kh) os;
     os \<leftarrow> write_field f_uint16 (of_nat (kh_key_size kh)) os;
     os \<leftarrow> write_field f_uint64 (kh_salt kh) os;
     os \<leftarrow> write_field f_uint64 (kh_pepper kh) os;
     os \<leftarrow> write_field f_uint16 (of_nat (kh_block_size kh)) os;
     os \<leftarrow> write_field f_uint16 (of_nat (kh_load_factor kh)) os;
     write_blob (replicate 56 0) os }"

definition write_key_file :: "nfile \<Rightarrow> key_file_header \<Rightarrow> (error_code + nfile) option" where
  "write_key_file f kh =
     (if kh_block_size kh < key_file_header_size then Some (Inl (Nudb invalid_block_size))
      else do {
        (buf, written) \<leftarrow> write_key_header kh (replicate (kh_block_size kh) 0, 0);
        Some (Inr (file_write f 0 buf)) })"

definition read_log_header :: "istream \<Rightarrow> (log_file_header \<times> istream) option" where
  "read_log_header inp = do {
     (type, inp) \<leftarrow> read_blob 8 inp;
     (version, inp) \<leftarrow> read_field f_uint16 inp;
     (uid, inp) \<leftarrow> read_field f_uint64 inp;
     (appnum, inp) \<leftarrow> read_field f_uint64 inp;
     (key_size, inp) \<leftarrow> read_field f_uint16 inp;
     (salt, inp) \<leftarrow> read_field f_uint64 inp;
     (pepper, inp) \<leftarrow> read_field f_uint64 inp;
     (block_size, inp) \<leftarrow> read_field f_uint16 inp;
     (key_file_size, inp) \<leftarrow> read_field f_uint64 inp;
     (dat_file_size, inp) \<leftarrow> read_field f_uint64 inp;
     Some (\<lparr>lh_type = type, lh_version = unat version, lh_uid = uid, lh_appnum = appnum,
            lh_key_size = unat key_size, lh_salt = salt, lh_pepper = pepper,
            lh_block_size = unat block_size, lh_key_file_size = key_file_size,
            lh_dat_file_size = dat_file_size\<rparr>, inp) }"

definition read_log_file :: "nfile \<Rightarrow> (error_code + log_file_header) option" where
  "read_log_file f =
     (case file_read f 0 log_file_header_size of
        Inl ec \<Rightarrow> Some (Inl ec)
      | Inr buf \<Rightarrow> do { (lh, inp) \<leftarrow> read_log_header buf; Some (Inr lh) })"

definition write_log_header :: "log_file_header \<Rightarrow> ostream \<Rightarrow> ostream option" where
  "write_log_header lh os = do {
     os \<leftarrow> write_blob type_log os;
     os \<leftarrow> write_field f_uint16 (of_nat (lh_version lh)) os;
     os \<leftarrow> write_field f_uint64 (lh_uid lh) os;
     os \<leftarrow> write_field f_uint64 (lh_appnum lh) os;
     os \<leftarrow> write_field f_uint16 (of_nat (lh_key_size lh)) os;
     os \<leftarrow> write_field f_uint64 (lh_salt lh) os;
     os \<leftarrow> write_field f_uint64 (lh_pepper lh) os;
     os \<leftarrow> write_field f_uint16 (of_nat (lh_block_size lh)) os;
     os \<leftarrow> write_field f_uint64 (lh_key_file_size lh) os;
     write_field f_uint64 (lh_dat_file_size lh) os }"

definition write_log_file :: "nfile \<Rightarrow> log_file_header \<Rightarrow> nfile option" where
  "write_log_file f lh = do {
     (buf, written) \<leftarrow> write_log_header lh (replicate log_file_header_size 0, 0);
     Some (file_write f 0 buf) }"

section \<open>Checking headers\<close>

text \<open>\<open>None\<close> is no error.\<close>

definition verify_dat :: "dat_file_header \<Rightarrow> nudb_error option" where
  "verify_dat dh =
     (if dh_type dh \<noteq> type_dat then Some not_data_file
      else if dh_version dh \<noteq> currentVersion then Some different_version
      else if dh_key_size dh < 1 then Some invalid_key_size
      else None)"

definition verify_key :: "XXH_endianess \<Rightarrow> hasher \<Rightarrow> key_file_header \<Rightarrow> nudb_error option" where
  "verify_key native H kh =
     (if kh_type kh \<noteq> type_key then Some not_key_file
      else if kh_version kh \<noteq> currentVersion then Some different_version
      else if kh_key_size kh < 1 then Some invalid_key_size
      else if kh_pepper kh \<noteq> pepper native H (kh_salt kh) then Some hash_mismatch
      else if kh_load_factor kh < 1 then Some invalid_load_factor
      else if kh_capacity kh < 1 then Some invalid_capacity
      else if kh_buckets kh < 1 then Some invalid_bucket_count
      else None)"

definition verify_log :: "XXH_endianess \<Rightarrow> hasher \<Rightarrow> log_file_header \<Rightarrow> nudb_error option" where
  "verify_log native H lh =
     (if lh_type lh \<noteq> type_log then Some not_log_file
      else if lh_version lh \<noteq> currentVersion then Some different_version
      else if lh_pepper lh \<noteq> pepper native H (lh_salt lh) then Some hash_mismatch
      else if lh_key_size lh < 1 then Some invalid_key_size
      else None)"

definition verify_dat_key ::
  "XXH_endianess \<Rightarrow> hasher \<Rightarrow> dat_file_header \<Rightarrow> key_file_header \<Rightarrow> nudb_error option" where
  "verify_dat_key native H dh kh =
     (case verify_key native H kh of
        Some ec \<Rightarrow> Some ec
      | None \<Rightarrow>
          if kh_uid kh \<noteq> dh_uid dh then Some uid_mismatch
          else if kh_appnum kh \<noteq> dh_appnum dh then Some appnum_mismatch
          else if kh_key_size kh \<noteq> dh_key_size dh then Some key_size_mismatch
          else None)"

definition verify_key_log ::
  "XXH_endianess \<Rightarrow> hasher \<Rightarrow> key_file_header \<Rightarrow> log_file_header \<Rightarrow> nudb_error option" where
  "verify_key_log native H kh lh =
     (case verify_log native H lh of
        Some ec \<Rightarrow> Some ec
      | None \<Rightarrow>
          if kh_uid kh \<noteq> lh_uid lh then Some uid_mismatch
          else if kh_appnum kh \<noteq> lh_appnum lh then Some appnum_mismatch
          else if kh_key_size kh \<noteq> lh_key_size lh then Some key_size_mismatch
          else if kh_salt kh \<noteq> lh_salt lh then Some salt_mismatch
          else if kh_pepper kh \<noteq> lh_pepper lh then Some pepper_mismatch
          else if kh_block_size kh \<noteq> lh_block_size lh then Some block_size_mismatch
          else None)"

section \<open>The sizes of the headers\<close>

lemma header_sizes [simp]:
  "dat_file_header_size = 92" "key_file_header_size = 104" "log_file_header_size = 62"
  by (simp_all add: dat_file_header_size_def key_file_header_size_def log_file_header_size_def)

lemma length_types [simp]: "length type_dat = 8" "length type_key = 8" "length type_log = 8"
  by (simp_all add: type_dat_def type_key_def type_log_def)

section \<open>Rounding to a power of two\<close>

lemma unat_u64: "unat (x :: u64) < 2 ^ 64"
  using unsigned_less [where 'a = nat, of x] by simp

lemma unat_pow2 [simp]: "n < 64 \<Longrightarrow> unat (2 ^ n :: u64) = 2 ^ n"
proof -
  assume "n < 64"
  then have "(2::nat) ^ n < 2 ^ 64" by (rule power_strict_increasing) simp
  then have "unat (of_nat (2 ^ n) :: u64) = 2 ^ n" by (simp add: unsigned_of_nat take_bit_nat_eq_self \<open>n < 64\<close> del: of_nat_power)
  then show ?thesis by simp
qed

lemma pow2_lessD: "(2::nat) ^ a < 2 ^ b \<Longrightarrow> a < b"
  by simp

lemma pow2_leD: "(2::nat) ^ a \<le> 2 ^ b \<Longrightarrow> a \<le> b"
  by simp

text \<open>A step of the loop looks at the upper half of the \<open>2 * j\<close> bits that are left.\<close>

lemma upper_half_zero:
  fixes x :: u64
  assumes "unat x < 2 ^ (2 * j)"
  shows "x AND push_bit j (mask j) = 0 \<longleftrightarrow> unat x < 2 ^ j"
proof -
  have small: "unat x < 2 ^ m \<longleftrightarrow> (\<forall>i\<ge>m. \<not> bit x i)" for m
  proof -
    have "unat x < 2 ^ m \<longleftrightarrow> take_bit m (unat x) = unat x" by (simp add: take_bit_nat_eq_self_iff)
    also have "\<dots> \<longleftrightarrow> take_bit m x = x" by (simp add: word_unat_eq_iff unsigned_take_bit_eq)
    also have "\<dots> \<longleftrightarrow> (\<forall>i\<ge>m. \<not> bit x i)" 
      by (metis bit_take_bit_iff bit_word_eqI linorder_not_less)
    finally show ?thesis .
  qed
  have "x AND push_bit j (mask j) = 0 \<longleftrightarrow> (\<forall>i. j \<le> i \<longrightarrow> i < 2 * j \<longrightarrow> \<not> bit x i)"
  proof -
    have "bit (x AND push_bit j (mask j)) i \<longleftrightarrow> j \<le> i \<and> i < 2 * j \<and> bit x i" for i
      using bit_imp_le_length [of x i] by (auto simp: bit_simps)
    then show ?thesis by (metis bit_0_eq bit_word_eqI bot_apply bot_bool_def)
  qed
  then show ?thesis using assms unfolding small by (metis not_less)
qed

definition pow_masks :: "nat \<Rightarrow> u64 list" where
  "pow_masks m = map (\<lambda>i. push_bit (2 ^ i) (mask (2 ^ i))) (rev [0..<m])"

lemma ceil_pow2_loop_masks:
  assumes "2 ^ n \<le> unat x" "unat x < 2 ^ Suc n" "unat x < 2 ^ 2 ^ m"
  shows "ceil_pow2_loop (pow_masks m) x y (2 ^ m div 2) = y + n"
  using assms
proof (induction m arbitrary: x y n)
  case 0
  then have "unat x < 2" by simp
  with 0 have "(2::nat) ^ n < 2 ^ 1" by (simp add: le_less_trans)
  then have "n < 1" by (rule pow2_lessD)
  then have "n = 0" by simp
  then show ?case by (simp add: pow_masks_def)
next
  case (Suc m)
  have masks: "pow_masks (Suc m) = push_bit (2 ^ m) (mask (2 ^ m)) # pow_masks m" by (simp add: pow_masks_def)
  have half: "x AND push_bit (2 ^ m) (mask (2 ^ m)) = 0 \<longleftrightarrow> unat x < 2 ^ 2 ^ m"
    using upper_half_zero [of x "2 ^ m"] Suc.prems(3) by simp
  show ?case
  proof (cases "unat x < 2 ^ 2 ^ m")
    case True
    with Suc.IH [OF Suc.prems(1,2) True] half show ?thesis by (simp add: masks Let_def)
  next
    case False
    with Suc.prems(2) have "(2::nat) ^ 2 ^ m < 2 ^ Suc n" by simp
    then have n: "2 ^ m \<le> n" by (auto dest: pow2_lessD simp del: power_Suc)
    have div: "unat (drop_bit (2 ^ m) x) = unat x div 2 ^ 2 ^ m" 
      by (simp add: unat_drop_bit_eq flip: drop_bit_eq_div)
    have "2 ^ (n - 2 ^ m) * 2 ^ 2 ^ m \<le> unat x" "unat x < 2 ^ Suc (n - 2 ^ m) * 2 ^ 2 ^ m"
      using Suc.prems(1,2) n by (simp_all add: mult.assoc flip: power_add)
    moreover have "unat x < 2 ^ 2 ^ m * 2 ^ 2 ^ m" using Suc.prems(3) by (simp flip: power_add mult_2)
    ultimately have "2 ^ (n - 2 ^ m) \<le> unat (drop_bit (2 ^ m) x)" "unat (drop_bit (2 ^ m) x) < 2 ^ Suc (n - 2 ^ m)"
      "unat (drop_bit (2 ^ m) x) < 2 ^ 2 ^ m"
      unfolding div by (simp_all add: less_eq_div_iff_mult_less_eq div_less_iff_less_mult)
    from Suc.IH [OF this] half False n show ?thesis by (simp add: masks Let_def)
  qed
qed

lemma ceil_pow2_loop_log:
  assumes "2 ^ n \<le> unat x" "unat x < 2 ^ Suc n"
  shows "ceil_pow2_loop ceil_pow2_t x y 32 = y + n"
proof -
  have "ceil_pow2_t = pow_masks 6"
    by (simp add: ceil_pow2_t_def pow_masks_def upt_rec numeral_eq_Suc mask_eq_exp_minus_1 push_bit_eq_mult)
  moreover have "unat x < 2 ^ 2 ^ 6" using unat_u64 [of x] by simp
  ultimately show ?thesis using ceil_pow2_loop_masks [OF assms, of 6 y] by simp
qed

lemma unat_between:
  assumes "2 ^ n \<le> unat (z :: u64)" "unat z < 2 ^ Suc n"
  shows "bit z n"
proof -
  have "unat z div 2 ^ n = 1" using assms by (simp add: div_nat_eqI)
  then have "bit (unat z) n" by (simp add: bit_iff_odd)
  then show ?thesis by (simp add: bit_unsigned_iff)
qed

lemma and_pred_zero:
  assumes "2 ^ n \<le> unat (x :: u64)" "unat x < 2 ^ Suc n"
  shows "x AND (x - 1) = 0 \<longleftrightarrow> unat x = 2 ^ n"
proof
  assume z: "x AND (x - 1) = 0"
  have "x \<noteq> 0" using assms(1) by auto
  then have pred: "unat (x - 1) = unat x - 1" by (rule unat_minus_one)
  show "unat x = 2 ^ n"
  proof (rule ccontr)
    assume "unat x \<noteq> 2 ^ n"
    then have "2 ^ n \<le> unat (x - 1)" "unat (x - 1) < 2 ^ Suc n" using assms pred by linarith+
    then have "bit (x AND (x - 1)) n" using unat_between assms by (simp add: bit_and_iff)
    with z show False by simp
  qed
next
  assume eq: "unat x = 2 ^ n"
  have "(2::nat) ^ n < 2 ^ 64" using eq unat_u64 [of x] by simp
  then have "n < 64" by (rule pow2_lessD)
  with eq have "x = 2 ^ n" by (simp add: word_unat_eq_iff)
  then show "x AND (x - 1) = 0"
    by (simp flip: mask_eq_exp_minus_1) (rule bit_word_eqI, auto simp: bit_simps)
qed

lemma ceil_pow2_between:
  assumes "2 ^ n \<le> unat x" "unat x < 2 ^ Suc n"
  shows "ceil_pow2 x =
    (if unat x = 2 ^ n then Some (2 ^ n) else if n < 63 then Some (2 ^ Suc n) else None)"
proof -
  have "(2::nat) ^ n < 2 ^ 64" using assms(1) unat_u64 [of x] by simp
  then have "n < 64" by (rule pow2_lessD)
  then show ?thesis
    by (simp add: ceil_pow2_def ceil_pow2_loop_log [OF assms] and_pred_zero [OF assms] push_bit_eq_mult Let_def)
qed

lemma log_exists:
  assumes "0 < (m :: nat)"
  obtains n where "2 ^ n \<le> m" "m < 2 ^ Suc n"
  using assms ex_power_ivl1 [of 2 m] that by auto

text \<open>
  C32: \<^verbatim>\<open>ceil_pow2\<close> of a number from 1 to \<open>2 ^ 63\<close> is a power of two, the least one that is not
  below the number: the modulus of a key file is at least its number of buckets, and less than twice it.
\<close>

theorem ceil_pow2_least:
  assumes "0 < unat x" "unat x \<le> 2 ^ 63"
  shows "\<exists>k m. ceil_pow2 x = Some m \<and> unat m = 2 ^ k \<and> unat x \<le> unat m \<and> unat m < 2 * unat x"
proof -
  obtain n where n: "2 ^ n \<le> unat x" "unat x < 2 ^ Suc n" using assms(1) by (rule log_exists)
  have "(2::nat) ^ n \<le> 2 ^ 63" using n(1) assms(2) by linarith
  then have "n \<le> 63" by (rule pow2_leD)
  show ?thesis
  proof (cases "unat x = 2 ^ n")
    case True
    then show ?thesis using ceil_pow2_between [OF n] \<open>n \<le> 63\<close> by auto
  next
    case False
    with n(1) assms(2) have "(2::nat) ^ n < 2 ^ 63" by linarith
    then have "n < 63" by (rule pow2_lessD)
    then have "unat (2 ^ Suc n :: u64) = 2 ^ Suc n" by (intro unat_pow2) simp
    then show ?thesis using ceil_pow2_between [OF n] \<open>n < 63\<close> False n by (auto intro!: exI [of _ "Suc n"])
  qed
qed

theorem ceil_pow2_least_witness:
  "\<exists>k m. ceil_pow2 5 = Some m \<and> unat m = 2 ^ k \<and> unat (5::u64) \<le> unat m \<and> unat m < 2 * unat (5::u64)"
  using ceil_pow2_least [of 5] by simp

section \<open>Header round trips\<close>

lemmas write_field_put = write_field_def write_blob_def

lemma of_nat_field16 [nudb_simps]:
  assumes "n < 65536"
  shows "read_field f_uint16 (field_bytes f_uint16 (of_nat n) @ rest) = Some (of_nat n, rest)"
    "unat (of_nat n :: u64) = n"
proof -
  show n: "unat (of_nat n :: u64) = n" using assms by (simp add: unat_of_nat)
  then have "(of_nat n :: u64) \<le> field_max f_uint16" using assms by (simp add: word_le_nat_alt)
  then show "read_field f_uint16 (field_bytes f_uint16 (of_nat n) @ rest) = Some (of_nat n, rest)"
    by (rule read_field_bytes)
qed

lemma field64 [nudb_simps]: "read_field f_uint64 (field_bytes f_uint64 u @ rest) = Some (u, rest)"
  using unat_u64 [of u] by (intro read_field_bytes) (simp add: word_le_nat_alt)

definition dat_bytes :: "dat_file_header \<Rightarrow> byte list" where
  "dat_bytes dh = type_dat @ field_bytes f_uint16 (of_nat (dh_version dh)) @ field_bytes f_uint64 (dh_uid dh) @
     field_bytes f_uint64 (dh_appnum dh) @ field_bytes f_uint16 (of_nat (dh_key_size dh)) @ replicate 64 0"

definition key_bytes :: "key_file_header \<Rightarrow> byte list" where
  "key_bytes kh = type_key @ field_bytes f_uint16 (of_nat (kh_version kh)) @ field_bytes f_uint64 (kh_uid kh) @
     field_bytes f_uint64 (kh_appnum kh) @ field_bytes f_uint16 (of_nat (kh_key_size kh)) @
     field_bytes f_uint64 (kh_salt kh) @ field_bytes f_uint64 (kh_pepper kh) @
     field_bytes f_uint16 (of_nat (kh_block_size kh)) @ field_bytes f_uint16 (of_nat (kh_load_factor kh)) @
     replicate 56 0"

definition log_bytes :: "log_file_header \<Rightarrow> byte list" where
  "log_bytes lh = type_log @ field_bytes f_uint16 (of_nat (lh_version lh)) @ field_bytes f_uint64 (lh_uid lh) @
     field_bytes f_uint64 (lh_appnum lh) @ field_bytes f_uint16 (of_nat (lh_key_size lh)) @
     field_bytes f_uint64 (lh_salt lh) @ field_bytes f_uint64 (lh_pepper lh) @
     field_bytes f_uint16 (of_nat (lh_block_size lh)) @ field_bytes f_uint64 (lh_key_file_size lh) @
     field_bytes f_uint64 (lh_dat_file_size lh)"

lemma length_headers [simp]: "length (dat_bytes dh) = 92" "length (key_bytes kh) = 104" "length (log_bytes lh) = 62"
  by (simp_all add: dat_bytes_def key_bytes_def log_bytes_def)

lemma write_headers:
  "92 \<le> length buf \<Longrightarrow> write_dat_header dh (buf, 0) = Some (os_written buf (dat_bytes dh))"
  "104 \<le> length buf \<Longrightarrow> write_key_header kh (buf, 0) = Some (os_written buf (key_bytes kh))"
  "62 \<le> length buf \<Longrightarrow> write_log_header lh (buf, 0) = Some (os_written buf (log_bytes lh))"
  by (simp_all add: os_init write_dat_header_def write_key_header_def write_log_header_def write_field_put nudb_simps
      dat_bytes_def key_bytes_def log_bytes_def)

lemma write_files:
  "write_dat_file f dh = Some (file_write f 0 (dat_bytes dh))"
  "104 \<le> kh_block_size kh \<Longrightarrow>
     write_key_file f kh = Some (Inr (file_write f 0 (key_bytes kh @ replicate (kh_block_size kh - 104) 0)))"
  "write_log_file f lh = Some (file_write f 0 (log_bytes lh))"
  by (simp_all add: write_dat_file_def write_key_file_def write_log_file_def write_headers os_written_def)

lemma read_headers:
  "dh_version dh < 65536 \<Longrightarrow> dh_key_size dh < 65536 \<Longrightarrow>
     read_dat_header (dat_bytes dh @ rest) = Some (dh\<lparr>dh_type := type_dat\<rparr>, rest)"
  "lh_version lh < 65536 \<Longrightarrow> lh_key_size lh < 65536 \<Longrightarrow> lh_block_size lh < 65536 \<Longrightarrow>
     read_log_header (log_bytes lh @ rest) = Some (lh\<lparr>lh_type := type_log\<rparr>, rest)"
  by (simp_all add: read_dat_header_def read_log_header_def dat_bytes_def log_bytes_def nudb_simps)

text \<open>The fields that are computed when a key file header is read.\<close>

definition key_computed :: "nat \<Rightarrow> key_file_header \<Rightarrow> key_file_header option" where
  "key_computed file_size kh =
     (let buckets = (if kh_block_size kh < file_size \<and> 0 < kh_block_size kh
                     then (file_size - kh_block_size kh) div kh_block_size kh else 0)
      in map_option (\<lambda>m. kh\<lparr>kh_type := type_key, kh_capacity := bucket_capacity (kh_block_size kh),
           kh_buckets := buckets, kh_modulus := unat m\<rparr>) (ceil_pow2 (of_nat buckets)))"

lemma read_key_header_bytes:
  assumes "kh_version kh < 65536" "kh_key_size kh < 65536" "kh_block_size kh < 65536" "kh_load_factor kh < 65536"
  shows "read_key_header (key_bytes kh @ rest) file_size = map_option (\<lambda>kh. (kh, rest)) (key_computed file_size kh)"
  using assms
  by (cases "ceil_pow2 (of_nat (if kh_block_size kh < file_size \<and> 0 < kh_block_size kh
                     then (file_size - kh_block_size kh) div kh_block_size kh else 0))")
   (auto simp: read_key_header_def key_bytes_def nudb_simps key_computed_def Let_def split: if_splits)

end
