(* ===== verification/NuDB_BulkIO.thy ===== *)
theory NuDB_BulkIO
  imports NuDB_Field NuDB_File
begin

text \<open>
  The buffered readers and writers of \<^verbatim>\<open>nudb/include/nudb/detail/bulkio.hpp\<close> over the buffers of
  \<^verbatim>\<open>buffer.hpp\<close>. A stream that \<^verbatim>\<open>prepare\<close> returns points into the buffer: what is written to it is
  stored back by \<open>bulk_writer_store\<close>. Reading is reading the file from front to back; writing, with the
  final flush, is appending to the file.
\<close>

section \<open>Buffers\<close>

text \<open>Fresh memory is shown as zeros; no byte of it is read before it is written.\<close>

definition buffer_reserve :: "nat \<Rightarrow> byte list \<Rightarrow> byte list" where
  "buffer_reserve n buf = (if length buf < n then replicate n 0 else take n buf)"

section \<open>The reader\<close>

record bulk_reader =
  br_buf :: "byte list"
  br_last :: nat
  br_offset :: nat
  br_avail :: nat
  br_used :: nat

definition bulk_reader_new :: "nat \<Rightarrow> nat \<Rightarrow> nat \<Rightarrow> bulk_reader" where
  "bulk_reader_new offset last_offset buffer_size =
     \<lparr>br_buf = buffer_reserve buffer_size [], br_last = last_offset, br_offset = offset, br_avail = 0, br_used = 0\<rparr>"

definition bulk_reader_offset :: "bulk_reader \<Rightarrow> nat" where
  "bulk_reader_offset r = br_offset r - br_avail r"

definition bulk_reader_eof :: "bulk_reader \<Rightarrow> bool" where
  "bulk_reader_eof r \<longleftrightarrow> bulk_reader_offset r \<ge> br_last r"

text \<open>Moving what is left to the front of the buffer, or of a larger one, and filling the rest of it.\<close>

definition bulk_reader_refill :: "nfile \<Rightarrow> nat \<Rightarrow> bulk_reader \<Rightarrow> error_code option \<times> bulk_reader" where
  "bulk_reader_refill f needed r =
     (let left = take (br_avail r) (drop (br_used r) (br_buf r));
          buf = (if needed > length (br_buf r)
                 then overwrite (buffer_reserve needed []) 0 left
                 else overwrite (br_buf r) 0 left);
          n = min (length buf - br_avail r) (br_last r - br_offset r)
      in case file_read f (br_offset r) n of
           Inl ec \<Rightarrow> (Some ec, r\<lparr>br_buf := buf\<rparr>)
         | Inr bs \<Rightarrow> (None, r\<lparr>br_buf := overwrite buf (br_avail r) bs, br_offset := br_offset r + n,
                             br_avail := br_avail r + n, br_used := 0\<rparr>))"

definition bulk_reader_prepare :: "nfile \<Rightarrow> nat \<Rightarrow> bulk_reader \<Rightarrow> (error_code + istream) \<times> bulk_reader" where
  "bulk_reader_prepare f needed r =
     (if needed > br_avail r \<and> br_offset r + needed - br_avail r > br_last r
      then (Inl (Nudb short_read), r)
      else let (ec, r) = (if needed > br_avail r then bulk_reader_refill f needed r else (None, r))
           in case ec of
                Some ec \<Rightarrow> (Inl ec, r)
              | None \<Rightarrow> (Inr (take needed (drop (br_used r) (br_buf r))),
                         r\<lparr>br_used := br_used r + needed, br_avail := br_avail r - needed\<rparr>))"

section \<open>The writer\<close>

record bulk_writer =
  bw_buf :: "byte list"
  bw_offset :: nat
  bw_used :: nat

definition bulk_writer_new :: "nat \<Rightarrow> nat \<Rightarrow> bulk_writer" where
  "bulk_writer_new offset buffer_size =
     \<lparr>bw_buf = buffer_reserve buffer_size [], bw_offset = offset, bw_used = 0\<rparr>"

definition bulk_writer_size :: "bulk_writer \<Rightarrow> nat" where
  "bulk_writer_size w = bw_used w"

definition bulk_writer_offset :: "bulk_writer \<Rightarrow> nat" where
  "bulk_writer_offset w = bw_offset w + bw_used w"

definition bulk_writer_flush :: "bulk_writer \<Rightarrow> nfile \<Rightarrow> bulk_writer \<times> nfile" where
  "bulk_writer_flush w f =
     (if bw_used w \<noteq> 0
      then let offset = bw_offset w; used = bw_used w
           in (w\<lparr>bw_offset := bw_offset w + bw_used w, bw_used := 0\<rparr>, file_write f offset (take used (bw_buf w)))
      else (w, f))"

definition bulk_writer_prepare :: "nat \<Rightarrow> bulk_writer \<Rightarrow> nfile \<Rightarrow> ostream \<times> bulk_writer \<times> nfile" where
  "bulk_writer_prepare needed w f =
     (let (w, f) = (if bw_used w + needed > length (bw_buf w) then bulk_writer_flush w f else (w, f));
          w = (if needed > length (bw_buf w) then w\<lparr>bw_buf := buffer_reserve needed (bw_buf w)\<rparr> else w);
          os = (take needed (drop (bw_used w) (bw_buf w)), 0)
      in (os, w\<lparr>bw_used := bw_used w + needed\<rparr>, f))"

text \<open>The memory of the stream that was prepared last is the end of the used part of the buffer.\<close>

definition bulk_writer_store :: "ostream \<Rightarrow> bulk_writer \<Rightarrow> bulk_writer" where
  "bulk_writer_store os w =
     w\<lparr>bw_buf := overwrite (bw_buf w) (bw_used w - length (fst os)) (fst os)\<rparr>"

section \<open>Reading a file from front to back\<close>

text \<open>The unread part of the buffer holds the bytes of the file before the position of the next read.\<close>

definition br_ok :: "nfile \<Rightarrow> bulk_reader \<Rightarrow> bool" where
  "br_ok f r \<longleftrightarrow>
     br_avail r \<le> br_offset r \<and> br_used r + br_avail r \<le> length (br_buf r) \<and> br_last r \<le> length f \<and>
     (br_avail r > 0 \<longrightarrow> br_offset r \<le> br_last r) \<and>
     take (br_avail r) (drop (br_used r) (br_buf r)) = take (br_avail r) (drop (bulk_reader_offset r) f)"

lemma br_ok_new: "last_offset \<le> length f \<Longrightarrow> br_ok f (bulk_reader_new offset last_offset n)"
  by (simp add: br_ok_def bulk_reader_new_def)

lemma refill_ok:
  assumes ok: "br_ok f r" and needed: "br_avail r < needed" "br_offset r + needed - br_avail r \<le> br_last r"
  shows "\<exists>r'. bulk_reader_refill f needed r = (None, r') \<and> br_ok f r' \<and> bulk_reader_offset r' = bulk_reader_offset r \<and>
    br_last r' = br_last r \<and> needed \<le> br_avail r'"
proof -
  define unread where "unread = take (br_avail r) (drop (br_used r) (br_buf r))"
  define size where "size = max needed (length (br_buf r))"
  define n where "n = min (size - br_avail r) (br_last r - br_offset r)"
  define bs where "bs = take n (drop (br_offset r) f)"
  have "br_used r + br_avail r \<le> length (br_buf r)" using ok by (simp add: br_ok_def)
  then have len: "length unread = br_avail r" by (simp add: unread_def)
  obtain tl where tl: "overwrite (if needed > length (br_buf r) then buffer_reserve needed [] else br_buf r) 0 unread = unread @ tl"
    "br_avail r + length tl = size"
    using needed(1) by (cases "needed > length (br_buf r)") (auto simp: overwrite_def buffer_reserve_def len size_def)
  have n: "br_offset r + n \<le> br_last r" "needed \<le> br_avail r + n" "n \<le> length tl" "br_last r \<le> length f"
    using needed tl(2) ok by (auto simp: n_def size_def br_ok_def)
  then have read: "file_read f (br_offset r) n = Inr bs" "length bs = n" by (auto simp: file_read_def bs_def)
  have data: "unread @ bs = take (br_avail r + n) (drop (bulk_reader_offset r) f)"
  proof -
    have "unread = take (br_avail r) (drop (bulk_reader_offset r) f)"
      "drop (br_avail r) (drop (bulk_reader_offset r) f) = drop (br_offset r) f"
      using ok by (simp_all add: unread_def br_ok_def bulk_reader_offset_def)
    then show ?thesis unfolding bs_def by (simp add: take_add)
  qed
  let ?r = "r\<lparr>br_buf := (unread @ bs) @ drop n tl, br_offset := br_offset r + n, br_avail := br_avail r + n, br_used := 0\<rparr>"
  have buf: "(if needed > length (br_buf r) then overwrite (buffer_reserve needed []) 0 unread else overwrite (br_buf r) 0 unread) = unread @ tl"
    using tl(1) by (simp split: if_splits)
  have "bulk_reader_refill f needed r = (None, ?r)"
    using read tl(2) n(3)
    unfolding bulk_reader_refill_def Let_def unread_def [symmetric] buf
    by (simp add: n_def [symmetric] overwrite_def len)
  moreover have "br_ok f ?r" "bulk_reader_offset ?r = bulk_reader_offset r"
    using ok data n len read(2) by (auto simp: br_ok_def bulk_reader_offset_def)
  ultimately show ?thesis using n(2) by auto
qed

text \<open>Handing out bytes that are in the buffer.\<close>

lemma prepare_unread:
  assumes ok: "br_ok f r" and needed: "needed \<le> br_avail r"
  shows "take needed (drop (br_used r) (br_buf r)) = take needed (drop (bulk_reader_offset r) f)"
    "br_ok f (r\<lparr>br_used := br_used r + needed, br_avail := br_avail r - needed\<rparr>)"
    "bulk_reader_offset (r\<lparr>br_used := br_used r + needed, br_avail := br_avail r - needed\<rparr>) = bulk_reader_offset r + needed"
proof -
  have eq: "take (br_avail r) (drop (br_used r) (br_buf r)) = take (br_avail r) (drop (bulk_reader_offset r) f)"
    using ok by (simp add: br_ok_def)
  from arg_cong [OF eq, of "take needed"]
  show "take needed (drop (br_used r) (br_buf r)) = take needed (drop (bulk_reader_offset r) f)"
    using needed by (simp add: min.absorb1)
  have "take (br_avail r - needed) (drop needed (drop (br_used r) (br_buf r))) =
      take (br_avail r - needed) (drop needed (drop (bulk_reader_offset r) f))"
    using arg_cong [OF eq, of "drop needed"] by (simp only: drop_take)
  then show "br_ok f (r\<lparr>br_used := br_used r + needed, br_avail := br_avail r - needed\<rparr>)"
    using ok needed by (auto simp: br_ok_def bulk_reader_offset_def add.commute)
  show "bulk_reader_offset (r\<lparr>br_used := br_used r + needed, br_avail := br_avail r - needed\<rparr>) = bulk_reader_offset r + needed"
    using ok needed by (auto simp: br_ok_def bulk_reader_offset_def)
qed

lemma prepare_ok:
  assumes ok: "br_ok f r" and left: "bulk_reader_offset r + needed \<le> br_last r \<or> needed = 0"
  shows "\<exists>r'. bulk_reader_prepare f needed r = (Inr (take needed (drop (bulk_reader_offset r) f)), r') \<and> br_ok f r' \<and>
      bulk_reader_offset r' = bulk_reader_offset r + needed \<and> br_last r' = br_last r"
proof -
  have b: "br_avail r \<le> br_offset r" using ok by (simp add: br_ok_def)
  then have short: "\<not> (needed > br_avail r \<and> br_offset r + needed - br_avail r > br_last r)"
    using left unfolding bulk_reader_offset_def by linarith
  obtain r1 where r1: "(if needed > br_avail r then bulk_reader_refill f needed r else (None, r)) = (None, r1)"
    "br_ok f r1" "bulk_reader_offset r1 = bulk_reader_offset r" "br_last r1 = br_last r" "needed \<le> br_avail r1"
  proof (cases "needed > br_avail r")
    case True
    with short have "br_offset r + needed - br_avail r \<le> br_last r" by simp
    from refill_ok [OF ok True this] True that show thesis by auto
  qed (use ok that [of r] in simp)
  note p = prepare_unread [OF r1(2,5)]
  have "bulk_reader_prepare f needed r =
      (Inr (take needed (drop (bulk_reader_offset r) f)), r1\<lparr>br_used := br_used r1 + needed, br_avail := br_avail r1 - needed\<rparr>)"
    unfolding bulk_reader_prepare_def if_not_P [OF short] r1(1) using p(1) r1(3) by simp
  then show ?thesis using p(2,3) r1(3,4) by simp
qed

text \<open>
  C34: A reader over the first \<open>br_last r\<close> bytes of a file hands them out from front to back: as long as
  as many bytes as are asked for are left it returns exactly the bytes at its offset and advances by their
  number, whatever the size of its buffer, and otherwise it reports \<open>short_read\<close> and stays where it is.
\<close>

theorem bulk_reader_prepare_reads:
  assumes ok: "br_ok f r"
  shows "if bulk_reader_offset r + needed \<le> br_last r \<or> needed = 0
    then \<exists>r'. bulk_reader_prepare f needed r = (Inr (take needed (drop (bulk_reader_offset r) f)), r') \<and> br_ok f r' \<and>
      bulk_reader_offset r' = bulk_reader_offset r + needed \<and> br_last r' = br_last r
    else bulk_reader_prepare f needed r = (Inl (Nudb short_read), r)"
proof (cases "bulk_reader_offset r + needed \<le> br_last r \<or> needed = 0")
  case True
  then show ?thesis using prepare_ok [OF ok True] by (simp only: if_P)
next
  case False
  then have "needed > br_avail r \<and> br_offset r + needed - br_avail r > br_last r"
    using ok unfolding br_ok_def bulk_reader_offset_def by linarith
  with False show ?thesis by (simp add: bulk_reader_prepare_def)
qed

theorem bulk_reader_prepare_reads_witness:
  "br_ok [1, 2, 3, 4, 5] (bulk_reader_new 1 4 2) \<and>
   fst (bulk_reader_prepare [1, 2, 3, 4, 5] 3 (bulk_reader_new 1 4 2)) = Inr [2, 3, 4] \<and>
   fst (bulk_reader_prepare [1, 2, 3, 4, 5] 4 (bulk_reader_new 1 4 2)) = Inl (Nudb short_read)"
proof -
  have ok: "br_ok [1, 2, 3, 4, 5] (bulk_reader_new 1 4 2)" by (rule br_ok_new) simp
  show ?thesis
    using ok bulk_reader_prepare_reads [OF ok, of 3] bulk_reader_prepare_reads [OF ok, of 4]
    by (auto simp: bulk_reader_offset_def bulk_reader_new_def)
qed

section \<open>Appending to a file\<close>

text \<open>The file as it will be once the writer is flushed.\<close>

definition bw_view :: "bulk_writer \<Rightarrow> nfile \<Rightarrow> nfile" where
  "bw_view w f = f @ take (bw_used w) (bw_buf w)"

definition bw_ok :: "bulk_writer \<Rightarrow> nfile \<Rightarrow> bool" where
  "bw_ok w f \<longleftrightarrow> bw_offset w = length f \<and> bw_used w \<le> length (bw_buf w)"

lemma bw_new: "bw_ok (bulk_writer_new (length f) n) f" "bw_view (bulk_writer_new (length f) n) f = f"
  by (simp_all add: bw_ok_def bw_view_def bulk_writer_new_def)

lemma bw_offset: "bw_ok w f \<Longrightarrow> bulk_writer_offset w = length (bw_view w f)"
  by (simp add: bw_ok_def bw_view_def bulk_writer_offset_def)

lemma flush_ok:
  assumes "bw_ok w f" "bulk_writer_flush w f = (w', f')"
  shows "f' = bw_view w f" "bw_ok w' f'" "bw_view w' f' = bw_view w f" "bw_used w' = 0" "bw_buf w' = bw_buf w"
  using assms by (auto simp: bulk_writer_flush_def bw_ok_def bw_view_def file_write_append_end Let_def split: if_splits)

text \<open>A region of the asked size is prepared at the end; filling it appends to the file.\<close>

lemma prepare_store:
  assumes ok: "bw_ok w f" and prep: "bulk_writer_prepare needed w f = (os, w', f')"
  shows "length (fst os) = needed" "snd os = 0"
    "\<And>bs n. length bs = needed \<Longrightarrow> bw_ok (bulk_writer_store (bs, n) w') f' \<and>
       bw_view (bulk_writer_store (bs, n) w') f' = bw_view w f @ bs"
    "\<exists>g. bw_view w f = f' @ g"
proof -
  define w1 where "w1 = (if bw_used w + needed > length (bw_buf w) then bulk_writer_flush w f else (w, f))"
  define w2 where "w2 = (if needed > length (bw_buf (fst w1)) then (fst w1)\<lparr>bw_buf := buffer_reserve needed (bw_buf (fst w1))\<rparr> else fst w1)"
  have 1: "bw_ok (fst w1) (snd w1)" "bw_view (fst w1) (snd w1) = bw_view w f"
    "bw_used (fst w1) + needed \<le> length (bw_buf (fst w1)) \<or> bw_used (fst w1) = 0"
    using ok flush_ok [OF ok, of "fst w1" "snd w1"] by (auto simp: w1_def)
  have 2: "bw_ok w2 (snd w1)" "bw_view w2 (snd w1) = bw_view w f" "bw_used w2 + needed \<le> length (bw_buf w2)"
    using 1 by (auto simp: w2_def bw_ok_def bw_view_def buffer_reserve_def)
  have w': "os = (take needed (drop (bw_used w2) (bw_buf w2)), 0)" "w' = w2\<lparr>bw_used := bw_used w2 + needed\<rparr>" "f' = snd w1"
    using prep by (simp_all add: bulk_writer_prepare_def w1_def [symmetric] w2_def [symmetric] case_prod_beta Let_def)
  show "length (fst os) = needed" "snd os = 0" using 2(3) by (simp_all add: w')
  show "\<exists>g. bw_view w f = f' @ g" using 2(2) unfolding w' by (metis bw_view_def)
  fix bs :: "byte list" and n :: nat
  assume "length bs = needed"
  then show "bw_ok (bulk_writer_store (bs, n) w') f' \<and> bw_view (bulk_writer_store (bs, n) w') f' = bw_view w f @ bs"
    using 2 by (auto simp: bulk_writer_store_def bw_ok_def bw_view_def w' overwrite_def)
qed

end
