(* ===== verification/NuDB_Bucket.thy ===== *)
theory NuDB_Bucket
  imports NuDB_Format NuDB_BulkIO "HOL-Library.Multiset"
begin

text \<open>
  The buckets of \<^verbatim>\<open>nudb/include/nudb/detail/bucket.hpp\<close>: the choice of a bucket for a hash, and the class
  that views a block of memory as a sorted array of entries. An object holds the fields of the class and
  the block its pointer refers to. \<open>None\<close> is an access outside the block or another undefined behaviour.
  The operations are those of a list of entries sorted by hash.
\<close>

section \<open>The bucket of a hash\<close>

definition bucket_index :: "u64 \<Rightarrow> nat \<Rightarrow> nat \<Rightarrow> nat" where
  "bucket_index h buckets modulus =
     (let n = unat h mod modulus
      in if n \<ge> buckets then n - modulus div 2 else n)"

section \<open>Blocks of memory\<close>

definition blob_get :: "byte list \<Rightarrow> nat \<Rightarrow> nat \<Rightarrow> byte list option" where
  "blob_get p i n = (if i + n \<le> length p then Some (take n (drop i p)) else None)"

definition blob_put :: "byte list \<Rightarrow> nat \<Rightarrow> byte list \<Rightarrow> byte list option" where
  "blob_put p i bs = (if i + length bs \<le> length p then Some (overwrite p i bs) else None)"

section \<open>Buckets\<close>

record value_type =
  v_offset :: u64
  v_hash :: u64
  v_size :: nat

record bucket =
  b_block_size :: nat
  b_size :: nat
  b_spill :: u64
  b_blob :: "byte list"

abbreviation entry_width :: nat where
  "entry_width \<equiv> field_size f_uint48 + field_size f_uint48 + field_size f_uint48"

abbreviation entries_at :: nat where
  "entries_at \<equiv> field_size f_uint16 + field_size f_uint48"

definition bucket_of :: "nat \<Rightarrow> byte list \<Rightarrow> bucket option" where
  "bucket_of block_size p = do {
     (cnt, inp) \<leftarrow> read_field f_uint16 (take block_size p);
     (spill, inp) \<leftarrow> read_field f_uint48 inp;
     Some \<lparr>b_block_size = block_size, b_size = unat cnt, b_spill = spill, b_blob = p\<rparr> }"

definition bucket_clear :: "bucket \<Rightarrow> bucket option" where
  "bucket_clear b = do {
     p \<leftarrow> blob_put (b_blob b) 0 (replicate (b_block_size b) 0);
     Some (b\<lparr>b_size := 0, b_spill := 0, b_blob := p\<rparr>) }"

definition bucket_empty :: "nat \<Rightarrow> byte list \<Rightarrow> bucket option" where
  "bucket_empty block_size p = bucket_clear \<lparr>b_block_size = block_size, b_size = 0, b_spill = 0, b_blob = p\<rparr>"

definition bucket_actual_size :: "bucket \<Rightarrow> nat" where
  "bucket_actual_size b = bucket_size (b_size b)"

definition bucket_full :: "bucket \<Rightarrow> bool" where
  "bucket_full b \<longleftrightarrow> b_size b \<ge> bucket_capacity (b_block_size b)"

definition bucket_update :: "bucket \<Rightarrow> bucket option" where
  "bucket_update b = do {
     os \<leftarrow> write_field f_uint16 (of_nat (b_size b)) (b_blob b, 0);
     os \<leftarrow> write_field f_uint48 (b_spill b) os;
     Some (b\<lparr>b_blob := fst os\<rparr>) }"

definition bucket_set_spill :: "u64 \<Rightarrow> bucket \<Rightarrow> bucket option" where
  "bucket_set_spill offset b = bucket_update (b\<lparr>b_spill := offset\<rparr>)"

definition bucket_at :: "bucket \<Rightarrow> nat \<Rightarrow> value_type option" where
  "bucket_at b i = do {
     inp \<leftarrow> blob_get (b_blob b) (entries_at + i * entry_width) entry_width;
     (offset, inp) \<leftarrow> read_field f_uint48 inp;
     (sz, inp) \<leftarrow> read_size48 inp;
     (hash, inp) \<leftarrow> read_field f_uint48 inp;
     Some \<lparr>v_offset = offset, v_hash = hash, v_size = unat sz\<rparr> }"

function lower_bound_loop :: "byte list \<Rightarrow> u64 \<Rightarrow> nat \<Rightarrow> nat \<Rightarrow> nat option" where
  "lower_bound_loop p h first cnt =
     (if cnt > 0
      then let step = cnt div 2; i = first + step
           in do { h1 \<leftarrow> readp f_uint48 (drop (i * entry_width) p);
                   if h1 < h then lower_bound_loop p h (i + 1) (cnt - (step + 1))
                   else lower_bound_loop p h first step }
      else Some first)"
  by pat_completeness auto
termination
  by (relation "measure (\<lambda>(p, h, first, cnt). cnt)") auto

declare lower_bound_loop.simps [simp del]

definition bucket_lower_bound :: "bucket \<Rightarrow> u64 \<Rightarrow> nat option" where
  "bucket_lower_bound b h =
     (let p = drop (entries_at + field_size f_uint48 + field_size f_uint48) (b_blob b)
      in lower_bound_loop p h 0 (b_size b))"

definition bucket_insert :: "u64 \<Rightarrow> nat \<Rightarrow> u64 \<Rightarrow> bucket \<Rightarrow> bucket option" where
  "bucket_insert offset sz h b = do {
     i \<leftarrow> bucket_lower_bound b h;
     bs \<leftarrow> blob_get (b_blob b) (entries_at + i * entry_width) ((b_size b - i) * entry_width);
     p \<leftarrow> blob_put (b_blob b) (entries_at + (i + 1) * entry_width) bs;
     b \<leftarrow> bucket_update (b\<lparr>b_size := b_size b + 1, b_blob := p\<rparr>);
     let at = entries_at + i * entry_width;
     os \<leftarrow> write_field f_uint48 offset (drop at (b_blob b), 0);
     os \<leftarrow> write_field f_uint48 (of_nat sz) os;
     os \<leftarrow> write_field f_uint48 h os;
     Some (b\<lparr>b_blob := take at (b_blob b) @ fst os\<rparr>) }"

definition bucket_erase :: "nat \<Rightarrow> bucket \<Rightarrow> bucket option" where
  "bucket_erase i b =
     (if b_size b = 0 then None
      else let cnt = b_size b - 1
           in do {
             p \<leftarrow> (if i < cnt
                   then do { bs \<leftarrow> blob_get (b_blob b) (entries_at + (i + 1) * entry_width) ((cnt - i) * entry_width);
                             blob_put (b_blob b) (entries_at + i * entry_width) bs }
                   else Some (b_blob b));
             p \<leftarrow> blob_put p (entries_at + cnt * entry_width) (replicate entry_width 0);
             bucket_update (b\<lparr>b_size := cnt, b_blob := p\<rparr>) })"

definition bucket_read :: "nfile \<Rightarrow> nat \<Rightarrow> bucket \<Rightarrow> (error_code option \<times> bucket) option" where
  "bucket_read f offset b =
     (let cap = bucket_capacity (b_block_size b)
      in case file_read f offset (bucket_size cap) of
           Inl ec \<Rightarrow> Some (Some ec, b)
         | Inr bs \<Rightarrow> do {
             p \<leftarrow> blob_put (b_blob b) 0 bs;
             (cnt, inp) \<leftarrow> read_field f_uint16 (take (b_block_size b) p);
             (spill, inp) \<leftarrow> read_field f_uint48 inp;
             let b = b\<lparr>b_size := unat cnt, b_spill := spill, b_blob := p\<rparr>;
             Some (if b_size b > cap then Some (Nudb invalid_bucket_size) else None, b) })"

definition bucket_read_bulk ::
  "nfile \<Rightarrow> bulk_reader \<Rightarrow> bucket \<Rightarrow> (error_code option \<times> bulk_reader \<times> bucket) option" where
  "bucket_read_bulk f r b =
     (case bulk_reader_prepare f (field_size f_uint16 + field_size f_uint48) r of
        (Inl ec, r) \<Rightarrow> Some (Some ec, r, b)
      | (Inr inp, r) \<Rightarrow> do {
          (cnt, inp) \<leftarrow> read_field f_uint16 inp;
          (spill, inp) \<leftarrow> read_field f_uint48 inp;
          b \<leftarrow> bucket_update (b\<lparr>b_size := unat cnt, b_spill := spill\<rparr>);
          let w = b_size b * entry_width;
          (case bulk_reader_prepare f w r of
             (Inl ec, r) \<Rightarrow> Some (Some ec, r, b)
           | (Inr inp, r) \<Rightarrow> do {
               (bs, inp) \<leftarrow> istream_data w inp;
               p \<leftarrow> blob_put (b_blob b) entries_at bs;
               Some (None, r, b\<lparr>b_blob := p\<rparr>) }) })"

definition bucket_write :: "bucket \<Rightarrow> ostream \<Rightarrow> ostream option" where
  "bucket_write b os = do {
     bs \<leftarrow> blob_get (b_blob b) 0 (bucket_actual_size b);
     ostream_put bs os }"

definition bucket_write_file :: "bucket \<Rightarrow> nfile \<Rightarrow> nat \<Rightarrow> (bucket \<times> nfile) option" where
  "bucket_write_file b f offset =
     (let sz = bucket_actual_size b
      in if b_block_size b < sz then None
         else do {
           p \<leftarrow> blob_put (b_blob b) sz (replicate (b_block_size b - sz) 0);
           bs \<leftarrow> blob_get p 0 (b_block_size b);
           Some (b\<lparr>b_blob := p\<rparr>, file_write f offset bs) })"

definition maybe_spill :: "bucket \<Rightarrow> bulk_writer \<Rightarrow> nfile \<Rightarrow> (bucket \<times> bulk_writer \<times> nfile) option" where
  "maybe_spill b w f =
     (if bucket_full b
      then let offset = bulk_writer_offset w;
               (os, w, f) = bulk_writer_prepare (field_size f_uint48 + field_size f_uint16 + bucket_actual_size b) w f
           in do {
             os \<leftarrow> write_field f_uint48 0 os;
             os \<leftarrow> write_field f_uint16 (of_nat (bucket_actual_size b)) os;
             let spill = offset + snd os;
             os \<leftarrow> bucket_write b os;
             let w = bulk_writer_store os w;
             b \<leftarrow> bucket_clear b;
             b \<leftarrow> bucket_set_spill (of_nat spill) b;
             Some (b, w, f) }
      else Some (b, w, f))"

section \<open>What a bucket holds\<close>

definition entry_bytes :: "value_type \<Rightarrow> byte list" where
  "entry_bytes e =
     field_bytes f_uint48 (v_offset e) @ field_bytes f_uint48 (of_nat (v_size e)) @ field_bytes f_uint48 (v_hash e)"

definition entry_ok :: "value_type \<Rightarrow> bool" where
  "entry_ok e \<longleftrightarrow> v_offset e \<le> field_max f_uint48 \<and> v_size e < 2 ^ 32 \<and> v_hash e \<le> field_max f_uint48"

definition bucket_bytes :: "u64 \<Rightarrow> value_type list \<Rightarrow> byte list" where
  "bucket_bytes spill es =
     field_bytes f_uint16 (of_nat (length es)) @ field_bytes f_uint48 spill @ concat (map entry_bytes es)"

definition bucket_rep :: "bucket \<Rightarrow> value_type list \<Rightarrow> bool" where
  "bucket_rep b es \<longleftrightarrow>
     b_block_size b < 65536 \<and> b_size b = length es \<and> length es \<le> bucket_capacity (b_block_size b) \<and>
     b_spill b \<le> field_max f_uint48 \<and> list_all entry_ok es \<and> sorted (map v_hash es) \<and>
     length (b_blob b) = b_block_size b \<and> (\<exists>pad. b_blob b = bucket_bytes (b_spill b) es @ pad)"

lemma length_entry_bytes [simp]: "length (entry_bytes e) = 18"
  by (simp add: entry_bytes_def)

lemma length_entries [simp]: "length (concat (map entry_bytes es)) = length es * 18"
  by (induction es) simp_all

lemma length_bucket_bytes [simp]: "length (bucket_bytes spill es) = 8 + length es * 18"
  by (simp add: bucket_bytes_def)

lemma bucket_size_eq [simp]: "bucket_size n = 8 + n * 18"
  by (simp add: bucket_size_def)

lemma bucket_capacity_eq:
  "n < 65536 \<Longrightarrow> bucket_capacity n = (if n < 104 then 0 else (n - 8) div 18)"
  by (auto simp: bucket_capacity_def Let_def)

lemma bucket_fits: "n < 65536 \<Longrightarrow> m \<le> bucket_capacity n \<Longrightarrow> m = 0 \<or> 8 + m * 18 \<le> n"
  by (auto simp: bucket_capacity_eq split: if_splits)

lemma bucket_capacity_small: "n < 65536 \<Longrightarrow> m \<le> bucket_capacity n \<Longrightarrow> m < 3641"
  by (auto simp: bucket_capacity_eq split: if_splits)

lemma drop_entries: "drop (i * 18) (concat (map entry_bytes es)) = concat (map entry_bytes (drop i es))"
proof (induction i arbitrary: es)
  case (Suc i)
  then show ?case by (cases es) simp_all
qed simp

lemma take_entries: "take (i * 18) (concat (map entry_bytes es)) = concat (map entry_bytes (take i es))"
proof (induction i arbitrary: es)
  case (Suc i)
  then show ?case by (cases es) simp_all
qed simp

lemma drop_bucket_bytes: "drop (8 + k) (bucket_bytes spill es @ pad) = drop k (concat (map entry_bytes es) @ pad)"
  by (simp add: bucket_bytes_def)

lemma drop_entry:
  assumes "i < length es"
  shows "drop (8 + i * 18) (bucket_bytes spill es @ pad) =
    entry_bytes (es ! i) @ concat (map entry_bytes (drop (Suc i) es)) @ pad"
  using assms by (subst drop_bucket_bytes) (simp add: drop_entries flip: Cons_nth_drop_Suc)

lemma read_entry [nudb_simps]:
  assumes "entry_ok e"
  shows "do { (offset, inp) \<leftarrow> read_field f_uint48 (entry_bytes e @ rest);
       (sz, inp) \<leftarrow> read_size48 inp;
       (hash, inp) \<leftarrow> read_field f_uint48 inp;
       Some \<lparr>v_offset = offset, v_hash = hash, v_size = unat sz\<rparr> } = Some e"
proof -
  have n: "unat (of_nat (v_size e) :: u64) = v_size e" "unat (of_nat (v_size e) :: u32) = v_size e"
    using assms by (simp_all add: entry_ok_def unsigned_of_nat take_bit_nat_eq_self)
  then have "(of_nat (v_size e) :: u64) \<le> field_max f_uint48" using assms by (simp add: word_le_nat_alt entry_ok_def)
  moreover have "unat (take_bit 32 (of_nat (v_size e) :: u64)) = v_size e"
    using assms n by (simp add: unsigned_take_bit_eq take_bit_nat_eq_self entry_ok_def)
  ultimately show ?thesis
    using assms by (simp add: entry_bytes_def read_size48_def nudb_simps entry_ok_def unsigned_ucast_eq)
qed

lemma bucket_update_eq:
  assumes "b_blob b = front @ rest" "length front = 8"
  shows "bucket_update b =
    Some (b\<lparr>b_blob := field_bytes f_uint16 (of_nat (b_size b)) @ field_bytes f_uint48 (b_spill b) @ rest\<rparr>)"
  using assms by (simp add: bucket_update_def write_field_def os_init nudb_simps) (simp add: os_written_def)

lemma write_entry:
  assumes "length q = 18"
  shows "do { os \<leftarrow> write_field f_uint48 (v_offset e) (q @ rest, 0);
       os \<leftarrow> write_field f_uint48 (of_nat (v_size e)) os;
       os \<leftarrow> write_field f_uint48 (v_hash e) os;
       k os } = k (entry_bytes e @ rest, 18)"
  using assms by (simp add: write_field_def os_init nudb_simps) (simp add: os_written_def entry_bytes_def)

section \<open>Looking at entries\<close>

lemma bucket_at_rep:
  assumes "bucket_rep b es" "i < length es"
  shows "bucket_at b i = Some (es ! i)"
proof -
  obtain pad where blob: "b_blob b = bucket_bytes (b_spill b) es @ pad" using assms(1) by (auto simp: bucket_rep_def)
  have e: "entry_ok (es ! i)" using assms by (simp add: bucket_rep_def list_all_length)
  have "blob_get (b_blob b) (8 + i * 18) 18 = Some (entry_bytes (es ! i) @ [])"
    unfolding blob_get_def blob drop_entry [OF assms(2)] using assms(2) by simp
  then show ?thesis using read_entry [OF e, of "[]"] by (simp add: bucket_at_def)
qed

lemma lower_bound_loop_sorted:
  assumes "\<And>i. i < length hs \<Longrightarrow> readp f_uint48 (drop (i * 18) p) = Some (hs ! i)" "sorted hs"
    "first + cnt \<le> length hs" "\<And>i. i < first \<Longrightarrow> hs ! i < h"
    "\<And>i. first + cnt \<le> i \<Longrightarrow> i < length hs \<Longrightarrow> \<not> hs ! i < h"
  shows "lower_bound_loop p h first cnt = Some (length (takeWhile (\<lambda>x. x < h) hs))"
  using assms(3-)
proof (induction cnt arbitrary: first rule: less_induct)
  case (less cnt)
  show ?case
  proof (cases "cnt = 0")
    case True
    have "takeWhile (\<lambda>x. x < h) hs = take first hs"
      using less.prems True by (intro takeWhile_eq_take_P_nth) auto
    then show ?thesis using less.prems(1) True by (subst lower_bound_loop.simps) (simp add: min.absorb2)
  next
    case False
    define i where "i = first + cnt div 2"
    have i: "i < length hs" "first \<le> i" "i < first + cnt" using less.prems(1) False by (simp_all add: i_def)
    show ?thesis
    proof (cases "hs ! i < h")
      case True
      have "hs ! j < h" if "j < i + 1" for j
        using sorted_nth_mono [OF assms(2), of j i] i that True by (simp add: order_le_less_trans)
      then have "lower_bound_loop p h (i + 1) (cnt - (cnt div 2 + 1)) = Some (length (takeWhile (\<lambda>x. x < h) hs))"
        using less.prems False by (intro less.IH) (auto simp: i_def)
      then show ?thesis
        using False True assms(1) [OF i(1)] by (subst lower_bound_loop.simps) (simp add: Let_def i_def)
    next
      case ge: False
      have "\<not> hs ! j < h" if "i \<le> j" "j < length hs" for j
        using sorted_nth_mono [OF assms(2) that] ge by (meson leD leI order_less_le_trans)
      then have "lower_bound_loop p h first (cnt div 2) = Some (length (takeWhile (\<lambda>x. x < h) hs))"
        using less.prems False by (intro less.IH) (auto simp: i_def)
      then show ?thesis
        using False ge assms(1) [OF i(1)] by (subst lower_bound_loop.simps) (simp add: Let_def i_def)
    qed
  qed
qed

lemma lower_bound_rep:
  assumes "bucket_rep b es"
  shows "bucket_lower_bound b h = Some (length (takeWhile (\<lambda>e. v_hash e < h) es))"
proof -
  obtain pad where blob: "b_blob b = bucket_bytes (b_spill b) es @ pad" using assms(1) by (auto simp: bucket_rep_def)
  have "readp f_uint48 (drop (i * 18) (drop 20 (b_blob b))) = Some (map v_hash es ! i)" if "i < length (map v_hash es)" for i
  proof -
    have "entry_ok (es ! i)" using assms that by (simp add: bucket_rep_def list_all_length)
    moreover have "drop (i * 18) (drop 20 (b_blob b)) = drop 12 (drop (8 + i * 18) (b_blob b))" by (simp add: add.commute)
    moreover have "drop (8 + i * 18) (b_blob b) = entry_bytes (es ! i) @ concat (map entry_bytes (drop (Suc i) es)) @ pad"
      unfolding blob using that by (intro drop_entry) simp
    ultimately show ?thesis using that take_bit_field_max [of "v_hash (es ! i)" f_uint48]
      by (simp add: entry_bytes_def readp_bytes entry_ok_def del: drop_drop)
  qed
  then have "lower_bound_loop (drop 20 (b_blob b)) h 0 (b_size b) = Some (length (takeWhile (\<lambda>x. x < h) (map v_hash es)))"
    using assms by (intro lower_bound_loop_sorted) (simp_all add: bucket_rep_def)
  then show ?thesis by (simp add: bucket_lower_bound_def takeWhile_map o_def)
qed

section \<open>Changing entries\<close>

lemma bucket_repI:
  assumes "b_blob b = bucket_bytes (b_spill b) es @ pad" "length (b_blob b) = b_block_size b"
    "b_block_size b < 65536" "b_size b = length es" "length es \<le> bucket_capacity (b_block_size b)"
    "b_spill b \<le> field_max f_uint48" "list_all entry_ok es" "sorted (map v_hash es)"
  shows "bucket_rep b es"
  using assms by (auto simp: bucket_rep_def)

definition insert_entry :: "value_type \<Rightarrow> value_type list \<Rightarrow> value_type list" where
  "insert_entry e es =
     takeWhile (\<lambda>x. v_hash x < v_hash e) es @ e # dropWhile (\<lambda>x. v_hash x < v_hash e) es"

lemma sorted_insert_entry: "sorted (map v_hash es) \<Longrightarrow> sorted (map v_hash (insert_entry e es))"
  by (induction es) (auto simp: insert_entry_def dest: set_takeWhileD set_dropWhileD)

lemma list_all_insert_entry: "list_all entry_ok es \<Longrightarrow> entry_ok e \<Longrightarrow> list_all entry_ok (insert_entry e es)"
  by (induction es) (auto simp: insert_entry_def)

lemma length_insert_entry [simp]: "length (insert_entry e es) = Suc (length es)"
  by (induction es) (auto simp: insert_entry_def)

lemma set_insert_entry [simp]: "set (insert_entry e es) = insert e (set es)"
  by (induction es) (auto simp: insert_entry_def)

lemma mset_insert_entry [simp]: "mset (insert_entry e es) = add_mset e (mset es)"
  by (induction es) (auto simp: insert_entry_def)

text \<open>The bytes of a bucket around its entry \<open>i\<close>.\<close>

lemma bucket_bytes_split:
  assumes "i \<le> length es"
  shows "bucket_bytes spill es =
    (field_bytes f_uint16 (of_nat (length es)) @ field_bytes f_uint48 spill) @
    concat (map entry_bytes (take i es)) @ concat (map entry_bytes (drop i es))"
  by (simp add: bucket_bytes_def flip: concat_append map_append)

lemma insert_memmove:
  assumes "blob = P @ D @ pad" "length P = n" "18 \<le> length pad"
  shows "blob_get blob n (length D) = Some D"
    "blob_put blob (n + 18) D = Some (P @ take 18 (D @ pad) @ D @ drop 18 pad)"
  using assms by (simp_all add: blob_get_def blob_put_def overwrite_def)

lemma bucket_insert_rep:
  assumes rep: "bucket_rep b es" and e: "entry_ok e" and room: "length es < bucket_capacity (b_block_size b)"
  shows "\<exists>b'. bucket_insert (v_offset e) (v_size e) (v_hash e) b = Some b' \<and> bucket_rep b' (insert_entry e es) \<and>
    b_spill b' = b_spill b \<and> b_block_size b' = b_block_size b"
proof -
  obtain pad where blob: "b_blob b = bucket_bytes (b_spill b) es @ pad" using rep by (auto simp: bucket_rep_def)
  have bs: "b_block_size b < 65536" "length (b_blob b) = b_block_size b" "b_size b = length es" using rep by (auto simp: bucket_rep_def)
  then have pad: "18 \<le> length pad" using bucket_fits [OF bs(1), of "Suc (length es)"] room blob by simp
  define i where "i = length (takeWhile (\<lambda>x. v_hash x < v_hash e) es)"
  have i: "i \<le> length es" by (simp add: i_def length_takeWhile_le)
  have ins: "insert_entry e es = take i es @ e # drop i es"
    unfolding insert_entry_def i_def by (metis takeWhile_eq_take dropWhile_eq_drop)
  define H where "H n = field_bytes f_uint16 (of_nat n) @ field_bytes f_uint48 (b_spill b)" for n
  define P where "P = concat (map entry_bytes (take i es))"
  define D where "D = concat (map entry_bytes (drop i es))"
  have len: "length (H n) = 8" "length P = i * 18" "length D = (length es - i) * 18" for n
    using i by (simp_all add: H_def P_def D_def)
  have b: "b_blob b = (H (length es) @ P) @ D @ pad" using bucket_bytes_split [OF i] by (simp add: blob H_def P_def D_def)
  note move = insert_memmove [OF b, of "8 + i * 18", OF _ pad]
  define q where "q = take 18 (D @ pad)"
  have q: "length q = 18" using pad by (simp add: q_def)
  have get: "blob_get (b_blob b) (8 + i * 18) ((length es - i) * 18) = Some D"
    and put: "blob_put (b_blob b) (26 + i * 18) D = Some (H (length es) @ P @ q @ D @ drop 18 pad)"
    using move len by (simp_all add: algebra_simps q_def)
  let ?b1 = "b\<lparr>b_size := Suc (length es), b_blob := H (length es) @ P @ q @ D @ drop 18 pad\<rparr>"
  have upd: "bucket_update ?b1 = Some (?b1\<lparr>b_blob := H (Suc (length es)) @ P @ q @ D @ drop 18 pad\<rparr>)"
    by (subst bucket_update_eq [where b = ?b1 and front = "H (length es)"]) (simp_all add: len H_def)
  let ?b' = "b\<lparr>b_size := Suc (length es), b_blob := H (Suc (length es)) @ P @ entry_bytes e @ D @ drop 18 pad\<rparr>"
  have "bucket_insert (v_offset e) (v_size e) (v_hash e) b = Some ?b'"
    by (simp add: bucket_insert_def lower_bound_rep [OF rep] i_def [symmetric] bs(3) get put upd len q write_entry Let_def)
  moreover have "bucket_rep ?b' (insert_entry e es)"
  proof (rule bucket_repI [where pad = "drop 18 pad"])
    show "b_blob ?b' = bucket_bytes (b_spill ?b') (insert_entry e es) @ drop 18 pad"
      by (simp add: bucket_bytes_def ins H_def P_def D_def min.absorb2 i)
    show "length (b_blob ?b') = b_block_size ?b'" using bs(2) pad len by (simp add: b)
  qed (use rep room e bs in \<open>simp_all add: bucket_rep_def sorted_insert_entry list_all_insert_entry\<close>)
  ultimately show ?thesis by auto
qed

lemma drop_Suc_entries: "i < length es \<Longrightarrow> concat (map entry_bytes (drop i es)) = entry_bytes (es ! i) @ concat (map entry_bytes (drop (Suc i) es))"
  by (simp flip: Cons_nth_drop_Suc)

lemma bucket_erase_rep:
  assumes rep: "bucket_rep b es" and i: "i < length es"
  shows "\<exists>b'. bucket_erase i b = Some b' \<and> bucket_rep b' (take i es @ drop (Suc i) es) \<and>
    b_spill b' = b_spill b \<and> b_block_size b' = b_block_size b"
proof -
  obtain pad where blob: "b_blob b = bucket_bytes (b_spill b) es @ pad" using rep by (auto simp: bucket_rep_def)
  have bs: "b_block_size b < 65536" "length (b_blob b) = b_block_size b" "b_size b = length es" using rep by (auto simp: bucket_rep_def)
  define H where "H n = field_bytes f_uint16 (of_nat n) @ field_bytes f_uint48 (b_spill b)" for n
  define P where "P = concat (map entry_bytes (take i es))"
  define D where "D = concat (map entry_bytes (drop (Suc i) es))"
  define q where "q = drop (length D) (entry_bytes (es ! i) @ D)"
  have len: "length (H n) = 8" "length P = i * 18" "length D = (length es - 1 - i) * 18" "length q = 18" for n
    using i by (simp_all add: H_def P_def D_def q_def)
  have b: "b_blob b = H (length es) @ P @ entry_bytes (es ! i) @ D @ pad"
    using bucket_bytes_split [of i es] i by (simp add: blob H_def P_def D_def drop_Suc_entries)
  have move: "(if i < length es - 1
      then do { bs \<leftarrow> blob_get (b_blob b) (26 + i * 18) ((length es - 1 - i) * 18); blob_put (b_blob b) (8 + i * 18) bs }
      else Some (b_blob b)) = Some (H (length es) @ P @ D @ q @ pad)"
  proof (cases "i < length es - 1")
    case True
    have "length D \<ge> 18" using True by (simp add: len)
    moreover have "blob_get (b_blob b) (26 + i * 18) ((length es - 1 - i) * 18) = Some D"
      using True by (simp add: blob_get_def b len)
    ultimately show ?thesis using True by (simp add: blob_put_def b len overwrite_def q_def)
  next
    case False
    then have "D = []" using i by (simp add: D_def)
    then show ?thesis using False by (simp add: b q_def)
  qed
  have zero: "blob_put (H (length es) @ P @ D @ q @ pad) (8 + (length es - 1) * 18) (replicate 18 0) =
      Some (H (length es) @ P @ D @ replicate 18 0 @ pad)"
  proof -
    have "(length es - 1) * 18 = i * 18 + (length es - 1 - i) * 18" using i by simp
    then show ?thesis by (simp add: blob_put_def overwrite_def len)
  qed
  let ?b1 = "b\<lparr>b_size := length es - 1, b_blob := H (length es) @ P @ D @ replicate 18 0 @ pad\<rparr>"
  let ?b' = "b\<lparr>b_size := length es - 1, b_blob := H (length es - 1) @ P @ D @ replicate 18 0 @ pad\<rparr>"
  have "bucket_update ?b1 = Some ?b'"
    by (subst bucket_update_eq [where b = ?b1 and front = "H (length es)"]) (simp_all add: len H_def)
  then have "bucket_erase i b = Some ?b'"
    using i move zero by (auto simp: bucket_erase_def bs(3) Let_def simp del: Option.bind_assoc split: if_splits)
  moreover have "bucket_rep ?b' (take i es @ drop (Suc i) es)"
  proof (rule bucket_repI [where pad = "replicate 18 0 @ pad"])
    have "length (take i es @ drop (Suc i) es) = length es - 1" using i by simp
    then show "b_blob ?b' = bucket_bytes (b_spill ?b') (take i es @ drop (Suc i) es) @ replicate 18 0 @ pad"
      by (simp only: bucket_bytes_def) (simp add: H_def P_def D_def)
    show "length (b_blob ?b') = b_block_size ?b'" using bs(2) i by (simp add: b len)
    have "set (take i es @ drop (Suc i) es) \<subseteq> set es" by (auto dest: in_set_takeD in_set_dropD)
    then show "list_all entry_ok (take i es @ drop (Suc i) es)" using rep by (auto simp: bucket_rep_def list_all_iff)
    have "sorted (map v_hash (take i es @ es ! i # drop (Suc i) es))"
      using rep i by (simp add: bucket_rep_def flip: id_take_nth_drop)
    then show "sorted (map v_hash (take i es @ drop (Suc i) es))" by (auto simp: sorted_append)
  qed (use rep i bs in \<open>auto simp: bucket_rep_def\<close>)
  ultimately show ?thesis by auto
qed

lemma zero_bytes: "bucket_bytes 0 [] = replicate 8 0"
  by (simp add: bucket_bytes_def field_bytes.simps write_defs Let_def numeral_eq_Suc)

lemma bucket_clear_rep:
  assumes "length (b_blob b) = b_block_size b" "b_block_size b < 65536" "8 \<le> b_block_size b"
  shows "\<exists>b'. bucket_clear b = Some b' \<and> bucket_rep b' [] \<and> b_spill b' = 0 \<and> b_block_size b' = b_block_size b"
proof -
  let ?b = "b\<lparr>b_size := 0, b_spill := 0, b_blob := replicate (b_block_size b) 0\<rparr>"
  have "bucket_clear b = Some ?b" using assms by (simp add: bucket_clear_def blob_put_def overwrite_def)
  moreover have "bucket_rep ?b []"
    using assms by (intro bucket_repI [where pad = "replicate (b_block_size b - 8) 0"]) (simp_all add: zero_bytes flip: replicate_add)
  ultimately show ?thesis by auto
qed

lemma bucket_set_spill_rep:
  assumes rep: "bucket_rep b es" and s: "s \<le> field_max f_uint48"
  shows "\<exists>b'. bucket_set_spill s b = Some b' \<and> bucket_rep b' es \<and> b_spill b' = s \<and> b_block_size b' = b_block_size b"
proof -
  obtain pad where blob: "b_blob b = bucket_bytes (b_spill b) es @ pad" using rep by (auto simp: bucket_rep_def)
  have n: "b_size b = length es" using rep by (simp add: bucket_rep_def)
  let ?b = "b\<lparr>b_spill := s, b_blob := bucket_bytes s es @ pad\<rparr>"
  have "bucket_set_spill s b = Some ?b"
    unfolding bucket_set_spill_def
    by (subst bucket_update_eq [where front = "field_bytes f_uint16 (of_nat (length es)) @ field_bytes f_uint48 (b_spill b)"
          and rest = "concat (map entry_bytes es) @ pad"]) (simp_all add: blob bucket_bytes_def n)
  moreover have "bucket_rep ?b es"
    using rep s blob by (intro bucket_repI [where pad = pad]) (auto simp: bucket_rep_def)
  ultimately show ?thesis by auto
qed

section \<open>Buckets in files\<close>

lemma read_bucket_bytes:
  assumes "length es < 65536" "spill \<le> field_max f_uint48"
  shows "read_field f_uint16 (bucket_bytes spill es @ rest) = Some (of_nat (length es), field_bytes f_uint48 spill @ concat (map entry_bytes es) @ rest)"
    "read_field f_uint48 (field_bytes f_uint48 spill @ rest) = Some (spill, rest)"
    "unat (of_nat (length es) :: u64) = length es"
  using assms by (simp_all add: bucket_bytes_def nudb_simps)

text \<open>The object that results from looking at a block that holds a bucket.\<close>

lemma bucket_of_rep:
  assumes "p = bucket_bytes spill es @ pad" "length p = block_size" "block_size < 65536" "length es \<le> bucket_capacity block_size"
    "spill \<le> field_max f_uint48" "list_all entry_ok es" "sorted (map v_hash es)"
  shows "bucket_of block_size p = Some \<lparr>b_block_size = block_size, b_size = length es, b_spill = spill, b_blob = p\<rparr>"
    "bucket_rep \<lparr>b_block_size = block_size, b_size = length es, b_spill = spill, b_blob = p\<rparr> es"
proof -
  have n: "length es < 65536" using bucket_capacity_small [OF assms(3,4)] by simp
  show "bucket_of block_size p = Some \<lparr>b_block_size = block_size, b_size = length es, b_spill = spill, b_blob = p\<rparr>"
    using read_bucket_bytes [OF n assms(5)] assms(1,2) by (simp add: bucket_of_def)
  show "bucket_rep \<lparr>b_block_size = block_size, b_size = length es, b_spill = spill, b_blob = p\<rparr> es"
    using assms by (intro bucket_repI [where pad = pad]) simp_all
qed

lemma bucket_of_rep_again:
  assumes "bucket_rep b es"
  shows "bucket_of (b_block_size b) (b_blob b) = Some b"
proof -
  obtain pad where "b_blob b = bucket_bytes (b_spill b) es @ pad" using assms by (auto simp: bucket_rep_def)
  from bucket_of_rep(1) [OF this, of "b_block_size b"] assms show ?thesis by (simp add: bucket_rep_def)
qed

lemma bucket_read_rep:
  assumes f: "file_read f offset (bucket_size (bucket_capacity (b_block_size b))) = Inr (bucket_bytes spill es @ pad)"
    and b: "length (b_blob b) = b_block_size b" "b_block_size b < 65536" "104 \<le> b_block_size b"
    and es: "length es \<le> bucket_capacity (b_block_size b)" "spill \<le> field_max f_uint48" "list_all entry_ok es" "sorted (map v_hash es)"
  shows "\<exists>b'. bucket_read f offset b = Some (None, b') \<and> bucket_rep b' es \<and> b_spill b' = spill \<and> b_block_size b' = b_block_size b"
proof -
  have n: "length es < 65536" using bucket_capacity_small [OF b(2) es(1)] by simp
  define cap where "cap = bucket_capacity (b_block_size b)"
  have "8 + cap * 18 \<le> b_block_size b" using bucket_fits [OF b(2), of cap] b(3) by (auto simp: cap_def)
  moreover have "length (bucket_bytes spill es @ pad) = 8 + cap * 18"
    using file_read_length [OF f] by (simp add: cap_def)
  ultimately have len: "length (bucket_bytes spill es @ pad @ drop (8 + cap * 18) (b_blob b)) = b_block_size b"
    and put: "blob_put (b_blob b) 0 (bucket_bytes spill es @ pad) =
      Some (bucket_bytes spill es @ pad @ drop (8 + cap * 18) (b_blob b))"
    using b(1) by (simp_all add: blob_put_def overwrite_def add.assoc)
  let ?p = "bucket_bytes spill es @ pad @ drop (8 + cap * 18) (b_blob b)"
  let ?b = "b\<lparr>b_size := length es, b_spill := spill, b_blob := ?p\<rparr>"
  have "bucket_read f offset b = Some (None, ?b)"
    using read_bucket_bytes [OF n es(2)] f put es(1) len
    by (simp add: bucket_read_def cap_def [symmetric] Let_def)
  moreover have "bucket_rep ?b es"
    using b es len by (intro bucket_repI [where pad = "pad @ drop (8 + cap * 18) (b_blob b)"]) simp_all
  ultimately show ?thesis by auto
qed

lemma bucket_write_rep:
  assumes rep: "bucket_rep b es"
  shows "bucket_write b os = ostream_put (bucket_bytes (b_spill b) es) os"
proof -
  obtain pad where blob: "b_blob b = bucket_bytes (b_spill b) es @ pad" using rep by (auto simp: bucket_rep_def)
  have "b_size b = length es" using rep by (simp add: bucket_rep_def)
  then show ?thesis by (simp add: bucket_write_def blob_get_def blob bucket_actual_size_def)
qed

lemma bucket_write_file_rep:
  assumes rep: "bucket_rep b es"
  shows "\<exists>b'. bucket_write_file b f offset =
      Some (b', file_write f offset (bucket_bytes (b_spill b) es @ replicate (b_block_size b - bucket_size (length es)) 0)) \<and>
    bucket_rep b' es \<and> b_spill b' = b_spill b \<and> b_block_size b' = b_block_size b"
proof -
  obtain pad where blob: "b_blob b = bucket_bytes (b_spill b) es @ pad" using rep by (auto simp: bucket_rep_def)
  have n: "b_size b = length es" "length (b_blob b) = b_block_size b" using rep by (simp_all add: bucket_rep_def)
  let ?p = "bucket_bytes (b_spill b) es @ replicate (b_block_size b - bucket_size (length es)) 0"
  have len: "8 + length es * 18 \<le> b_block_size b" using n blob by simp
  have "bucket_write_file b f offset = Some (b\<lparr>b_blob := ?p\<rparr>, file_write f offset ?p)"
    using n blob len by (simp add: bucket_write_file_def bucket_actual_size_def blob_put_def blob_get_def overwrite_def Let_def)
  moreover have "bucket_rep (b\<lparr>b_blob := ?p\<rparr>) es"
    using rep len by (intro bucket_repI [where pad = "replicate (b_block_size b - bucket_size (length es)) 0"]) (auto simp: bucket_rep_def)
  ultimately show ?thesis by (intro exI [of _ "b\<lparr>b_blob := ?p\<rparr>"]) simp
qed

lemma read_bulk_bytes:
  assumes ok: "br_ok f r" and f: "f = g @ bucket_bytes spill es @ rest" "length g = bulk_reader_offset r"
    and last: "length g + length (bucket_bytes spill es) \<le> br_last r"
    and es: "length es < 65536" "spill \<le> field_max f_uint48" "8 \<le> length (b_blob b)"
  shows "\<exists>r'. br_ok f r' \<and> bulk_reader_offset r' = length g + length (bucket_bytes spill es) \<and> br_last r' = br_last r \<and>
    bucket_read_bulk f r b =
      (if 8 + length es * 18 \<le> length (b_blob b)
       then Some (None, r', b\<lparr>b_size := length es, b_spill := spill,
                             b_blob := bucket_bytes spill es @ drop (8 + length es * 18) (b_blob b)\<rparr>)
       else None)"
proof -
  let ?H = "field_bytes f_uint16 (of_nat (length es)) @ field_bytes f_uint48 spill"
  obtain r1 where r1: "bulk_reader_prepare f 8 r = (Inr (take 8 (drop (length g) f)), r1)" "br_ok f r1"
    "bulk_reader_offset r1 = length g + 8" "br_last r1 = br_last r"
    using prepare_ok [OF ok, of 8] f(2) last by auto
  obtain r2 where r2: "bulk_reader_prepare f (length es * 18) r1 = (Inr (take (length es * 18) (drop (length g + 8) f)), r2)"
    "br_ok f r2" "bulk_reader_offset r2 = length g + 8 + length es * 18" "br_last r2 = br_last r"
    using prepare_ok [OF r1(2), of "length es * 18"] r1(3,4) last by auto
  have data: "take 8 (drop (length g) f) = ?H" "take (length es * 18) (drop (length g + 8) f) = concat (map entry_bytes es)"
    by (simp_all add: f(1) bucket_bytes_def)
  obtain front tl where blob: "b_blob b = front @ tl" "length front = 8" using es(3) by (metis append_take_drop_id length_take min.absorb2)
  let ?b = "b\<lparr>b_size := length es, b_spill := spill\<rparr>"
  have upd: "bucket_update ?b = Some (?b\<lparr>b_blob := ?H @ tl\<rparr>)"
    using blob by (subst bucket_update_eq [where b = ?b and front = front and rest = tl]) simp_all
  have "bucket_read_bulk f r b =
      (if 8 + length es * 18 \<le> length (b_blob b)
       then Some (None, r2, b\<lparr>b_size := length es, b_spill := spill,
                             b_blob := bucket_bytes spill es @ drop (8 + length es * 18) (b_blob b)\<rparr>)
       else None)"
    using es(1,2) upd blob read_field_bytes [OF es(2), of "[]"]
    by (simp add: bucket_read_bulk_def r1(1) data nudb_simps r2(1) istream_data_def blob_put_def overwrite_def bucket_bytes_def Let_def
        del: read_field_bytes)
  then show ?thesis using r2 by (intro exI [of _ r2]) (simp add: add.assoc)
qed

section \<open>Spilling a bucket\<close>

text \<open>A spill record: a zero in place of the size of a value, the size of the bucket, and the bucket.\<close>

definition spill_record :: "u64 \<Rightarrow> value_type list \<Rightarrow> byte list" where
  "spill_record spill es =
     field_bytes f_uint48 0 @ field_bytes f_uint16 (of_nat (bucket_size (length es))) @ bucket_bytes spill es"

lemma maybe_spill_full:
  assumes rep: "bucket_rep b es" and ok: "bw_ok w f" and full: "bucket_full b" and bs: "104 \<le> b_block_size b"
    and small: "length (bw_view w f) + 8 < 2 ^ 48"
  shows "\<exists>b' w' f'. maybe_spill b w f = Some (b', w', f') \<and> bucket_rep b' [] \<and> bw_ok w' f' \<and>
    bw_view w' f' = bw_view w f @ spill_record (b_spill b) es \<and>
    unat (b_spill b') = length (bw_view w f) + 8 \<and> b_block_size b' = b_block_size b \<and> (\<exists>g. bw_view w f = f' @ g)"
proof -
  have n: "b_size b = length es" "b_block_size b < 65536" "length (b_blob b) = b_block_size b" using rep by (simp_all add: bucket_rep_def)
  let ?n = "field_size f_uint48 + field_size f_uint16 + bucket_actual_size b"
  obtain buf k w1 f1 where prep: "bulk_writer_prepare ?n w f = ((buf, k), w1, f1)" by (metis prod.exhaust)
  note st = prepare_store [OF ok prep]
  have buf: "length buf = 16 + length es * 18" "k = 0" using st(1,2) by (simp_all add: bucket_actual_size_def n)
  let ?z = "field_bytes f_uint48 0" and ?s = "field_bytes f_uint16 (of_nat (bucket_actual_size b))"
  have stream: "write_field f_uint48 0 (buf, 0) = Some (os_written buf ?z)"
    "write_field f_uint16 (of_nat (bucket_actual_size b)) (os_written buf ?z) = Some (os_written buf (?z @ ?s))"
    "snd (os_written buf (?z @ ?s)) = 8"
    "bucket_write b (os_written buf (?z @ ?s)) = Some (spill_record (b_spill b) es, length (spill_record (b_spill b) es))"
    using buf(1)
    by (simp_all add: write_field_def os_init nudb_simps bucket_write_rep [OF rep])
      (simp_all add: os_written_def spill_record_def bucket_actual_size_def n)
  obtain b1 where b1: "bucket_clear b = Some b1" "bucket_rep b1 []" "b_block_size b1 = b_block_size b"
    using bucket_clear_rep [OF n(3,2)] bs by auto
  have s: "unat (of_nat (length (bw_view w f) + 8) :: u64) = length (bw_view w f) + 8"
    using small by (simp add: unsigned_of_nat take_bit_nat_eq_self del: of_nat_add)
  then obtain b2 where b2: "bucket_set_spill (of_nat (length (bw_view w f) + 8)) b1 = Some b2" "bucket_rep b2 []"
    "b_spill b2 = of_nat (length (bw_view w f) + 8)" "b_block_size b2 = b_block_size b"
    using bucket_set_spill_rep [OF b1(2), of "of_nat (length (bw_view w f) + 8)"] small b1(3) by (auto simp: word_le_nat_alt)
  let ?w = "bulk_writer_store (spill_record (b_spill b) es, length (spill_record (b_spill b) es)) w1"
  have "maybe_spill b w f = Some (b2, ?w, f1)"
    using full b1(1) b2(1) buf(2) bw_offset [OF ok] unfolding maybe_spill_def prep
    by (simp add: stream Let_def)
  moreover have "bw_ok ?w f1" "bw_view ?w f1 = bw_view w f @ spill_record (b_spill b) es"
    using st(3) [of "spill_record (b_spill b) es"] by (simp_all add: spill_record_def bucket_actual_size_def n)
  ultimately show ?thesis using b2 s st(4) by auto
qed

section \<open>Properties\<close>

lemma bucket_index_bound:
  assumes "0 < buckets" "buckets \<le> modulus" "modulus < 2 * buckets"
  shows "bucket_index h buckets modulus < buckets"
proof -
  define n where "n = unat h mod modulus"
  have "n < modulus" using assms by (simp add: n_def)
  then show ?thesis using assms by (auto simp: bucket_index_def Let_def n_def [symmetric])
qed

lemma bucket_index_step:
  assumes "0 < buckets" "buckets \<le> modulus" "modulus < 2 * buckets"
    and "modulus' = (if buckets = modulus then modulus * 2 else modulus)" "n1 = buckets - modulus' div 2"
  shows "bucket_index h (Suc buckets) modulus' = bucket_index h buckets modulus \<or>
    bucket_index h buckets modulus = n1 \<and> bucket_index h (Suc buckets) modulus' = buckets"
proof -
  define n where "n = unat h mod modulus"
  have n: "n < modulus" using assms by (simp add: n_def)
  have "unat h mod (modulus * 2) = n \<or> unat h mod (modulus * 2) = n + modulus"
    by (cases "even (unat h div modulus)") (simp_all add: n_def mod_mult2_eq mod2_eq_if)
  with n assms show ?thesis
    by (cases "buckets = modulus") (auto simp: bucket_index_def Let_def n_def [symmetric])
qed

text \<open>
  C31: With a modulus that is at least the number of buckets and less than twice it, every hash has one of
  the buckets. When a bucket is added, and the modulus doubled if they were equal, a hash keeps its bucket or moves from
  the bucket \<open>n1\<close> that is split to the new one.
\<close>

theorem bucket_index_grows:
  assumes "0 < buckets" "buckets \<le> modulus" "modulus < 2 * buckets"
  shows "let modulus' = (if buckets = modulus then modulus * 2 else modulus); n1 = buckets - modulus' div 2;
             n = bucket_index h buckets modulus; n' = bucket_index h (buckets + 1) modulus'
         in n < buckets \<and> n1 < buckets \<and> (n' = n \<or> n = n1 \<and> n' = buckets)"
  using bucket_index_bound [OF assms, of h] bucket_index_step [OF assms refl refl, of h] assms unfolding Let_def by auto

theorem bucket_index_grows_witness:
  "bucket_index 7 4 4 = 3 \<and> bucket_index 7 5 8 = 3 \<and> bucket_index 4 4 4 = 0 \<and> bucket_index 4 5 8 = 4"
  using bucket_index_grows [of 4 4 7] bucket_index_grows [of 4 4 4] by (simp add: bucket_index_def)

text \<open>A bucket with one entry, in a block of 128 bytes.\<close>

definition sample_entry :: value_type where
  "sample_entry = \<lparr>v_offset = 100, v_hash = 77, v_size = 5\<rparr>"

definition sample_bucket :: bucket where
  "sample_bucket = \<lparr>b_block_size = 128, b_size = 1, b_spill = 0, b_blob = bucket_bytes 0 [sample_entry] @ replicate 102 9\<rparr>"

lemma sample_rep: "bucket_rep sample_bucket [sample_entry]"
  by (rule bucket_repI [where pad = "replicate 102 9"])
    (simp_all add: sample_bucket_def entry_ok_def sample_entry_def bucket_capacity_eq)

text \<open>
  C29: A bucket represents a list of entries sorted by hash. \<open>lower_bound\<close>, a binary search, gives the
  number of entries with a smaller hash; \<open>at\<close> gives the entries; inserting an entry into a bucket
  that is not full keeps the representation and puts the entry before the first one whose hash is not smaller;
  erasing takes one entry away. No operation accesses memory outside the block.
\<close>

theorem bucket_operations:
  assumes "bucket_rep b es"
  shows "bucket_lower_bound b h = Some (length (takeWhile (\<lambda>e. v_hash e < h) es)) \<and>
    (\<forall>i < length es. bucket_at b i = Some (es ! i)) \<and>
    (\<forall>e. entry_ok e \<and> \<not> bucket_full b \<longrightarrow>
       (\<exists>b'. bucket_insert (v_offset e) (v_size e) (v_hash e) b = Some b' \<and> b_spill b' = b_spill b \<and>
         bucket_rep b' (takeWhile (\<lambda>x. v_hash x < v_hash e) es @ e # dropWhile (\<lambda>x. v_hash x < v_hash e) es))) \<and>
    (\<forall>i < length es. \<exists>b'. bucket_erase i b = Some b' \<and> b_spill b' = b_spill b \<and> bucket_rep b' (take i es @ drop (Suc i) es))"
proof -
  have "length es < bucket_capacity (b_block_size b)" if "\<not> bucket_full b"
    using that assms by (simp add: bucket_full_def bucket_rep_def)
  then show ?thesis
    using lower_bound_rep [OF assms] bucket_at_rep [OF assms] bucket_insert_rep [OF assms] bucket_erase_rep [OF assms]
    unfolding insert_entry_def by blast
qed

theorem bucket_operations_witness:
  "bucket_rep sample_bucket [sample_entry] \<and> bucket_lower_bound sample_bucket 78 = Some 1 \<and>
   (\<exists>b'. bucket_erase 0 sample_bucket = Some b' \<and> bucket_rep b' [])"
  using sample_rep bucket_operations [OF sample_rep, of 78] by (auto simp: sample_entry_def)

text \<open>
  C30: Writing a bucket to a file and reading it back at the same offset, into a block of the same size, gives the same entries
  and the same spill offset.
\<close>

theorem bucket_file_roundtrip:
  assumes rep: "bucket_rep b es" and bs: "104 \<le> b_block_size b"
    and c: "b_block_size c = b_block_size b" "length (b_blob c) = b_block_size c"
  shows "\<exists>b' f' c'. bucket_write_file b f offset = Some (b', f') \<and> bucket_read f' offset c = Some (None, c') \<and>
    bucket_rep c' es \<and> b_spill c' = b_spill b"
proof -
  let ?p = "bucket_bytes (b_spill b) es @ replicate (b_block_size b - bucket_size (length es)) 0"
  obtain b' where w: "bucket_write_file b f offset = Some (b', file_write f offset ?p)"
    using bucket_write_file_rep [OF rep] by blast
  have r: "b_block_size b < 65536" "length es \<le> bucket_capacity (b_block_size b)" "b_spill b \<le> field_max f_uint48"
    "list_all entry_ok es" "sorted (map v_hash es)" using rep by (auto simp: bucket_rep_def)
  let ?cap = "bucket_capacity (b_block_size b)"
  have fits: "8 + ?cap * 18 \<le> b_block_size b" using bucket_fits [OF r(1), of ?cap] bs by auto
  have "file_read (file_write f offset ?p) offset (8 + ?cap * 18) = Inr (take (8 + ?cap * 18) ?p)"
    using file_read_write [of 0 "8 + ?cap * 18" ?p f offset] fits r(2) by simp
  also have "take (8 + ?cap * 18) ?p = bucket_bytes (b_spill b) es @ replicate (?cap * 18 - length es * 18) 0"
    using r(2) fits by (simp add: min_def)
  finally have "file_read (file_write f offset ?p) offset (bucket_size (bucket_capacity (b_block_size c))) =
      Inr (bucket_bytes (b_spill b) es @ replicate (?cap * 18 - length es * 18) 0)" using c(1) by simp
  from bucket_read_rep [OF this c(2)] r c(1) bs w show ?thesis by auto
qed

theorem bucket_file_roundtrip_witness:
  "\<exists>b' f' c'. bucket_write_file sample_bucket [] 128 = Some (b', f') \<and>
    bucket_read f' 128 (sample_bucket\<lparr>b_blob := replicate 128 0\<rparr>) = Some (None, c') \<and>
    bucket_rep c' [sample_entry] \<and> b_spill c' = 0"
  using bucket_file_roundtrip [OF sample_rep, of "sample_bucket\<lparr>b_blob := replicate 128 0\<rparr>" "[]" 128]
  by (simp add: sample_bucket_def)

lemma bucket_read_refused:
  assumes f: "f = g @ bucket_bytes spill es @ rest" and es: "length es < 65536" "spill \<le> field_max f_uint48"
    and b: "104 \<le> b_block_size b" "b_block_size b < 65536" "b_block_size b \<le> length (b_blob b)"
    and many: "bucket_capacity (b_block_size b) < length es"
  shows "\<exists>b'. bucket_read f (length g) b = Some (Some (Nudb invalid_bucket_size), b')"
proof -
  define cap where "cap = bucket_capacity (b_block_size b)"
  define hdr where "hdr = field_bytes f_uint16 (of_nat (length es)) @ field_bytes f_uint48 spill"
  define body where "body = take (cap * 18) (concat (map entry_bytes es))"
  have fits: "8 + cap * 18 \<le> b_block_size b" using bucket_fits [OF b(2), of cap] b(1) by (auto simp: cap_def)
  have body: "length body = cap * 18" using many by (simp add: body_def cap_def min_def)
  have "take (8 + cap * 18) (drop (length g) f) = hdr @ body"
    using many by (simp add: f bucket_bytes_def hdr_def body_def cap_def)
  then have read: "file_read f (length g) (bucket_size cap) = Inr (hdr @ body)"
    using many by (simp add: file_read_def f cap_def)
  have put: "blob_put (b_blob b) 0 (hdr @ body) = Some (hdr @ body @ drop (8 + cap * 18) (b_blob b))"
    using body fits b(3) by (simp add: blob_put_def overwrite_def hdr_def)
  have "take (b_block_size b) (hdr @ body @ drop (8 + cap * 18) (b_blob b)) =
      hdr @ take (b_block_size b - 8) (body @ drop (8 + cap * 18) (b_blob b))"
    using b(1) by (simp add: hdr_def)
  then show ?thesis
    using read put es many b(1) by (simp add: bucket_read_def Let_def cap_def [symmetric] hdr_def nudb_simps)
qed

text \<open>
  C37: Reading a bucket from a log through a reader does not check the number of entries of the record against
  the capacity of the bucket. Whenever a record has more entries than fit, and the block of the bucket is followed by
  other memory, the call reports success and has replaced the bytes behind the block by entries of the record.
  Reading the same bytes from the file at that place is refused with \<open>invalid_bucket_size\<close>.
\<close>

theorem bucket_read_bulk_overflow:
  assumes "br_ok f r" "f = g @ bucket_bytes spill es @ rest" "length g = bulk_reader_offset r"
    and "length g + length (bucket_bytes spill es) \<le> br_last r" "length es < 65536" "spill \<le> field_max f_uint48"
    and "b_blob b = block @ behind" "length block = b_block_size b" "104 \<le> b_block_size b" "b_block_size b < 65536"
    and "bucket_capacity (b_block_size b) < length es" "8 + length es * 18 \<le> b_block_size b + length behind"
  shows "(\<exists>r' b'. bucket_read_bulk f r b = Some (None, r', b') \<and> b_size b' = length es \<and>
      drop (b_block_size b) (b_blob b') =
        drop (b_block_size b) (bucket_bytes spill es) @ drop (8 + length es * 18 - b_block_size b) behind \<and>
      drop (b_block_size b) (bucket_bytes spill es) \<noteq> []) \<and>
    (\<exists>b'. bucket_read f (length g) b = Some (Some (Nudb invalid_bucket_size), b'))"
proof -
  have long: "b_block_size b < 8 + length es * 18"
    using assms(9,10,11) by (simp add: bucket_capacity_eq)
  have len: "length (bucket_bytes spill es) = 8 + length es * 18" by simp
  obtain r' where r': "bucket_read_bulk f r b = Some (None, r', b\<lparr>b_size := length es, b_spill := spill,
      b_blob := bucket_bytes spill es @ drop (8 + length es * 18) (b_blob b)\<rparr>)"
    using read_bulk_bytes [OF assms(1-6), of b] assms(7,8,9,12) by auto
  have "drop (b_block_size b) (bucket_bytes spill es @ drop (8 + length es * 18) (b_blob b)) =
      drop (b_block_size b) (bucket_bytes spill es) @ drop (8 + length es * 18 - b_block_size b) behind"
    using long assms(7,8) len by simp
  moreover have "drop (b_block_size b) (bucket_bytes spill es) \<noteq> []" using long len by simp
  moreover have "\<exists>b'. bucket_read f (length g) b = Some (Some (Nudb invalid_bucket_size), b')"
    using assms(7,8) by (intro bucket_read_refused [OF assms(2,5,6,9,10) _ assms(11)]) simp
  ultimately show ?thesis using r' by auto
qed

theorem bucket_read_bulk_overflow_witness:
  "\<exists>r' b'. bucket_read_bulk (bucket_bytes 0 (replicate 7 sample_entry)) (bulk_reader_new 0 134 1024)
      \<lparr>b_block_size = 128, b_size = 0, b_spill = 0, b_blob = replicate 128 0 @ replicate 20 255\<rparr> = Some (None, r', b') \<and>
    take 6 (drop 128 (b_blob b')) = drop 128 (bucket_bytes 0 (replicate 7 sample_entry))"
proof -
  let ?f = "bucket_bytes 0 (replicate 7 sample_entry)"
    and ?b = "\<lparr>b_block_size = 128, b_size = 0, b_spill = 0, b_blob = replicate 128 0 @ replicate 20 255\<rparr>"
  have "br_ok ?f (bulk_reader_new 0 134 1024)" using br_ok_new [of 134 ?f 0 1024] by simp
  from bucket_read_bulk_overflow [OF this, of "[]" 0 "replicate 7 sample_entry" "[]" ?b "replicate 128 0" "replicate 20 255"]
  show ?thesis by (auto simp: bulk_reader_offset_def bulk_reader_new_def bucket_capacity_eq)
qed

end
