(* ===== verification/NuDB_Create.thy ===== *)
theory NuDB_Create
  imports Complex_Main NuDB_Bucket
begin

text \<open>
  Creating a database, from \<^verbatim>\<open>nudb/include/nudb/impl/create.ipp\<close>. The file system maps paths to the
  contents of files; the numbers that the code draws at random are parameters. A load factor, a finite float,
  is the rational number it stands for; scaling it by a power of two is exact.
\<close>

section \<open>Model\<close>

type_synonym file_system = "string \<Rightarrow> nfile option"

definition EEXIST :: int where "EEXIST = 17"

definition posix_file_create :: "string \<Rightarrow> file_system \<Rightarrow> error_code option \<times> file_system" where
  "posix_file_create path fs =
     (if fs path \<noteq> None then (Some (System EEXIST), fs) else (None, fs(path \<mapsto> [])))"

definition erase_file :: "string \<Rightarrow> file_system \<Rightarrow> file_system" where
  "erase_file path fs = fs(path := None)"

text \<open>What \<^verbatim>\<open>create\<close> writes into the three files.\<close>

definition create_dat_header :: "u64 \<Rightarrow> u64 \<Rightarrow> nat \<Rightarrow> dat_file_header" where
  "create_dat_header uid appnum key_size =
     \<lparr>dh_type = replicate 8 0, dh_version = currentVersion, dh_uid = uid, dh_appnum = appnum, dh_key_size = key_size\<rparr>"

definition create_key_header ::
  "XXH_endianess \<Rightarrow> hasher \<Rightarrow> u64 \<Rightarrow> u64 \<Rightarrow> u64 \<Rightarrow> nat \<Rightarrow> nat \<Rightarrow> rat \<Rightarrow> key_file_header" where
  "create_key_header native H uid appnum salt key_size blockSize load_factor =
     \<lparr>kh_type = replicate 8 0, kh_version = currentVersion, kh_uid = uid, kh_appnum = appnum, kh_key_size = key_size,
      kh_salt = salt, kh_pepper = pepper native H salt, kh_block_size = blockSize,
      kh_load_factor = min (nat \<lfloor>65536 * load_factor\<rfloor>) 65535, kh_capacity = 0, kh_buckets = 0, kh_modulus = 0\<rparr>"

definition create_files ::
  "XXH_endianess \<Rightarrow> hasher \<Rightarrow> u64 \<Rightarrow> u64 \<Rightarrow> u64 \<Rightarrow> nat \<Rightarrow> nat \<Rightarrow> rat \<Rightarrow> (error_code + (nfile \<times> nfile)) option" where
  "create_files native H uid appnum salt key_size blockSize load_factor = do {
     df \<leftarrow> write_dat_file [] (create_dat_header uid appnum key_size);
     rkf \<leftarrow> write_key_file [] (create_key_header native H uid appnum salt key_size blockSize load_factor);
     (case rkf of
        Inl ec \<Rightarrow> Some (Inl ec)
      | Inr kf \<Rightarrow> do {
          b \<leftarrow> bucket_empty blockSize (replicate blockSize 0);
          (b, kf) \<leftarrow> bucket_write_file b kf blockSize;
          Some (Inr (df, kf)) }) }"

definition nudb_create ::
  "XXH_endianess \<Rightarrow> hasher \<Rightarrow> string \<Rightarrow> string \<Rightarrow> string \<Rightarrow> u64 \<Rightarrow> u64 \<Rightarrow> u64 \<Rightarrow> nat \<Rightarrow> nat \<Rightarrow> rat \<Rightarrow> file_system \<Rightarrow>
   (error_code option \<times> file_system) option" where
  "nudb_create native H dat_path key_path log_path uid appnum salt key_size blockSize load_factor fs =
     (if key_size < 1 then Some (Some (Nudb invalid_key_size), fs)
      else if blockSize > unat (field_max f_uint16) then Some (Some (Nudb invalid_block_size), fs)
      else if load_factor \<le> 0 \<or> load_factor \<ge> 1 then Some (Some (Nudb invalid_load_factor), fs)
      else if bucket_capacity blockSize < 1 then Some (Some (Nudb invalid_block_size), fs)
      else case posix_file_create dat_path fs of
        (Some ec, fs) \<Rightarrow> Some (Some ec, fs)
      | (None, fs) \<Rightarrow> (case posix_file_create key_path fs of
          (Some ec, fs) \<Rightarrow> Some (Some ec, erase_file dat_path fs)
        | (None, fs) \<Rightarrow> (case posix_file_create log_path fs of
            (Some ec, fs) \<Rightarrow> Some (Some ec, erase_file key_path (erase_file dat_path fs))
          | (None, fs) \<Rightarrow> do {
              r \<leftarrow> create_files native H uid appnum salt key_size blockSize load_factor;
              (case r of
                 Inl ec \<Rightarrow> Some (Some ec, erase_file log_path (erase_file key_path (erase_file dat_path fs)))
               | Inr (df, kf) \<Rightarrow> Some (None, fs(dat_path \<mapsto> df, key_path \<mapsto> kf))) })))"

section \<open>A created database can be opened\<close>

text \<open>Opening a database reads its headers and checks them.\<close>

definition open_headers :: "XXH_endianess \<Rightarrow> hasher \<Rightarrow> nfile \<Rightarrow> nfile \<Rightarrow> (error_code + key_file_header) option" where
  "open_headers native H df kf = do {
     rd \<leftarrow> read_dat_file df;
     (case rd of
        Inl ec \<Rightarrow> Some (Inl ec)
      | Inr dh \<Rightarrow>
          (case verify_dat dh of
             Some e \<Rightarrow> Some (Inl (Nudb e))
           | None \<Rightarrow> do {
               rk \<leftarrow> read_key_file kf;
               (case rk of
                  Inl ec \<Rightarrow> Some (Inl ec)
                | Inr kh \<Rightarrow>
                    (case verify_key native H kh of
                       Some e \<Rightarrow> Some (Inl (Nudb e))
                     | None \<Rightarrow>
                         (case verify_dat_key native H dh kh of
                            Some e \<Rightarrow> Some (Inl (Nudb e))
                          | None \<Rightarrow> Some (Inr kh)))) })) }"

lemma create_files_eq:
  assumes "104 \<le> blockSize" "blockSize < 65536"
  shows "create_files native H uid appnum salt key_size blockSize load_factor =
    Some (Inr (dat_bytes (create_dat_header uid appnum key_size),
      (key_bytes (create_key_header native H uid appnum salt key_size blockSize load_factor) @ replicate (blockSize - 104) 0) @
      replicate blockSize 0))"
proof -
  let ?kh = "create_key_header native H uid appnum salt key_size blockSize load_factor"
  let ?kf = "key_bytes ?kh @ replicate (blockSize - 104) 0"
  let ?b = "\<lparr>b_block_size = blockSize, b_size = 0, b_spill = 0, b_blob = replicate blockSize 0\<rparr>"
  have len: "length ?kf = blockSize" using assms(1) by simp
  have "bucket_empty blockSize (replicate blockSize 0) = Some ?b"
    by (simp add: bucket_empty_def bucket_clear_def blob_put_def overwrite_def)
  moreover have "bucket_write_file ?b ?kf blockSize = Some (?b, file_write ?kf blockSize (replicate blockSize 0))"
    using assms(1) by (simp add: bucket_write_file_def bucket_actual_size_def blob_put_def blob_get_def overwrite_def Let_def min.absorb2
        flip: replicate_add)
  moreover have "file_write ?kf blockSize (replicate blockSize 0) = ?kf @ replicate blockSize 0"
    using file_write_append_end [of ?kf "replicate blockSize 0"] unfolding len .
  moreover have "kh_block_size ?kh = blockSize" by (simp add: create_key_header_def)
  moreover have "file_write [] 0 bs = bs" for bs using file_write_append_end [of "[]" bs] by simp
  ultimately show ?thesis using assms(1) by (simp add: create_files_def write_files)
qed

lemma create_headers:
  assumes bs: "104 \<le> blockSize" "blockSize < 65536" and k: "key_size < 65536"
  shows "\<exists>df kf dh kh. create_files native H uid appnum salt key_size blockSize load_factor = Some (Inr (df, kf)) \<and>
    read_dat_file df = Some (Inr dh) \<and> read_key_file kf = Some (Inr kh) \<and>
    dh = create_dat_header uid appnum key_size\<lparr>dh_type := type_dat\<rparr> \<and>
    kh = create_key_header native H uid appnum salt key_size blockSize load_factor
      \<lparr>kh_type := type_key, kh_capacity := bucket_capacity blockSize, kh_buckets := 1, kh_modulus := 1\<rparr>"
proof -
  let ?dh = "create_dat_header uid appnum key_size"
  let ?kh = "create_key_header native H uid appnum salt key_size blockSize load_factor"
  let ?df = "dat_bytes ?dh" and ?kf = "(key_bytes ?kh @ replicate (blockSize - 104) 0) @ replicate blockSize 0"
  have "file_read ?df 0 92 = Inr (?df @ [])" by (simp add: file_read_def)
  then have d: "read_dat_file ?df = Some (Inr (?dh\<lparr>dh_type := type_dat\<rparr>))"
    using read_headers(1) [of ?dh "[]"] k by (simp add: read_dat_file_def create_dat_header_def currentVersion_def)
  have "file_read ?kf 0 104 = Inr (key_bytes ?kh @ [])" using bs by (simp add: file_read_def)
  moreover have "read_key_header (key_bytes ?kh @ []) (length ?kf) = map_option (\<lambda>kh. (kh, [])) (key_computed (length ?kf) ?kh)"
    using bs k by (intro read_key_header_bytes) (simp_all add: create_key_header_def currentVersion_def)
  moreover have "ceil_pow2 1 = Some 1" using ceil_pow2_between [of 0 1] by simp
  then have "key_computed (length ?kf) ?kh = Some (?kh\<lparr>kh_type := type_key, kh_capacity := bucket_capacity blockSize, kh_buckets := 1, kh_modulus := 1\<rparr>)"
    using bs by (simp add: key_computed_def create_key_header_def Let_def)
  ultimately have "read_key_file ?kf = Some (Inr (?kh\<lparr>kh_type := type_key, kh_capacity := bucket_capacity blockSize, kh_buckets := 1, kh_modulus := 1\<rparr>))"
    using bs by (simp add: read_key_file_def)
  with d create_files_eq [OF bs] show ?thesis by blast
qed

lemma create_verifies:
  assumes bs: "104 \<le> blockSize" "blockSize < 65536" and k: "0 < key_size" "key_size < 65536"
  shows "\<exists>df kf. create_files native H uid appnum salt key_size blockSize load_factor = Some (Inr (df, kf)) \<and>
    open_headers native H df kf = Some (if 65536 * load_factor < 1 then Inl (Nudb invalid_load_factor)
      else Inr (create_key_header native H uid appnum salt key_size blockSize load_factor
        \<lparr>kh_type := type_key, kh_capacity := bucket_capacity blockSize, kh_buckets := 1, kh_modulus := 1\<rparr>))"
proof -
  have "1 \<le> bucket_capacity blockSize" using bs by (simp add: bucket_capacity_eq)
  moreover have "nat \<lfloor>65536 * load_factor\<rfloor> < 1 \<longleftrightarrow> 65536 * load_factor < 1" by linarith
  moreover note create_headers [OF bs k(2), of native H uid appnum salt load_factor]
  ultimately show ?thesis using k
    by (auto simp: open_headers_def verify_dat_def verify_key_def verify_dat_key_def create_dat_header_def create_key_header_def)
qed

lemma nudb_create_eq:
  assumes "0 < key_size" "104 \<le> blockSize" "blockSize < 65536" "0 < load_factor" "load_factor < 1"
    and "fs dat_path = None" "fs key_path = None" "fs log_path = None"
    and "dat_path \<noteq> key_path" "dat_path \<noteq> log_path" "key_path \<noteq> log_path"
    and "create_files native H uid appnum salt key_size blockSize load_factor = Some (Inr (df, kf))"
  shows "nudb_create native H dat_path key_path log_path uid appnum salt key_size blockSize load_factor fs =
    Some (None, fs(log_path \<mapsto> [], dat_path \<mapsto> df, key_path \<mapsto> kf))"
  using assms by (auto simp: nudb_create_def posix_file_create_def bucket_capacity_eq fun_upd_twist)

text \<open>
  C28: A database created with a key size and a block size that fit in 16 bits, a block size of at least 104 bytes, and a load factor from
  \<open>1 / 65536\<close> up to but not including 1, on paths that name no files, consists of three new files whose headers pass the
  checks of opening it, whatever the hash function and the byte order of the machine: one bucket, modulus 1, the given
  identifiers, salt and sizes, and the load factor in units of \<open>1 / 65536\<close>, rounded down. No other file changes.
\<close>

theorem nudb_create_opens:
  assumes "0 < key_size" "key_size < 65536" "104 \<le> blockSize" "blockSize < 65536"
    and "1 / 65536 \<le> load_factor" "load_factor < 1"
    and "fs dat_path = None" "fs key_path = None" "fs log_path = None"
    and "dat_path \<noteq> key_path" "dat_path \<noteq> log_path" "key_path \<noteq> log_path"
  shows "\<exists>fs' df kf kh.
    nudb_create native H dat_path key_path log_path uid appnum salt key_size blockSize load_factor fs = Some (None, fs') \<and>
    fs' = fs(log_path \<mapsto> [], dat_path \<mapsto> df, key_path \<mapsto> kf) \<and>
    open_headers native H df kf = Some (Inr kh) \<and>
    kh_buckets kh = 1 \<and> kh_modulus kh = 1 \<and> kh_key_size kh = key_size \<and> kh_block_size kh = blockSize \<and>
    kh_salt kh = salt \<and> kh_uid kh = uid \<and> kh_appnum kh = appnum \<and> kh_pepper kh = pepper native H salt \<and>
    int (kh_load_factor kh) = \<lfloor>65536 * load_factor\<rfloor> \<and> kh_capacity kh = (blockSize - 8) div 18"
proof -
  have "\<not> 65536 * load_factor < 1" "0 < load_factor" using assms(5) by simp_all
  then obtain df kf where "create_files native H uid appnum salt key_size blockSize load_factor = Some (Inr (df, kf))"
    "open_headers native H df kf = Some (Inr (create_key_header native H uid appnum salt key_size blockSize load_factor
        \<lparr>kh_type := type_key, kh_capacity := bucket_capacity blockSize, kh_buckets := 1, kh_modulus := 1\<rparr>))"
    using create_verifies [OF assms(3,4,1,2), of native H uid appnum salt load_factor] by auto
  moreover have "int (min (nat \<lfloor>65536 * load_factor\<rfloor>) 65535) = \<lfloor>65536 * load_factor\<rfloor>"
  proof -
    define k where "k = \<lfloor>65536 * load_factor\<rfloor>"
    have "0 \<le> k" "k < 65536" using \<open>0 < load_factor\<close> assms(6) by (simp_all add: k_def floor_less_iff)
    then show ?thesis by (simp add: k_def [symmetric])
  qed
  ultimately show ?thesis
    using nudb_create_eq [OF assms(1,3,4) \<open>0 < load_factor\<close> assms(6-12), of native H uid appnum salt df kf] assms(3,4)
    by - (rule exI, rule exI [of _ df], rule exI [of _ kf], rule exI, auto simp: create_key_header_def bucket_capacity_eq)
qed

theorem nudb_create_opens_witness:
  "\<exists>fs' df kf kh.
    nudb_create XXH_bigEndian (\<lambda>seed key. XXH64 XXH_bigEndian 0 key seed) ''d'' ''k'' ''l'' 1 2 3 32 4096 (1 / 2) Map.empty = Some (None, fs') \<and>
    fs' = Map.empty(''l'' \<mapsto> [], ''d'' \<mapsto> df, ''k'' \<mapsto> kf) \<and>
    open_headers XXH_bigEndian (\<lambda>seed key. XXH64 XXH_bigEndian 0 key seed) df kf = Some (Inr kh) \<and>
    kh_buckets kh = 1 \<and> kh_capacity kh = 227 \<and> kh_load_factor kh = 32768"
proof -
  obtain fs' df kf kh where "nudb_create XXH_bigEndian (\<lambda>seed key. XXH64 XXH_bigEndian 0 key seed) ''d'' ''k'' ''l'' 1 2 3 32 4096 (1 / 2) Map.empty =
      Some (None, fs')" "fs' = Map.empty(''l'' \<mapsto> [], ''d'' \<mapsto> df, ''k'' \<mapsto> kf)"
    "open_headers XXH_bigEndian (\<lambda>seed key. XXH64 XXH_bigEndian 0 key seed) df kf = Some (Inr kh)"
    "kh_buckets kh = 1" "int (kh_load_factor kh) = \<lfloor>65536 * (1 / 2 :: rat)\<rfloor>" "kh_capacity kh = (4096 - 8) div 18"
    using nudb_create_opens [of 32 4096 "1 / 2" Map.empty "''d''" "''k''" "''l''" XXH_bigEndian
        "\<lambda>seed key. XXH64 XXH_bigEndian 0 key seed" 1 2 3] by auto
  moreover from this(5) have "int (kh_load_factor kh) = 32768" by simp
  ultimately show ?thesis by auto
qed

text \<open>
  C38: A database created with a positive load factor below \<open>1 / 65536\<close> cannot be opened: creating it succeeds, but the load factor
  is stored as zero, and the check of the key file header refuses that.
\<close>

theorem nudb_create_tiny_load_factor:
  assumes "0 < key_size" "key_size < 65536" "104 \<le> blockSize" "blockSize < 65536"
    and "0 < load_factor" "load_factor < 1 / 65536"
    and "fs dat_path = None" "fs key_path = None" "fs log_path = None"
    and "dat_path \<noteq> key_path" "dat_path \<noteq> log_path" "key_path \<noteq> log_path"
  shows "\<exists>fs' df kf.
    nudb_create native H dat_path key_path log_path uid appnum salt key_size blockSize load_factor fs = Some (None, fs') \<and>
    fs' dat_path = Some df \<and> fs' key_path = Some kf \<and>
    open_headers native H df kf = Some (Inl (Nudb invalid_load_factor))"
proof -
  have "65536 * load_factor < 1" "load_factor < 1" using assms(6) by simp_all
  then obtain df kf where "create_files native H uid appnum salt key_size blockSize load_factor = Some (Inr (df, kf))"
    "open_headers native H df kf = Some (Inl (Nudb invalid_load_factor))"
    using create_verifies [OF assms(3,4,1,2), of native H uid appnum salt load_factor] by auto
  with nudb_create_eq [OF assms(1,3,4,5) \<open>load_factor < 1\<close> assms(7-12) this(1)] assms(10-12) show ?thesis by auto
qed

theorem nudb_create_tiny_load_factor_witness:
  "\<exists>fs' df kf.
    nudb_create XXH_littleEndian (\<lambda>seed key. XXH64 XXH_littleEndian 0 key seed) ''d'' ''k'' ''l'' 1 2 3 32 4096 (1 / 1048576) Map.empty = Some (None, fs') \<and>
    fs' ''d'' = Some df \<and> fs' ''k'' = Some kf \<and>
    open_headers XXH_littleEndian (\<lambda>seed key. XXH64 XXH_littleEndian 0 key seed) df kf = Some (Inl (Nudb invalid_load_factor))"
  using nudb_create_tiny_load_factor [of 32 4096 "1 / 1048576" Map.empty "''d''" "''k''" "''l''" XXH_littleEndian
      "\<lambda>seed key. XXH64 XXH_littleEndian 0 key seed" 1 2 3]
  by simp

end
