(* ===== verification/Spec2Isabelle.thy ===== *)
theory Spec2Isabelle
  imports XXH64 LZ4_DeBruijn LZ4_Decompress_Safe LZ4_Limits LZ4_Stream_Roundtrip LZ4_DestSize LZ4_HC_Roundtrip
    NuDB_Create
begin

text \<open>
  A verification development for the C libraries bundled with the server: the LZ4
  compression library of \<^verbatim>\<open>src/lz4/lib\<close> with its hash \<^verbatim>\<open>xxhash.c\<close>.

  \<^item> \<open>Verif_Prelude\<close>: machine words, byte order, block-wise absorption of byte lists.
  \<^item> \<open>Stream_Hash\<close>: the contract of an incremental hash, as the locale \<open>streaming_hash\<close>.
  \<^item> \<open>XXH32\<close>, \<open>XXH64\<close>: \<^verbatim>\<open>xxhash.c\<close>; both interpret \<open>streaming_hash\<close>.
  \<^item> \<open>C_Memory\<close>: the memory of the C code.
  \<^item> \<open>LZ4_Common\<close>: reads, writes, copies and match counting of \<^verbatim>\<open>lz4.c\<close>.
\<close>

end
